(* ===== verification/Prelude.thy ===== *)
theory Prelude
  imports Main "HOL-Library.Word"
begin

unbundle bit_operations_syntax

text \<open>
  The prelude of the gnostr development: the names of the C types the model uses, the byte-level
  memory the cursors write to, C strings and their literals, decimal printing as
  \<^verbatim>\<open>printf\<close> does it, the short-circuit conjunction \<^verbatim>\<open>&&\<close> over state
  transformers, and the generic lemmas on lists, words and memory that the component theories
  share. A pointer is an integer address, a C string is the list of its bytes up to but not
  including the terminating NUL, and a nullable pointer is an \<open>option\<close>.
\<close>

section \<open>C types\<close>

type_synonym u8 = "8 word"
type_synonym u16 = "16 word"
type_synonym u32 = "32 word"
type_synonym u64 = "64 word"
type_synonym bytes = "u8 list"
type_synonym cstr = "u8 list"
type_synonym addr = int
type_synonym memory = "int \<Rightarrow> u8"

text \<open>A string literal of the source as the bytes the C compiler stores for it.\<close>

definition str :: "string \<Rightarrow> cstr" where
  "str s = map of_char s"

text \<open>A character literal of the source.\<close>

definition chr :: "char \<Rightarrow> u8" where
  "chr c = of_char c"

text \<open>
  \<open>bytes_simps\<close>: evaluation of literals and byte lists; \<open>mem_simps\<close>: reads and writes of memory;
  \<open>cursor_simps\<close>: the defining equations of the cursor primitives.
\<close>

named_theorems bytes_simps
named_theorems mem_simps
named_theorems cursor_simps

lemmas [bytes_simps] = str_def chr_def

lemma str_append: "str (s @ t) = str s @ str t"
  by (simp add: str_def)

lemma length_str [simp]: "length (str s) = length s"
  by (simp add: str_def)

section \<open>Memory\<close>

text \<open>
  \<open>mem_read\<close> reads consecutive bytes, \<open>mem_write\<close> is \<^verbatim>\<open>memcpy\<close> from an object that
  does not overlap the destination, \<open>mem_set\<close> is \<^verbatim>\<open>memset\<close>.
\<close>

definition mem_read :: "memory \<Rightarrow> addr \<Rightarrow> nat \<Rightarrow> bytes" where
  "mem_read m a n = map (\<lambda>i. m (a + int i)) [0..<n]"

definition mem_write :: "memory \<Rightarrow> addr \<Rightarrow> bytes \<Rightarrow> memory" where
  "mem_write m a bs =
     (\<lambda>x. if a \<le> x \<and> x < a + int (length bs) then bs ! nat (x - a) else m x)"

definition mem_set :: "memory \<Rightarrow> addr \<Rightarrow> u8 \<Rightarrow> nat \<Rightarrow> memory" where
  "mem_set m a b n = mem_write m a (replicate n b)"

text \<open>
  Conversion of a C \<^verbatim>\<open>int\<close> to \<^verbatim>\<open>size_t\<close>, as the third argument of
  \<^verbatim>\<open>memcpy\<close> undergoes it: a negative length becomes a huge one.
\<close>

definition size_of_int :: "int \<Rightarrow> nat" where
  "size_of_int len = nat (len mod 2 ^ 64)"

lemma size_of_int_nat [simp]: "n < 2 ^ 64 \<Longrightarrow> size_of_int (int n) = n"
  by (simp add: size_of_int_def nat_mod_distrib)

lemma size_of_int_pos: "0 \<le> len \<Longrightarrow> len < 2 ^ 64 \<Longrightarrow> size_of_int len = nat len"
  by (simp add: size_of_int_def)

lemma length_mem_read [simp]: "length (mem_read m a n) = n"
  by (simp add: mem_read_def)

lemma nth_mem_read [simp]: "i < n \<Longrightarrow> mem_read m a n ! i = m (a + int i)"
  by (simp add: mem_read_def)

lemma mem_read_0 [simp]: "mem_read m a 0 = []"
  by (simp add: mem_read_def)

lemma mem_read_cong:
  "(\<And>x. a \<le> x \<Longrightarrow> x < a + int n \<Longrightarrow> m x = m' x) \<Longrightarrow> mem_read m a n = mem_read m' a n"
  by (simp add: mem_read_def)

lemma mem_read_add: "mem_read m a (n + k) = mem_read m a n @ mem_read m (a + int n) k"
  by (rule nth_equalityI) (auto simp: nth_append algebra_simps)

lemma mem_write_Nil [simp]: "mem_write m a [] = m"
  by (rule ext) (auto simp: mem_write_def)

lemma mem_write_other [mem_simps]:
  "x < a \<or> a + int (length bs) \<le> x \<Longrightarrow> mem_write m a bs x = m x"
  by (auto simp: mem_write_def)

lemma mem_write_in [mem_simps]:
  "a \<le> x \<Longrightarrow> x < a + int (length bs) \<Longrightarrow> mem_write m a bs x = bs ! nat (x - a)"
  by (simp add: mem_write_def)

lemma mem_read_write_same [simp]: "mem_read (mem_write m a bs) a (length bs) = bs"
  by (rule nth_equalityI) (auto simp: mem_write_def)

lemma mem_read_write_before [simp]:
  "a + int n \<le> b \<Longrightarrow> mem_read (mem_write m b bs) a n = mem_read m a n"
  by (rule mem_read_cong) (auto simp: mem_write_def)

lemma mem_read_write_after:
  "b + int (length bs) \<le> a \<Longrightarrow> mem_read (mem_write m b bs) a n = mem_read m a n"
  by (rule mem_read_cong) (auto simp: mem_write_def)

lemma mem_read_write_append:
  "b = a + int n \<Longrightarrow> k = n + length bs \<Longrightarrow>
   mem_read (mem_write m b bs) a k = mem_read m a n @ bs"
  by (simp add: mem_read_add)

lemma mem_write_append:
  "mem_write (mem_write m a xs) (a + int (length xs)) ys = mem_write m a (xs @ ys)"
proof (rule ext)
  fix x
  have "nat (x - (a + int (length xs))) = nat (x - a) - length xs" by simp
  then show "mem_write (mem_write m a xs) (a + int (length xs)) ys x = mem_write m a (xs @ ys) x"
    by (auto simp: mem_write_def nth_append)
qed

section \<open>Sequencing with short-circuit conjunction\<close>

text \<open>
  A C function that works on an object and returns 1 or 0 is a state transformer with a Boolean
  result; \<open>and_then f g\<close> is the expression \<^verbatim>\<open>f() && g()\<close>, and equally the statement
  \<^verbatim>\<open>if (!f()) return 0; return g();\<close>.
\<close>

definition and_then ::
  "('s \<Rightarrow> bool \<times> 's) \<Rightarrow> ('s \<Rightarrow> bool \<times> 's) \<Rightarrow> 's \<Rightarrow> bool \<times> 's" where
  "and_then f g s = (case f s of (ok, s') \<Rightarrow> if ok then g s' else (False, s'))"

definition ret_true :: "'s \<Rightarrow> bool \<times> 's" where
  "ret_true s = (True, s)"

fun and_all :: "('s \<Rightarrow> bool \<times> 's) list \<Rightarrow> 's \<Rightarrow> bool \<times> 's" where
  "and_all [] s = (True, s)"
| "and_all (f # fs) s = (case f s of (ok, s') \<Rightarrow> if ok then and_all fs s' else (False, s'))"

lemma and_then_ret_true [simp]: "and_then f ret_true = f"
  by (rule ext) (simp add: and_then_def ret_true_def split: prod.splits)

lemma and_all_append: "and_all (fs @ gs) = and_then (and_all fs) (and_all gs)"
proof (rule ext)
  fix s show "and_all (fs @ gs) s = and_then (and_all fs) (and_all gs) s"
    by (induction fs arbitrary: s) (auto simp: and_then_def split: prod.splits)
qed

lemma and_all_single [simp]: "and_all [f] = f"
  by (rule ext) (simp split: prod.splits)

lemma and_all_Cons: "and_all (f # fs) = and_then f (and_all fs)"
  by (rule ext) (simp add: and_then_def)

section \<open>Calls that may not return\<close>

text \<open>
  \<open>Abort\<close> is a failed \<^verbatim>\<open>assert\<close> or a call of \<^verbatim>\<open>abort()\<close>; \<open>Ret x\<close> is a return
  with result \<open>x\<close>.
\<close>

datatype 'a outcome = Abort | Ret 'a

fun bind_outcome :: "'a outcome \<Rightarrow> ('a \<Rightarrow> 'b outcome) \<Rightarrow> 'b outcome" where
  "bind_outcome Abort f = Abort"
| "bind_outcome (Ret x) f = f x"

fun map_outcome :: "('a \<Rightarrow> 'b outcome) \<Rightarrow> 'a list \<Rightarrow> 'b list outcome" where
  "map_outcome f [] = Ret []"
| "map_outcome f (x # xs) =
     bind_outcome (f x) (\<lambda>y. bind_outcome (map_outcome f xs) (\<lambda>ys. Ret (y # ys)))"

lemma map_outcome_Ret: "(\<And>x. x \<in> set xs \<Longrightarrow> f x = Ret (g x)) \<Longrightarrow> map_outcome f xs = Ret (map g xs)"
  by (induction xs) auto

section \<open>Text codecs\<close>

text \<open>
  The contract the event code relies on in both of its text encodings (hexadecimal and base64): an
  encoder from bytes to a NUL-free text, and a decoder that inverts it.
\<close>

locale text_codec =
  fixes enc :: "bytes \<Rightarrow> cstr"
    and dec :: "cstr \<Rightarrow> bytes option"
  assumes dec_enc: "dec (enc bs) = Some bs"
    and enc_nul_free: "0 \<notin> set (enc bs)"
begin

lemma enc_inject: "enc xs = enc ys \<longleftrightarrow> xs = ys"
  by (metis dec_enc option.inject)

lemma enc_split_inject:
  assumes "sep \<notin> set (enc xs)" and "sep \<notin> set (enc xs')"
    and "enc xs @ sep # r @ enc ys = enc xs' @ sep # r @ enc ys'"
  shows "xs = xs' \<and> ys = ys'"
proof -
  have "enc xs = takeWhile (\<lambda>c. c \<noteq> sep) (enc xs @ sep # r @ enc ys)"
    using assms(1) by (metis (mono_tags, lifting) append_Nil2 takeWhile.simps(2) takeWhile_append2)
  also have "\<dots> = enc xs'"
    unfolding assms(3) using assms(2)
    by (metis (mono_tags, lifting) append_Nil2 takeWhile.simps(2) takeWhile_append2)
  finally show ?thesis using assms(3) by (simp add: enc_inject)
qed

end

section \<open>Printing integers in decimal\<close>

text \<open>The digits \<^verbatim>\<open>printf\<close> produces for \<^verbatim>\<open>%u\<close> and \<^verbatim>\<open>%d\<close>.\<close>

fun dec_u :: "nat \<Rightarrow> cstr" where
  "dec_u n = (if n < 10 then [48 + of_nat n] else dec_u (n div 10) @ [48 + of_nat (n mod 10)])"

declare dec_u.simps [simp del]

definition dec_s :: "int \<Rightarrow> cstr" where
  "dec_s i = (if i < 0 then chr CHR ''-'' # dec_u (nat (- i)) else dec_u (nat i))"

text \<open>
  \<^verbatim>\<open>snprintf(buf, n, ...)\<close> stores at most \<open>n - 1\<close> bytes of the text and a NUL.
\<close>

definition snprintf :: "nat \<Rightarrow> cstr \<Rightarrow> cstr" where
  "snprintf n s = take (n - 1) s"

lemma snprintf_fits: "length s < n \<Longrightarrow> snprintf n s = s"
  by (simp add: snprintf_def)

definition dec_val :: "cstr \<Rightarrow> nat" where
  "dec_val s = foldl (\<lambda>n c. 10 * n + (unat c - 48)) 0 s"

lemma unat_digit: "d < 10 \<Longrightarrow> unat (48 + of_nat d :: u8) = 48 + d"
  by (simp add: unat_word_ariths unat_of_nat)

lemma dec_val_snoc: "dec_val (s @ [c]) = 10 * dec_val s + (unat c - 48)"
  by (simp add: dec_val_def)

lemma dec_val_dec_u [simp]: "dec_val (dec_u n) = n"
proof (induction n rule: dec_u.induct)
  case (1 n)
  show ?case
  proof (cases "n < 10")
    case True
    then show ?thesis by (simp add: dec_u.simps dec_val_def unat_digit)
  next
    case False
    with 1 show ?thesis by (simp add: dec_u.simps [of n] dec_val_snoc unat_digit)
  qed
qed

lemma dec_u_inject: "dec_u m = dec_u n \<Longrightarrow> m = n"
  by (metis dec_val_dec_u)

lemma dec_u_nonempty [simp]: "dec_u n \<noteq> []"
  by (subst dec_u.simps) simp

lemma dec_u_digits: "\<forall>c \<in> set (dec_u n). 48 \<le> unat c \<and> unat c \<le> 57"
proof (induction n rule: dec_u.induct)
  case (1 n)
  show ?case
  proof (cases "n < 10")
    case True
    then show ?thesis by (simp add: dec_u.simps unat_digit)
  next
    case False
    with 1 show ?thesis by (simp add: dec_u.simps [of n] unat_digit less_Suc_eq_le [symmetric])
  qed
qed

lemma length_dec_u_le: "0 < k \<Longrightarrow> n < 10 ^ k \<Longrightarrow> length (dec_u n) \<le> k"
proof (induction k arbitrary: n)
  case 0
  then show ?case by simp
next
  case (Suc k)
  show ?case
  proof (cases "n < 10")
    case True
    then show ?thesis by (simp add: dec_u.simps)
  next
    case False
    with Suc.prems have "n div 10 < 10 ^ k" and "0 < k"
      by (auto intro: gr0I simp: less_mult_imp_div_less mult.commute)
    with Suc.IH have "length (dec_u (n div 10)) \<le> k" by blast
    with False show ?thesis by (simp add: dec_u.simps [of n])
  qed
qed

lemma length_dec_u_gt: "10 ^ k \<le> n \<Longrightarrow> k < length (dec_u n)"
proof (induction k arbitrary: n)
  case 0
  then show ?case by simp
next
  case (Suc k)
  have "(1::nat) \<le> 10 ^ k" by simp
  then have "\<not> n < 10" using Suc.prems unfolding power_Suc by linarith
  moreover have "10 ^ k \<le> n div 10"
    using Suc.prems by (simp add: less_eq_div_iff_mult_less_eq mult.commute)
  ultimately show ?case using Suc.IH [of "n div 10"] by (simp add: dec_u.simps [of n])
qed

lemma length_dec_s_int32: "length (dec_s (sint (w :: u32))) \<le> 11"
proof -
  have bnd: "- (2 ^ 31) \<le> sint w" "sint w < 2 ^ 31"
    using sint_ge [of w] sint_lt [of w] by simp_all
  then have "length (dec_u (nat (- sint w))) \<le> 10" if "sint w < 0"
    by (intro length_dec_u_le) (use that in auto)
  moreover have "length (dec_u (nat (sint w))) \<le> 10" if "\<not> sint w < 0"
    using bnd that by (intro length_dec_u_le) auto
  ultimately show ?thesis by (auto simp: dec_s_def)
qed

text \<open>The two lower-case digits of \<^verbatim>\<open>%02x\<close> for a byte.\<close>

definition hex_digit :: "nat \<Rightarrow> u8" where
  "hex_digit v = (if v < 10 then 48 + of_nat v else 87 + of_nat v)"

definition hex2 :: "u8 \<Rightarrow> cstr" where
  "hex2 b = [hex_digit (unat b div 16), hex_digit (unat b mod 16)]"

section \<open>Words and their values\<close>

text \<open>A finite check by evaluation, used for tables and digits.\<close>

lemma all_below: "list_all P [0..<n] \<Longrightarrow> v < n \<Longrightarrow> P v"
  by (simp add: list_all_iff)

lemma u8_less: "unat (b :: u8) < 256"
  using unsigned_less [of b] by simp

lemma unat_u8_of_nat: "n < 256 \<Longrightarrow> unat (of_nat n :: u8) = n"
  by (simp add: unsigned_of_nat take_bit_nat_eq_self)

lemma unat_u32_of_nat: "n < 2 ^ 32 \<Longrightarrow> unat (of_nat n :: u32) = n"
  by (simp add: unsigned_of_nat take_bit_nat_eq_self)

lemma unat_ucast_u32: "unat (ucast (b :: u8) :: u32) = unat b"
  using u8_less [of b] by (simp add: unsigned_ucast_eq take_bit_nat_def)

lemma high_nibble: "of_nat (unat b div 16) = drop_bit 4 (b :: u8)"
  using u8_less [of b]
  by (simp add: word_unat_eq_iff unsigned_drop_bit_eq drop_bit_nat_def unat_u8_of_nat take_bit_nat_def)

lemma low_nibble: "of_nat (unat b mod 16) = take_bit 4 (b :: u8)"
  by (simp add: word_unat_eq_iff unsigned_take_bit_eq take_bit_nat_def unsigned_of_nat)

lemma high_nibble_u32: "drop_bit 4 (ucast (b :: u8) :: u32) = of_nat (unat b div 16)"
  using u8_less [of b]
  by (simp add: word_unat_eq_iff unsigned_drop_bit_eq unat_ucast_u32 drop_bit_nat_def
      take_bit_nat_def unat_u32_of_nat)

lemma low_nibble_u32: "(ucast (b :: u8) :: u32) AND 0xF = of_nat (unat b mod 16)"
proof -
  have "(ucast b :: u32) AND 0xF = take_bit 4 (ucast b)"
    by (simp add: take_bit_eq_mask mask_numeral)
  then show ?thesis
    by (simp add: word_unat_eq_iff unsigned_take_bit_eq unat_ucast_u32 take_bit_nat_def unsigned_of_nat)
qed

text \<open>Two bytes are equal when their eight bits are.\<close>

lemma u8_eqI:
  assumes "bit x 0 = bit y 0" and "bit x 1 = bit y 1" and "bit x 2 = bit y 2" and "bit x 3 = bit y 3"
    and "bit x 4 = bit y 4" and "bit x 5 = bit y 5" and "bit x 6 = bit y 6" and "bit x 7 = bit y 7"
  shows "x = (y :: u8)"
proof (rule bit_word_eqI)
  fix n assume "n < LENGTH(8)"
  then have "n = 0 \<or> n = 1 \<or> n = 2 \<or> n = 3 \<or> n = 4 \<or> n = 5 \<or> n = 6 \<or> n = 7" by auto
  then show "bit x n = bit y n" using assms by (elim disjE) (simp_all only:)
qed

lemma nibbles_join: "push_bit 4 (drop_bit 4 b) OR take_bit 4 b = (b :: u8)"
  by (rule bit_word_eqI) (auto simp: bit_simps)

section \<open>Words as byte sequences\<close>

text \<open>
  \<open>le_bytes n w\<close>: the first \<open>n\<close> bytes of the object representation of \<open>w\<close> on a little-endian
  machine; \<open>le_word\<close> reads a word back from its representation.
\<close>

fun le_bytes :: "nat \<Rightarrow> 'a::len word \<Rightarrow> bytes" where
  "le_bytes 0 w = []"
| "le_bytes (Suc n) w = ucast w # le_bytes n (drop_bit 8 w)"

fun le_word :: "bytes \<Rightarrow> 'a::len word" where
  "le_word [] = 0"
| "le_word (b # bs) = ucast b OR push_bit 8 (le_word bs)"

definition be_bytes :: "nat \<Rightarrow> 'a::len word \<Rightarrow> bytes" where
  "be_bytes n w = rev (le_bytes n w)"

definition be_word :: "bytes \<Rightarrow> 'a::len word" where
  "be_word bs = le_word (rev bs)"

lemma length_le_bytes [simp]: "length (le_bytes n w) = n"
  by (induction n arbitrary: w) auto

lemma length_be_bytes [simp]: "length (be_bytes n w) = n"
  by (simp add: be_bytes_def)

lemma bit_le_bytes:
  "i < n \<Longrightarrow> bit (le_bytes n w ! i) k \<longleftrightarrow> k < 8 \<and> bit (w :: 'a::len word) (8 * i + k)"
proof (induction n arbitrary: w i)
  case 0
  then show ?case by simp
next
  case (Suc n)
  then show ?case
    by (cases i) (auto simp: bit_simps algebra_simps dest: bit_imp_le_length)
qed

lemma bit_le_word:
  "bit (le_word bs :: 'a::len word) k \<longleftrightarrow>
     k < LENGTH('a) \<and> k div 8 < length bs \<and> bit (bs ! (k div 8)) (k mod 8)"
proof (induction bs arbitrary: k)
  case Nil
  then show ?case by simp
next
  case (Cons b bs)
  show ?case
  proof (cases "k < 8")
    case True
    then show ?thesis by (auto simp: bit_simps)
  next
    case False
    then have "k div 8 = Suc ((k - 8) div 8)" "k mod 8 = (k - 8) mod 8"
      by (simp_all add: le_div_geq le_mod_geq)
    with False show ?thesis
      by (auto simp: bit_simps Cons.IH dest: bit_imp_le_length)
  qed
qed

lemma le_word_le_bytes:
  assumes "LENGTH('a) \<le> 8 * n"
  shows "le_word (le_bytes n w) = (w :: 'a::len word)"
proof (rule bit_word_eqI)
  fix k assume k: "k < LENGTH('a)"
  then have "k div 8 < n" using assms by (simp add: less_mult_imp_div_less mult.commute)
  then show "bit (le_word (le_bytes n w) :: 'a word) k = bit w k"
    using k by (simp add: bit_le_word bit_le_bytes)
qed

lemma be_word_be_bytes: "LENGTH('a) \<le> 8 * n \<Longrightarrow> be_word (be_bytes n w) = (w :: 'a::len word)"
  by (simp add: be_word_def be_bytes_def le_word_le_bytes)

lemma le_bytes_le_word:
  assumes "8 * n \<le> LENGTH('a)" and "length bs = n"
  shows "le_bytes n (le_word bs :: 'a::len word) = bs"
proof (rule nth_equalityI)
  show "length (le_bytes n (le_word bs :: 'a word)) = length bs" by (simp add: assms)
next
  fix i assume "i < length (le_bytes n (le_word bs :: 'a word))"
  then have i: "i < n" by simp
  show "le_bytes n (le_word bs :: 'a word) ! i = bs ! i"
  proof (rule bit_word_eqI)
    fix k assume "k < LENGTH(8)"
    with i assms show "bit (le_bytes n (le_word bs :: 'a word) ! i) k = bit (bs ! i) k"
      by (simp add: bit_le_word bit_le_bytes)
  qed
qed

end
