(* ===== verification/Cursor.thy ===== *)
theory Cursor
  imports Prelude
begin

unbundle bit_operations_syntax

text \<open>
  \<^verbatim>\<open>include/cursor.h\<close>: a cursor is a bounded region of memory \<open>[start, end)\<close> with a position
  \<open>p\<close>. Every function of the header is a definition here, with the name of the source (fields are
  prefixed, because \<open>end\<close> is a keyword). A function that writes through the cursor takes and
  returns the memory. The second half states the contract: every operation keeps
  \<open>start \<le> p \<le> end\<close>, writes only inside the region, and the bytes pushed so far
  (\<open>cursor_data\<close>) grow by exactly the bytes of a successful push. The locale \<open>byte_sink\<close> is the part
  of this contract the JSON writer relies on, and the cursor interprets it.
\<close>

section \<open>The structures\<close>

record cursor =
  c_start :: addr
  c_p :: addr
  c_end :: addr

record array =
  a_cur :: cursor
  elem_size :: nat

type_synonym cst = "cursor \<times> memory"

text \<open>
  Widths. A pointer plus an \<^verbatim>\<open>unsigned long\<close> is taken modulo \<open>2 ^ 64\<close>, and a product or sum of two
  \<^verbatim>\<open>int\<close>s is reduced to 32 bits with a sign (where C leaves the overflow undefined and the machine
  wraps). The other lengths are single \<^verbatim>\<open>int\<close> arguments added to a pointer. A C string is shorter than
  \<open>2 ^ 31\<close> bytes, so that its \<^verbatim>\<open>strlen\<close> is the same number as an \<^verbatim>\<open>int\<close>: the strings pushed are the
  program's own literals and numbers, and single arguments of a command line, which Linux limits to
  131072 bytes.
\<close>

definition ptr_add :: "addr \<Rightarrow> nat \<Rightarrow> addr" where
  "ptr_add p n = (p + int n) mod 2 ^ 64"

definition c_int :: "int \<Rightarrow> int" where
  "c_int x = sint (word_of_int x :: u32)"

section \<open>Position, allocation and reading\<close>

definition reset_cursor :: "cursor \<Rightarrow> cursor" where
  "reset_cursor c = c\<lparr>c_p := c_start c\<rparr>"

definition wipe_cursor :: "cst \<Rightarrow> cst" where
  "wipe_cursor s = (case s of (c, m) \<Rightarrow>
     let c' = reset_cursor c
     in (c', mem_set m (c_start c') 0 (size_of_int (c_end c' - c_start c'))))"

definition make_cursor :: "addr \<Rightarrow> addr \<Rightarrow> cursor" where
  "make_cursor st en = \<lparr>c_start = st, c_p = st, c_end = en\<rparr>"

definition make_array :: "addr \<Rightarrow> addr \<Rightarrow> nat \<Rightarrow> array" where
  "make_array st en es = \<lparr>a_cur = make_cursor st en, elem_size = es\<rparr>"

definition cursor_eof :: "cursor \<Rightarrow> bool" where
  "cursor_eof c \<longleftrightarrow> c_p c = c_end c"

definition cursor_malloc :: "nat \<Rightarrow> cursor \<Rightarrow> addr option \<times> cursor" where
  "cursor_malloc sz c =
     (if ptr_add (c_p c) sz > c_end c then (None, c)
      else (Some (c_p c), c\<lparr>c_p := ptr_add (c_p c) sz\<rparr>))"

definition cursor_alloc :: "nat \<Rightarrow> cst \<Rightarrow> addr option \<times> cst" where
  "cursor_alloc sz s = (case s of (c, m) \<Rightarrow>
     (case cursor_malloc sz c of
        (None, c') \<Rightarrow> (None, (c', m))
      | (Some ret, c') \<Rightarrow> (Some ret, (c', mem_set m ret 0 sz))))"

definition cursor_slice :: "nat \<Rightarrow> cst \<Rightarrow> cursor option \<times> cst" where
  "cursor_slice sz s =
     (case cursor_alloc sz s of
        (None, s') \<Rightarrow> (None, s')
      | (Some q, (c', m')) \<Rightarrow> (Some (make_cursor q (c_p c')), (c', m')))"

definition copy_cursor :: "cursor \<Rightarrow> cursor \<Rightarrow> cursor" where
  "copy_cursor src dest = dest\<lparr>c_start := c_start src, c_p := c_p src, c_end := c_end src\<rparr>"

definition pull_byte :: "cst \<Rightarrow> u8 option \<times> cst" where
  "pull_byte s = (case s of (c, m) \<Rightarrow>
     if c_p c + 1 > c_end c then (None, s)
     else (Some (m (c_p c)), (c\<lparr>c_p := c_p c + 1\<rparr>, m)))"

text \<open>
  The loop of \<open>cursor_pull_c_str\<close> runs from \<open>p\<close> towards \<open>end\<close>; on success \<open>p\<close> is past the NUL, on
  failure it is \<open>end\<close>. The string pointer handed back is the position at entry.
\<close>

function pull_c_str_loop :: "cst \<Rightarrow> bool \<times> cst" where
  "pull_c_str_loop (c, m) =
     (if c_p c < c_end c then
        if m (c_p c) = 0 then (True, (c\<lparr>c_p := c_p c + 1\<rparr>, m))
        else pull_c_str_loop (c\<lparr>c_p := c_p c + 1\<rparr>, m)
      else (False, (c, m)))"
  by pat_completeness auto
termination
  by (relation "measure (\<lambda>(c, m). nat (c_end c - c_p c))") auto

declare pull_c_str_loop.simps [simp del]

definition cursor_pull_c_str :: "cst \<Rightarrow> bool \<times> addr \<times> cst" where
  "cursor_pull_c_str s =
     (let str_p = c_p (fst s); (ok, s') = pull_c_str_loop s in (ok, str_p, s'))"

section \<open>Pushing, pulling and the stack operations\<close>

definition cursor_push_byte :: "u8 \<Rightarrow> cst \<Rightarrow> bool \<times> cst" where
  "cursor_push_byte b s = (case s of (c, m) \<Rightarrow>
     if c_p c + 1 > c_end c then (False, (c, m))
     else (True, (c\<lparr>c_p := c_p c + 1\<rparr>, mem_write m (c_p c) [b])))"

text \<open>
  The length arguments are C \<^verbatim>\<open>int\<close>s and reach \<^verbatim>\<open>memcpy\<close> as \<^verbatim>\<open>size_t\<close>.
  \<open>cursor_pull\<close> returns the bytes it copies into the caller's object.
\<close>

definition cursor_pull :: "int \<Rightarrow> cst \<Rightarrow> bytes option \<times> cst" where
  "cursor_pull len s = (case s of (c, m) \<Rightarrow>
     if c_p c + len > c_end c then (None, (c, m))
     else (Some (mem_read m (c_p c) (size_of_int len)), (c\<lparr>c_p := c_p c + len\<rparr>, m)))"

definition pull_data_into_cursor ::
  "int \<Rightarrow> cursor \<Rightarrow> cst \<Rightarrow> addr option \<times> cursor \<times> cst" where
  "pull_data_into_cursor len dest s =
     (if c_p dest + len > c_end dest then (None, dest, s)
      else case cursor_pull len s of
             (None, s') \<Rightarrow> (None, dest, s')
           | (Some bs, (c', m')) \<Rightarrow>
               (Some (c_p dest), dest\<lparr>c_p := c_p dest + len\<rparr>,
                (c', mem_write m' (c_p dest) bs)))"

definition cursor_dropn :: "int \<Rightarrow> int \<Rightarrow> cursor \<Rightarrow> bool \<times> cursor" where
  "cursor_dropn sz n c =
     (if n = 0 then (True, c)
      else if c_p c - c_int (sz * n) < c_start c then (False, c)
      else (True, c\<lparr>c_p := c_p c - c_int (sz * n)\<rparr>))"

definition cursor_drop :: "int \<Rightarrow> cursor \<Rightarrow> bool \<times> cursor" where
  "cursor_drop sz c = cursor_dropn sz 1 c"

definition cursor_topn :: "cursor \<Rightarrow> int \<Rightarrow> int \<Rightarrow> addr option" where
  "cursor_topn c len n =
     (let n' = c_int (n + 1)
      in if c_p c - c_int (len * n') < c_start c then None else Some (c_p c - c_int (len * n')))"

definition cursor_top :: "cursor \<Rightarrow> int \<Rightarrow> addr option" where
  "cursor_top c len = (if c_p c - len < c_start c then None else Some (c_p c - len))"

text \<open>
  An \<^verbatim>\<open>int\<close> object is four bytes and an \<^verbatim>\<open>unsigned short\<close> two, least significant
  first (config.h has HAVE_LITTLE_ENDIAN).
\<close>

definition cursor_top_int :: "cst \<Rightarrow> u32 option" where
  "cursor_top_int s = (case s of (c, m) \<Rightarrow>
     (case cursor_top c 4 of None \<Rightarrow> None | Some q \<Rightarrow> Some (le_word (mem_read m q 4))))"

definition cursor_pop :: "int \<Rightarrow> cst \<Rightarrow> bytes option \<times> cst" where
  "cursor_pop len s = (case s of (c, m) \<Rightarrow>
     if c_p c - len < c_start c then (None, (c, m))
     else let c' = c\<lparr>c_p := c_p c - len\<rparr>
          in (Some (mem_read m (c_p c') (size_of_int len)), (c', m)))"

text \<open>
  \<open>cursor_push\<close> copies \<open>len\<close> bytes of the object \<open>data\<close>, which holds at least \<open>len\<close> bytes. (The
  source skips the copy when \<open>data\<close> is the position itself: the bytes are then already there.) The
  test is \<^verbatim>\<open>>=\<close>, so a push never fills the last byte of the region.
\<close>

definition cursor_push :: "bytes \<Rightarrow> int \<Rightarrow> cst \<Rightarrow> bool \<times> cst" where
  "cursor_push data len s = (case s of (c, m) \<Rightarrow>
     if c_p c + len \<ge> c_end c then (False, (c, m))
     else (True, (c\<lparr>c_p := c_p c + len\<rparr>, mem_write m (c_p c) (take (size_of_int len) data))))"

definition cursor_push_int :: "u32 \<Rightarrow> cst \<Rightarrow> bool \<times> cst" where
  "cursor_push_int i = cursor_push (le_bytes 4 i) 4"

definition cursor_len :: "cursor \<Rightarrow> int" where
  "cursor_len c = c_p c - c_start c"

definition cursor_count :: "cursor \<Rightarrow> nat \<Rightarrow> nat" where
  "cursor_count c es = nat (cursor_len c) div es"

definition cursor_pull_int :: "cst \<Rightarrow> u32 option \<times> cst" where
  "cursor_pull_int s = (case cursor_pull 4 s of (r, s') \<Rightarrow> (map_option le_word r, s'))"

definition cursor_push_u16 :: "u16 \<Rightarrow> cst \<Rightarrow> bool \<times> cst" where
  "cursor_push_u16 i = cursor_push (le_bytes 2 i) 2"

text \<open>The product of an \<^verbatim>\<open>int\<close> and an \<^verbatim>\<open>unsigned int\<close> is unsigned and wraps.\<close>

definition index_cursor :: "cursor \<Rightarrow> u32 \<Rightarrow> u32 \<Rightarrow> addr option" where
  "index_cursor c index es =
     (let q = c_start c + uint (es * index) in if q \<ge> c_end c then None else Some q)"

definition push_sized_str :: "cstr \<Rightarrow> int \<Rightarrow> cst \<Rightarrow> bool \<times> cst" where
  "push_sized_str s len = cursor_push s len"

definition cursor_push_str :: "cstr \<Rightarrow> cst \<Rightarrow> bool \<times> cst" where
  "cursor_push_str s = cursor_push s (int (length s))"

definition cursor_push_c_str :: "cstr \<Rightarrow> cst \<Rightarrow> bool \<times> cst" where
  "cursor_push_c_str s = and_then (cursor_push_str s) (cursor_push_byte 0)"

definition cursor_remaining_capacity :: "cursor \<Rightarrow> int" where
  "cursor_remaining_capacity c = c_end c - c_p c"

text \<open>The debugging dump: the text it prints.\<close>

definition cursor_print_around :: "cst \<Rightarrow> int \<Rightarrow> cstr" where
  "cursor_print_around s rng = (case s of (c, m) \<Rightarrow>
     let from = (if c_p c - rng > c_start c then c_p c - rng else c_start c);
         addrs = filter (\<lambda>a. a < c_p c + rng) [from..c_end c - 1]
     in str ''['' @ dec_s (c_p c - c_start c) @ str ''/'' @ dec_s (c_end c - c_start c) @ str '']'' @ [10]
        @ concat (map (\<lambda>a. hex2 (m a)) addrs) @ [10]
        @ concat (map (\<lambda>a. if a = c_p c then str ''^'' else str ''  '') addrs) @ [10])"

section \<open>The contract of a cursor\<close>

text \<open>
  A well-formed cursor: the position lies in the region, and the region is no larger than an
  object can be (PTRDIFF_MAX).
\<close>

definition cursor_wf :: "cursor \<Rightarrow> bool" where
  "cursor_wf c \<longleftrightarrow> c_start c \<le> c_p c \<and> c_p c \<le> c_end c \<and> c_end c - c_start c < 2 ^ 63"

definition cursor_inv :: "cst \<Rightarrow> bool" where
  "cursor_inv s = cursor_wf (fst s)"

text \<open>The bytes between \<open>start\<close> and \<open>p\<close>, and the bytes left up to \<open>end\<close>.\<close>

definition cursor_data :: "cst \<Rightarrow> bytes" where
  "cursor_data s = mem_read (snd s) (c_start (fst s)) (nat (c_p (fst s) - c_start (fst s)))"

definition cursor_room :: "cst \<Rightarrow> nat" where
  "cursor_room s = nat (c_end (fst s) - c_p (fst s))"

text \<open>
  The frame of an operation: same region, the position does not move back, and memory changes only
  between the old position and the end of the region.
\<close>

definition cursor_frame :: "cst \<Rightarrow> cst \<Rightarrow> bool" where
  "cursor_frame s s' \<longleftrightarrow>
     c_start (fst s') = c_start (fst s) \<and> c_end (fst s') = c_end (fst s) \<and>
     c_p (fst s) \<le> c_p (fst s') \<and>
     (\<forall>a. a < c_p (fst s) \<or> c_end (fst s) \<le> a \<longrightarrow> snd s' a = snd s a)"

text \<open>The pieces a writer hands to a sink, in the order of the calls.\<close>

datatype piece = PByte u8 | PStr bytes

fun piece_bytes :: "piece \<Rightarrow> bytes" where
  "piece_bytes (PByte b) = [b]"
| "piece_bytes (PStr xs) = xs"

definition pieces_bytes :: "piece list \<Rightarrow> bytes" where
  "pieces_bytes ps = concat (map piece_bytes ps)"

fun push_piece ::
  "(u8 \<Rightarrow> 's \<Rightarrow> bool \<times> 's) \<Rightarrow> (bytes \<Rightarrow> 's \<Rightarrow> bool \<times> 's) \<Rightarrow> piece \<Rightarrow> 's \<Rightarrow> bool \<times> 's" where
  "push_piece pb ps (PByte b) = pb b"
| "push_piece pb ps (PStr xs) = ps xs"

text \<open>
  When a sequence of pieces goes through: a byte needs one byte of room, a string needs strictly
  more room than its length.
\<close>

fun fits :: "nat \<Rightarrow> piece list \<Rightarrow> bool" where
  "fits r [] = True"
| "fits r (PByte b # ps) = (1 \<le> r \<and> fits (r - 1) ps)"
| "fits r (PStr xs # ps) = (length xs < r \<and> fits (r - length xs) ps)"

lemma pieces_bytes_simps [simp]:
  "pieces_bytes [] = []"
  "pieces_bytes (PByte b # ps) = b # pieces_bytes ps"
  "pieces_bytes (PStr xs # ps) = xs @ pieces_bytes ps"
  "pieces_bytes (ps @ qs) = pieces_bytes ps @ pieces_bytes qs"
  by (simp_all add: pieces_bytes_def)

lemma fits_if_room: "length (pieces_bytes ps) < r \<Longrightarrow> fits r ps"
  by (induction r ps rule: fits.induct) auto

lemma fits_imp_le: "fits r ps \<Longrightarrow> length (pieces_bytes ps) \<le> r"
  by (induction r ps rule: fits.induct) auto

lemma fits_append: "fits r (ps @ qs) \<longleftrightarrow> fits r ps \<and> fits (r - length (pieces_bytes ps)) qs"
  by (induction r ps rule: fits.induct) (auto simp: diff_diff_eq)

lemma fits_snoc_str:
  "fits r (ps @ [PStr xs]) \<longleftrightarrow> length (pieces_bytes ps) + length xs < r"
proof
  assume "fits r (ps @ [PStr xs])"
  then have "fits r ps" "length xs < r - length (pieces_bytes ps)" by (auto simp: fits_append)
  then show "length (pieces_bytes ps) + length xs < r" by linarith
next
  assume "length (pieces_bytes ps) + length xs < r"
  then show "fits r (ps @ [PStr xs])" by (intro fits_if_room) simp
qed

text \<open>The interface the JSON writer uses: a bounded sink for bytes.\<close>

locale byte_sink =
  fixes push_byte :: "u8 \<Rightarrow> 's \<Rightarrow> bool \<times> 's"
    and push_str :: "bytes \<Rightarrow> 's \<Rightarrow> bool \<times> 's"
    and data :: "'s \<Rightarrow> bytes"
    and room :: "'s \<Rightarrow> nat"
    and inv :: "'s \<Rightarrow> bool"
    and frame :: "'s \<Rightarrow> 's \<Rightarrow> bool"
  assumes byte_ok: "inv s \<Longrightarrow> 1 \<le> room s \<Longrightarrow>
      \<exists>s'. push_byte b s = (True, s') \<and> inv s' \<and> frame s s' \<and>
           data s' = data s @ [b] \<and> room s' = room s - 1"
    and byte_full: "inv s \<Longrightarrow> room s = 0 \<Longrightarrow> push_byte b s = (False, s)"
    and str_ok: "inv s \<Longrightarrow> length xs < room s \<Longrightarrow>
      \<exists>s'. push_str xs s = (True, s') \<and> inv s' \<and> frame s s' \<and>
           data s' = data s @ xs \<and> room s' = room s - length xs"
    and str_full: "inv s \<Longrightarrow> room s \<le> length xs \<Longrightarrow> push_str xs s = (False, s)"
    and frame_refl: "frame s s"
    and frame_trans: "frame s s' \<Longrightarrow> frame s' s'' \<Longrightarrow> frame s s''"
begin

lemma piece_ok:
  assumes "inv s" and "fits (room s) [p]"
  shows "\<exists>s'. push_piece push_byte push_str p s = (True, s') \<and> inv s' \<and> frame s s' \<and>
              data s' = data s @ piece_bytes p \<and> room s' = room s - length (piece_bytes p)"
  using assms byte_ok str_ok by (cases p) auto

lemma piece_full:
  assumes "inv s" and "\<not> fits (room s) [p]"
  shows "push_piece push_byte push_str p s = (False, s)"
  using assms by (cases p) (auto simp: byte_full str_full)

lemma pieces_ok:
  "inv s \<Longrightarrow> fits (room s) ps \<Longrightarrow>
   \<exists>s'. and_all (map (push_piece push_byte push_str) ps) s = (True, s') \<and> inv s' \<and> frame s s' \<and>
        data s' = data s @ pieces_bytes ps \<and> room s' = room s - length (pieces_bytes ps)"
proof (induction ps arbitrary: s)
  case Nil
  then show ?case by (simp add: frame_refl)
next
  case (Cons p ps)
  have f: "fits (room s) [p]" "fits (room s - length (piece_bytes p)) ps"
    using Cons.prems(2) fits_append [of "room s" "[p]" ps] by (simp_all add: pieces_bytes_def)
  from piece_ok [OF Cons.prems(1) f(1)] obtain s1 where
    s1: "push_piece push_byte push_str p s = (True, s1)" "inv s1" "frame s s1"
        "data s1 = data s @ piece_bytes p" "room s1 = room s - length (piece_bytes p)" by auto
  from Cons.IH [OF s1(2)] f(2) s1(5) obtain s2 where
    "and_all (map (push_piece push_byte push_str) ps) s1 = (True, s2)" "inv s2" "frame s1 s2"
    "data s2 = data s1 @ pieces_bytes ps" "room s2 = room s1 - length (pieces_bytes ps)" by auto
  with s1 show ?case by (auto simp: pieces_bytes_def intro: frame_trans)
qed

lemma pieces_full:
  "inv s \<Longrightarrow> \<not> fits (room s) ps \<Longrightarrow>
   \<exists>s'. and_all (map (push_piece push_byte push_str) ps) s = (False, s') \<and> inv s' \<and> frame s s'"
proof (induction ps arbitrary: s)
  case Nil
  then show ?case by simp
next
  case (Cons p ps)
  show ?case
  proof (cases "fits (room s) [p]")
    case False
    with piece_full [OF Cons.prems(1)] Cons.prems(1) show ?thesis by (auto simp: frame_refl)
  next
    case True
    with piece_ok [OF Cons.prems(1)] obtain s1 where
      s1: "push_piece push_byte push_str p s = (True, s1)" "inv s1" "frame s s1"
          "room s1 = room s - length (piece_bytes p)" by auto
    moreover have "\<not> fits (room s1) ps"
      using Cons.prems(2) True s1(4) fits_append [of "room s" "[p]" ps]
      by (simp add: pieces_bytes_def)
    ultimately show ?thesis using Cons.IH [of s1] by (auto intro: frame_trans)
  qed
qed

lemma pieces_iff:
  "inv s \<Longrightarrow> fst (and_all (map (push_piece push_byte push_str) ps) s) \<longleftrightarrow> fits (room s) ps"
  using pieces_ok [of s ps] pieces_full [of s ps] by (cases "fits (room s) ps") auto

end

section \<open>The cursor is a byte sink\<close>

lemmas [cursor_simps] =
  cursor_wf_def cursor_inv_def cursor_data_def cursor_room_def cursor_frame_def

lemma cursor_push_byte_ok:
  assumes "cursor_inv s" and "1 \<le> cursor_room s"
  shows "\<exists>s'. cursor_push_byte b s = (True, s') \<and> cursor_inv s' \<and> cursor_frame s s' \<and>
              cursor_data s' = cursor_data s @ [b] \<and> cursor_room s' = cursor_room s - 1"
proof -
  obtain c m where s: "s = (c, m)" by (cases s)
  have "mem_read (mem_write m (c_p c) [b]) (c_start c) (nat (c_p c + 1 - c_start c))
        = mem_read m (c_start c) (nat (c_p c - c_start c)) @ [b]"
    using assms by (intro mem_read_write_append) (auto simp: s cursor_simps)
  with assms show ?thesis by (auto simp: s cursor_push_byte_def cursor_simps mem_write_def)
qed

lemma cursor_push_ok:
  assumes "cursor_inv s" and "0 \<le> len" and "len < int (cursor_room s)"
    and "nat len \<le> length xs"
  shows "\<exists>s'. cursor_push xs len s = (True, s') \<and> cursor_inv s' \<and> cursor_frame s s' \<and>
              cursor_data s' = cursor_data s @ take (nat len) xs \<and>
              cursor_room s' = cursor_room s - nat len"
proof -
  obtain c m where s: "s = (c, m)" by (cases s)
  have len: "size_of_int len = nat len"
    using assms by (intro size_of_int_pos) (auto simp: s cursor_simps)
  have "mem_read (mem_write m (c_p c) (take (nat len) xs)) (c_start c) (nat (c_p c + len - c_start c))
        = mem_read m (c_start c) (nat (c_p c - c_start c)) @ take (nat len) xs"
    using assms by (intro mem_read_write_append) (auto simp: s cursor_simps)
  with assms len show ?thesis
    by (auto simp: s cursor_push_def cursor_simps mem_write_def nat_diff_distrib)
qed

lemma cursor_push_str_ok:
  assumes "cursor_inv s" and "length xs < cursor_room s"
  shows "\<exists>s'. cursor_push_str xs s = (True, s') \<and> cursor_inv s' \<and> cursor_frame s s' \<and>
              cursor_data s' = cursor_data s @ xs \<and> cursor_room s' = cursor_room s - length xs"
  using cursor_push_ok [OF assms(1), of "int (length xs)" xs] assms(2)
  by (simp add: cursor_push_str_def)

interpretation cursor_sink: byte_sink cursor_push_byte cursor_push_str
  cursor_data cursor_room cursor_inv cursor_frame
proof unfold_locales
  fix s :: cst and b :: u8 and xs :: bytes
  show "cursor_inv s \<Longrightarrow> 1 \<le> cursor_room s \<Longrightarrow>
      \<exists>s'. cursor_push_byte b s = (True, s') \<and> cursor_inv s' \<and> cursor_frame s s' \<and>
           cursor_data s' = cursor_data s @ [b] \<and> cursor_room s' = cursor_room s - 1"
    by (rule cursor_push_byte_ok)
  show "cursor_inv s \<Longrightarrow> length xs < cursor_room s \<Longrightarrow>
      \<exists>s'. cursor_push_str xs s = (True, s') \<and> cursor_inv s' \<and> cursor_frame s s' \<and>
           cursor_data s' = cursor_data s @ xs \<and> cursor_room s' = cursor_room s - length xs"
    by (rule cursor_push_str_ok)
  show "cursor_inv s \<Longrightarrow> cursor_room s = 0 \<Longrightarrow> cursor_push_byte b s = (False, s)"
    by (cases s) (auto simp: cursor_push_byte_def cursor_simps)
  show "cursor_inv s \<Longrightarrow> cursor_room s \<le> length xs \<Longrightarrow> cursor_push_str xs s = (False, s)"
    by (cases s) (auto simp: cursor_push_str_def cursor_push_def cursor_simps)
next
  fix s s' s'' :: cst
  show "cursor_frame s s" by (simp add: cursor_frame_def)
  show "cursor_frame s s' \<Longrightarrow> cursor_frame s' s'' \<Longrightarrow> cursor_frame s s''"
    by (auto simp: cursor_frame_def)
qed

lemma make_cursor_inv:
  "st \<le> en \<Longrightarrow> en - st < 2 ^ 63 \<Longrightarrow> cursor_inv (make_cursor st en, m)"
  by (simp add: make_cursor_def cursor_simps)

lemma make_cursor_data [simp]: "cursor_data (make_cursor st en, m) = []"
  by (simp add: make_cursor_def cursor_simps)

lemma make_cursor_room [simp]: "cursor_room (make_cursor st en, m) = nat (en - st)"
  by (simp add: make_cursor_def cursor_simps)

lemma length_cursor_data: "cursor_inv s \<Longrightarrow> int (length (cursor_data s)) = cursor_len (fst s)"
  by (simp add: cursor_simps cursor_len_def)

section \<open>The cursor as a state machine\<close>

text \<open>
  One rule per operation of the header that moves a cursor or writes memory through it, for the calls
  the header is made for (\<open>pull_data_into_cursor\<close>, which moves two cursors, has a lemma of its own): a length is a non-negative \<^verbatim>\<open>int\<close>, a pushed object holds at least the bytes the
  caller names (a \<^verbatim>\<open>sizeof\<close> or a \<^verbatim>\<open>strlen\<close>), an allocation does not carry the pointer past the end of
  the address space, and the product of a drop is an \<^verbatim>\<open>int\<close>. The header tests none of this; the lemmas
  after the steps show what a call outside these bounds does.
\<close>

definition addressable :: "nat \<Rightarrow> cursor \<Rightarrow> bool" where
  "addressable n c \<longleftrightarrow> 0 \<le> c_p c \<and> c_p c + int n < 2 ^ 64"

definition int_len :: "int \<Rightarrow> bool" where
  "int_len len \<longleftrightarrow> 0 \<le> len \<and> len < 2 ^ 31"

inductive cursor_step :: "cst \<Rightarrow> cst \<Rightarrow> bool" where
  reset: "cursor_step (c, m) (reset_cursor c, m)"
| wipe: "cursor_step s (wipe_cursor s)"
| malloc: "addressable n c \<Longrightarrow> cursor_malloc n c = (r, c') \<Longrightarrow> cursor_step (c, m) (c', m)"
| alloc: "addressable n (fst s) \<Longrightarrow> cursor_alloc n s = (r, s') \<Longrightarrow> cursor_step s s'"
| slice: "addressable n (fst s) \<Longrightarrow> cursor_slice n s = (r, s') \<Longrightarrow> cursor_step s s'"
| pull_byte: "pull_byte s = (r, s') \<Longrightarrow> cursor_step s s'"
| pull_c_str: "cursor_pull_c_str s = (ok, a, s') \<Longrightarrow> cursor_step s s'"
| push_byte: "cursor_push_byte b s = (ok, s') \<Longrightarrow> cursor_step s s'"
| pull: "int_len len \<Longrightarrow> cursor_pull len s = (r, s') \<Longrightarrow> cursor_step s s'"
| dropn: "int_len (sz * n) \<Longrightarrow> cursor_dropn sz n c = (ok, c') \<Longrightarrow> cursor_step (c, m) (c', m)"
| pop: "int_len len \<Longrightarrow> cursor_pop len s = (r, s') \<Longrightarrow> cursor_step s s'"
| push: "int_len len \<Longrightarrow> nat len \<le> length xs \<Longrightarrow> cursor_push xs len s = (ok, s') \<Longrightarrow>
     cursor_step s s'"
| push_int: "cursor_push_int i s = (ok, s') \<Longrightarrow> cursor_step s s'"
| push_u16: "cursor_push_u16 h s = (ok, s') \<Longrightarrow> cursor_step s s'"
| push_str: "length xs < 2 ^ 31 \<Longrightarrow> cursor_push_str xs s = (ok, s') \<Longrightarrow> cursor_step s s'"
| push_c_str: "length xs < 2 ^ 31 \<Longrightarrow> cursor_push_c_str xs s = (ok, s') \<Longrightarrow> cursor_step s s'"

inductive cursor_run :: "cst \<Rightarrow> cst \<Rightarrow> bool" where
  stop: "cursor_run s s"
| more: "cursor_run s t \<Longrightarrow> cursor_step t u \<Longrightarrow> cursor_run s u"

text \<open>What a step may change: the position inside the region, and memory inside the region.\<close>

definition cursor_confined :: "cst \<Rightarrow> cst \<Rightarrow> bool" where
  "cursor_confined s s' \<longleftrightarrow>
     cursor_inv s' \<and> c_start (fst s') = c_start (fst s) \<and> c_end (fst s') = c_end (fst s) \<and>
     (\<forall>a. a < c_start (fst s) \<or> c_end (fst s) \<le> a \<longrightarrow> snd s' a = snd s a)"

lemma confined_refl: "cursor_inv s \<Longrightarrow> cursor_confined s s"
  by (simp add: cursor_confined_def)

lemma confined_trans: "cursor_confined s t \<Longrightarrow> cursor_confined t u \<Longrightarrow> cursor_confined s u"
  by (auto simp: cursor_confined_def)

lemma frame_confined: "cursor_inv s \<Longrightarrow> cursor_inv s' \<Longrightarrow> cursor_frame s s' \<Longrightarrow> cursor_confined s s'"
  by (auto simp: cursor_confined_def cursor_simps)

lemma push_byte_confined:
  assumes "cursor_inv s" and "cursor_push_byte b s = (ok, s')"
  shows "cursor_confined s s'"
proof (cases "1 \<le> cursor_room s")
  case True
  with cursor_sink.byte_ok [OF assms(1)] assms show ?thesis by (metis frame_confined snd_conv)
next
  case False
  then have "s' = s" using cursor_sink.byte_full [OF assms(1), of b] assms(2) by simp
  then show ?thesis using assms(1) by (simp add: confined_refl)
qed

lemma push_confined:
  assumes "cursor_inv s" and "0 \<le> len" and "nat len \<le> length xs" and "cursor_push xs len s = (ok, s')"
  shows "cursor_confined s s'"
proof (cases "len < int (cursor_room s)")
  case True
  with cursor_push_ok [OF assms(1,2)] assms show ?thesis by (metis frame_confined snd_conv)
next
  case False
  then have "s' = s" using assms by (cases s) (auto simp: cursor_push_def cursor_simps)
  then show ?thesis using assms(1) by (simp add: confined_refl)
qed

lemma pull_c_str_confined:
  "pull_c_str_loop s = (ok, s') \<Longrightarrow> cursor_inv s \<Longrightarrow> cursor_confined s s'"
proof (induction s rule: pull_c_str_loop.induct)
  case (1 c m)
  show ?case
  proof (cases "c_p c < c_end c \<and> m (c_p c) \<noteq> 0")
    case True
    let ?s = "(c\<lparr>c_p := c_p c + 1\<rparr>, m)"
    from True 1(2,3) have "pull_c_str_loop ?s = (ok, s')" "cursor_inv ?s"
      by (auto simp: pull_c_str_loop.simps [of c m] cursor_simps)
    with 1(1) True have "cursor_confined ?s s'" by blast
    then show ?thesis by (auto simp: cursor_confined_def)
  next
    case False
    with 1(2,3) show ?thesis
      by (auto simp: pull_c_str_loop.simps [of c m] cursor_confined_def cursor_simps split: if_splits)
  qed
qed

lemma mem_set_other: "a < b \<or> b + int n \<le> a \<Longrightarrow> mem_set m b v n a = m a"
  by (auto simp: mem_set_def mem_write_def)

lemma wipe_confined: "cursor_inv s \<Longrightarrow> cursor_confined s (wipe_cursor s)"
  by (cases s) (auto simp: wipe_cursor_def reset_cursor_def cursor_confined_def Let_def
      size_of_int_pos mem_set_other cursor_simps)

lemma ptr_add_addressable: "addressable n c \<Longrightarrow> ptr_add (c_p c) n = c_p c + int n"
  by (simp add: addressable_def ptr_add_def)

lemma c_int_id: "- (2 ^ 31) \<le> x \<Longrightarrow> x < 2 ^ 31 \<Longrightarrow> c_int x = x"
  by (simp add: c_int_def sint_sbintrunc' signed_take_bit_int_eq_self)

lemma malloc_confined:
  "cursor_inv (c, m) \<Longrightarrow> addressable n c \<Longrightarrow> cursor_malloc n c = (r, c') \<Longrightarrow> cursor_confined (c, m) (c', m)"
  by (auto simp: cursor_malloc_def ptr_add_addressable cursor_confined_def cursor_simps split: if_splits)

lemma alloc_confined:
  "cursor_inv s \<Longrightarrow> addressable n (fst s) \<Longrightarrow> cursor_alloc n s = (r, s') \<Longrightarrow> cursor_confined s s'"
  by (cases s) (auto simp: cursor_alloc_def cursor_malloc_def ptr_add_addressable cursor_confined_def mem_set_other
      cursor_simps split: if_splits)

lemma slice_confined:
  "cursor_inv s \<Longrightarrow> addressable n (fst s) \<Longrightarrow> cursor_slice n s = (r, s') \<Longrightarrow> cursor_confined s s'"
  by (auto simp: cursor_slice_def dest: alloc_confined split: prod.splits option.splits)

lemma pull_byte_confined: "cursor_inv s \<Longrightarrow> pull_byte s = (r, s') \<Longrightarrow> cursor_confined s s'"
  by (cases s) (auto simp: pull_byte_def cursor_confined_def cursor_simps split: if_splits)

lemma pull_confined:
  "cursor_inv s \<Longrightarrow> int_len len \<Longrightarrow> cursor_pull len s = (r, s') \<Longrightarrow> cursor_confined s s'"
  by (cases s) (auto simp: int_len_def cursor_pull_def cursor_confined_def cursor_simps split: if_splits)

lemma pull_data_confined:
  assumes "cursor_wf c" and "cursor_wf dest" and len: "int_len len"
    and r: "pull_data_into_cursor len dest (c, m) = (r, dest', (c', m'))"
  shows "cursor_wf c' \<and> c_start c' = c_start c \<and> c_end c' = c_end c \<and>
         cursor_wf dest' \<and> c_start dest' = c_start dest \<and> c_end dest' = c_end dest \<and>
         (\<forall>a. a < c_p dest \<or> c_end dest \<le> a \<longrightarrow> m' a = m a)"
proof -
  have "size_of_int len = nat len" using len by (simp add: int_len_def size_of_int_pos)
  with assms show ?thesis
    by (auto simp: pull_data_into_cursor_def cursor_pull_def int_len_def cursor_wf_def mem_write_def split: if_splits)
qed

lemma dropn_confined:
  "cursor_inv (c, m) \<Longrightarrow> int_len (sz * n) \<Longrightarrow> cursor_dropn sz n c = (ok, c') \<Longrightarrow>
   cursor_confined (c, m) (c', m)"
  by (auto simp: int_len_def cursor_dropn_def c_int_id cursor_confined_def cursor_simps
      intro: order_trans [of _ "c_p c"] split: if_splits)

lemma pop_confined:
  "cursor_inv s \<Longrightarrow> int_len len \<Longrightarrow> cursor_pop len s = (r, s') \<Longrightarrow> cursor_confined s s'"
  by (cases s) (auto simp: int_len_def cursor_pop_def cursor_confined_def cursor_simps Let_def split: if_splits)

lemma push_c_str_confined:
  assumes "cursor_inv s" and "cursor_push_c_str xs s = (ok, s')"
  shows "cursor_confined s s'"
proof -
  obtain ok1 s1 where s1: "cursor_push_str xs s = (ok1, s1)" by (cases "cursor_push_str xs s")
  then have c1: "cursor_confined s s1"
    using push_confined [OF assms(1), of "int (length xs)" xs] by (simp add: cursor_push_str_def)
  then have "cursor_inv s1" by (simp add: cursor_confined_def)
  with s1 assms(2) c1 show ?thesis
    by (auto simp: cursor_push_c_str_def and_then_def split: if_splits
        intro: confined_trans dest: push_byte_confined)
qed

lemmas cursor_op_confined =
  push_byte_confined push_confined wipe_confined malloc_confined alloc_confined slice_confined
  pull_byte_confined pull_confined dropn_confined pop_confined push_c_str_confined

lemma cursor_step_confined: "cursor_step s s' \<Longrightarrow> cursor_inv s \<Longrightarrow> cursor_confined s s'"
proof (induction rule: cursor_step.induct)
  case (reset c m)
  then show ?case by (auto simp: reset_cursor_def cursor_confined_def cursor_simps)
next
  case (pull_c_str s ok a s')
  then show ?case
    by (auto simp: cursor_pull_c_str_def split: prod.splits intro: pull_c_str_confined)
next
  case (push_int i s ok s')
  then show ?case using push_confined [of s 4 "le_bytes 4 i"] by (simp add: cursor_push_int_def)
next
  case (push_u16 h s ok s')
  then show ?case using push_confined [of s 2 "le_bytes 2 h"] by (simp add: cursor_push_u16_def)
next
  case (push_str xs s ok s')
  then show ?case using push_confined [of s "int (length xs)" xs] by (simp add: cursor_push_str_def)
next
  case (push len xs s ok s')
  then show ?case by (intro push_confined [of s len xs ok]) (simp_all add: int_len_def)
qed (blast intro: cursor_op_confined)+

lemma cursor_run_confined: "cursor_run s s' \<Longrightarrow> cursor_inv s \<Longrightarrow> cursor_confined s s'"
proof (induction rule: cursor_run.induct)
  case (more s t u)
  then show ?case
    by (metis confined_trans cursor_confined_def cursor_step_confined)
qed (simp add: confined_refl)

text \<open>
  Outside the bounds of the steps the region is left: a negative length moves the position of a pull
  before the start, an allocation of nearly the whole address space wraps around and hands out the
  position while moving it back, and a drop whose product is a multiple of \<open>2 ^ 32\<close> reports success and
  drops nothing.
\<close>

lemma cursor_pull_negative:
  "st \<le> en \<Longrightarrow> fst (cursor_pull (- 1) (make_cursor st en, m)) \<noteq> None \<and>
   c_p (fst (snd (cursor_pull (- 1) (make_cursor st en, m)))) = st - 1"
  by (simp add: cursor_pull_def make_cursor_def)

lemma cursor_malloc_wraps:
  "0 < st \<Longrightarrow> st \<le> en \<Longrightarrow> en < 2 ^ 64 \<Longrightarrow>
   cursor_malloc (2 ^ 64 - 1) (make_cursor st en) = (Some st, \<lparr>c_start = st, c_p = st - 1, c_end = en\<rparr>)"
proof -
  assume st: "0 < st" "st \<le> en" "en < 2 ^ 64"
  have "ptr_add st (2 ^ 64 - 1) = (st - 1 + 2 ^ 64) mod 2 ^ 64" by (simp add: ptr_add_def add.commute)
  also have "\<dots> = st - 1" using st by (simp only: mod_add_self2) simp
  finally show ?thesis using st by (simp add: cursor_malloc_def make_cursor_def)
qed

lemma cursor_dropn_wraps: "cursor_dropn 65536 65536 c = (c_start c \<le> c_p c, c)"
  by (simp add: cursor_dropn_def c_int_def)

section \<open>Properties\<close>

text \<open>
  C35. Memory safety of the cursor layer: starting from a freshly made cursor over \<open>[st, en)\<close>, no
  sequence of operations on it moves the position out of the region or changes a byte of memory
  outside it, as long as every length is a non-negative \<^verbatim>\<open>int\<close> and no pushed object is shorter than the
  length given for it, no allocation wraps around the address space and the product of a drop does not
  overflow. The bounds are needed: the lemmas above leave the region without them.
\<close>

theorem cursor_ops_confined:
  assumes "st \<le> en" and "en - st < 2 ^ 63" and "cursor_run (make_cursor st en, m) (c, m')"
  shows "st \<le> c_p c \<and> c_p c \<le> en \<and> c_start c = st \<and> c_end c = en \<and>
         (\<forall>a. a < st \<or> en \<le> a \<longrightarrow> m' a = m a)"
  using cursor_run_confined [OF assms(3) make_cursor_inv [OF assms(1,2)]]
  by (auto simp: cursor_confined_def make_cursor_def cursor_simps)

lemma push_byte_run: "cursor_run s (snd (cursor_push_byte b s))"
  by (rule cursor_run.more [OF cursor_run.stop], rule cursor_step.push_byte, rule surjective_pairing)

theorem cursor_ops_confined_witness:
  "snd (snd (cursor_push_byte 7 (make_cursor 10 12, (\<lambda>_. 0)))) 10 = 7 \<and>
   snd (snd (cursor_push_byte 7 (make_cursor 10 12, (\<lambda>_. 0)))) 12 = 0"
proof -
  let ?s = "(make_cursor 10 12, (\<lambda>_. 0)) :: cst"
  have "cursor_run ?s (fst (snd (cursor_push_byte 7 ?s)), snd (snd (cursor_push_byte 7 ?s)))"
    using push_byte_run [of ?s 7] by simp
  from cursor_ops_confined [OF _ _ this] have "snd (snd (cursor_push_byte 7 ?s)) 12 = 0" by simp
  then show ?thesis by (simp add: cursor_push_byte_def make_cursor_def mem_write_def)
qed

lemma pushed_on_top:
  assumes "cursor_inv s" and "cursor_push xs (int (length xs)) s = (True, s')"
  shows "c_p (fst s') = c_p (fst s) + int (length xs) \<and>
         c_start (fst s') = c_start (fst s) \<and>
         mem_read (snd s') (c_p (fst s)) (length xs) = xs"
proof -
  obtain c m where s: "s = (c, m)" by (cases s)
  have "size_of_int (int (length xs)) = length xs"
    using assms by (intro size_of_int_nat) (auto simp: s cursor_push_def cursor_simps split: if_splits)
  with assms show ?thesis by (auto simp: s cursor_push_def split: if_splits)
qed

text \<open>
  The stack discipline of the cursor: an integer pushed with \<open>cursor_push_int\<close> is what
  \<open>cursor_top_int\<close> reads, and popping its four bytes returns its representation and puts the
  position back where it was.
\<close>

theorem cursor_push_int_top_pop:
  assumes "cursor_inv s" and "cursor_push_int i s = (True, s')"
  shows "cursor_top_int s' = Some i \<and>
         cursor_pop 4 s' = (Some (le_bytes 4 i), (fst s, snd s'))"
proof -
  have len: "length (le_bytes 4 i) = 4" by simp
  have top: "c_p (fst s') = c_p (fst s) + 4" "c_start (fst s') = c_start (fst s)"
    "mem_read (snd s') (c_p (fst s)) 4 = le_bytes 4 i"
    using pushed_on_top [OF assms(1), of "le_bytes 4 i" s'] assms(2)
    unfolding cursor_push_int_def len by auto
  have c: "fst s' = (fst s)\<lparr>c_p := c_p (fst s) + 4\<rparr>"
    using assms(2) by (cases s) (auto simp: cursor_push_int_def cursor_push_def split: if_splits)
  have "le_word (le_bytes 4 i) = i" by (rule le_word_le_bytes) simp
  with top c assms(1) show ?thesis
    by (cases s') (auto simp: cursor_top_int_def cursor_top_def cursor_pop_def Let_def size_of_int_def
        cursor_simps split: option.splits)
qed

theorem cursor_push_int_top_pop_witness:
  "cursor_top_int (snd (cursor_push_int 258 (make_cursor 0 16, (\<lambda>_. 0)))) = Some 258"
proof -
  let ?s = "(make_cursor 0 16, (\<lambda>_. 0)) :: cst"
  have "cursor_inv ?s" by (rule make_cursor_inv) simp_all
  moreover have "cursor_push_int 258 ?s = (True, snd (cursor_push_int 258 ?s))"
    by (simp add: cursor_push_int_def cursor_push_def make_cursor_def)
  ultimately show ?thesis using cursor_push_int_top_pop by blast
qed

text \<open>
  The boundary of \<open>cursor_push\<close>: it succeeds exactly when the data is strictly smaller than the
  remaining capacity, so a push that would exactly fill the region is refused although
  \<open>cursor_push_byte\<close> accepts the last byte.
\<close>

theorem cursor_push_strict:
  assumes "cursor_inv s"
  shows "(fst (cursor_push_str xs s) \<longleftrightarrow> int (length xs) < cursor_remaining_capacity (fst s)) \<and>
         (fst (cursor_push_byte b s) \<longleftrightarrow> 1 \<le> cursor_remaining_capacity (fst s))"
  using assms
  by (cases s) (auto simp: cursor_push_str_def cursor_push_def cursor_push_byte_def
      cursor_remaining_capacity_def)

theorem cursor_push_strict_witness:
  "fst (cursor_push_str [1, 2] (make_cursor 0 2, (\<lambda>_. 0))) = False \<and>
   fst (cursor_push_byte 1 (make_cursor 0 1, (\<lambda>_. 0))) = True"
  using cursor_push_strict [OF make_cursor_inv [of 0 2 "\<lambda>_. 0"], of "[1, 2]" 0]
    cursor_push_strict [OF make_cursor_inv [of 0 1 "\<lambda>_. 0"], of "[]" 1]
  by (simp add: cursor_remaining_capacity_def make_cursor_def)

end
