(* ===== verification/Hex.thy ===== *)
theory Hex
  imports Prelude
begin

unbundle bit_operations_syntax

text \<open>
  \<^verbatim>\<open>include/hex.h\<close>: hexadecimal text for keys, ids and signatures. \<open>hex_decode\<close> returns the C
  result and the bytes it has stored in the caller's buffer, which on failure are those stored
  before the failure; \<open>hex_encode\<close> returns the text it stores before the NUL, or nothing when it
  returns 0. The encoder and decoder interpret the \<open>text_codec\<close> contract.
\<close>

section \<open>The functions\<close>

definition char_to_hex :: "u8 \<Rightarrow> u8 option" where
  "char_to_hex c =
     (if c \<ge> chr CHR ''0'' \<and> c \<le> chr CHR ''9'' then Some (c - chr CHR ''0'')
      else if c \<ge> chr CHR ''a'' \<and> c \<le> chr CHR ''f'' then Some (c - chr CHR ''a'' + 10)
      else if c \<ge> chr CHR ''A'' \<and> c \<le> chr CHR ''F'' then Some (c - chr CHR ''A'' + 10)
      else None)"

fun hex_decode_loop :: "cstr \<Rightarrow> nat \<Rightarrow> bytes \<Rightarrow> bool \<times> bytes" where
  "hex_decode_loop (a # b # s) bufsize buf =
     (case char_to_hex a of
        None \<Rightarrow> (False, buf)
      | Some v1 \<Rightarrow>
          (case char_to_hex b of
             None \<Rightarrow> (False, buf)
           | Some v2 \<Rightarrow>
               if bufsize = 0 then (False, buf)
               else hex_decode_loop s (bufsize - 1) (buf @ [push_bit 4 v1 OR v2])))"
| "hex_decode_loop s bufsize buf = (length s = 0 \<and> bufsize = 0, buf)"

definition hex_decode :: "cstr \<Rightarrow> nat \<Rightarrow> bool \<times> bytes" where
  "hex_decode s bufsize = hex_decode_loop s bufsize []"

definition hex_str_size :: "nat \<Rightarrow> nat" where
  "hex_str_size n = 2 * n + 1"

definition hexchar :: "u32 \<Rightarrow> u8 outcome" where
  "hexchar val =
     (if val < 10 then Ret (chr CHR ''0'' + ucast val)
      else if val < 16 then Ret (chr CHR ''a'' + ucast val - 10)
      else Abort)"

definition hex_encode_byte :: "u8 \<Rightarrow> cstr outcome" where
  "hex_encode_byte b =
     (let c = ucast b :: u32
      in bind_outcome (hexchar (drop_bit 4 c)) (\<lambda>h.
         bind_outcome (hexchar (c AND 0xF)) (\<lambda>l. Ret [h, l])))"

definition hex_encode :: "bytes \<Rightarrow> nat \<Rightarrow> cstr option outcome" where
  "hex_encode buf destsize =
     (if destsize < hex_str_size (length buf) then Ret None
      else bind_outcome (map_outcome hex_encode_byte buf) (\<lambda>s. Ret (Some (concat s))))"

section \<open>Digits\<close>

text \<open>The text of a byte string as a total function, and the lower-case form of a hex digit.\<close>

definition hex_text :: "bytes \<Rightarrow> cstr" where
  "hex_text bs = concat (map hex2 bs)"

definition hex_lower :: "u8 \<Rightarrow> u8" where
  "hex_lower c = (if chr CHR ''A'' \<le> c \<and> c \<le> chr CHR ''F'' then c + 32 else c)"

lemma hexchar_digit: "v < 16 \<Longrightarrow> hexchar (of_nat v) = Ret (hex_digit v)"
  by (rule all_below [where n = 16 and P = "\<lambda>v. hexchar (of_nat v) = Ret (hex_digit v)"]) code_simp

lemma char_to_hex_digit: "v < 16 \<Longrightarrow> char_to_hex (hex_digit v) = Some (of_nat v)"
  by (rule all_below [where n = 16 and P = "\<lambda>v. char_to_hex (hex_digit v) = Some (of_nat v)"])
     code_simp

lemma hex_digit_nonzero: "v < 16 \<Longrightarrow> hex_digit v \<noteq> 0"
  by (rule all_below [where n = 16 and P = "\<lambda>v. hex_digit v \<noteq> 0"]) code_simp

lemma char_to_hex_Some:
  assumes "char_to_hex c = Some v"
  shows "unat v < 16 \<and> hex_digit (unat v) = hex_lower c"
proof -
  have "unat (c - 48) < 10" if "48 \<le> c" "c \<le> 57" using that by unat_arith
  moreover have "unat (c - 87) < 16 \<and> \<not> unat (c - 87) < 10 \<and> c - 97 + 10 = c - 87"
    if "97 \<le> c" "c \<le> 102" using that by unat_arith
  moreover have "unat (c - 55) < 16 \<and> \<not> unat (c - 55) < 10 \<and> c - 65 + 10 = c - 55"
    if "65 \<le> c" "c \<le> 70" using that by unat_arith
  moreover have "\<not> (65 \<le> c \<and> c \<le> 70)" if "c \<le> 57 \<or> 97 \<le> c" using that by unat_arith
  ultimately show ?thesis using assms
    by (auto simp: char_to_hex_def hex_digit_def hex_lower_def chr_def split: if_splits)
qed

lemma hex_encode_byte_text: "hex_encode_byte b = Ret (hex2 b)"
proof -
  have "unat b div 16 < 16" using u8_less [of b] by linarith
  then show ?thesis
    by (simp add: hex_encode_byte_def hex2_def high_nibble_u32 low_nibble_u32 hexchar_digit)
qed

lemma hex_join: "unat v1 < 16 \<Longrightarrow> unat v2 < 16 \<Longrightarrow>
  hex2 (push_bit 4 v1 OR v2) = [hex_digit (unat v1), hex_digit (unat v2)]"
proof -
  assume v: "unat v1 < 16" "unat v2 < 16"
  have t: "take_bit 4 v1 = v1" "take_bit 4 v2 = v2"
    using v by (simp_all add: word_unat_eq_iff unsigned_take_bit_eq take_bit_nat_def)
  have "drop_bit 4 (push_bit 4 v1 OR v2) = take_bit 4 v1 OR drop_bit 4 (take_bit 4 v2)"
    unfolding t(2) by (subst t(1) [symmetric], rule bit_word_eqI) (auto simp: bit_simps)
  also have "\<dots> = v1" unfolding t(1) by (rule bit_word_eqI) (auto simp: bit_simps)
  finally have d: "drop_bit 4 (push_bit 4 v1 OR v2) = v1" .
  have "take_bit 4 (push_bit 4 v1 OR v2) = take_bit 4 v2"
    by (rule bit_word_eqI) (auto simp: bit_simps)
  then have "take_bit 4 (push_bit 4 v1 OR v2) = v2" by (simp add: t)
  with d have "of_nat (unat (push_bit 4 v1 OR v2) div 16) = v1"
    "of_nat (unat (push_bit 4 v1 OR v2) mod 16) = v2"
    by (simp_all add: high_nibble low_nibble)
  then have "unat (push_bit 4 v1 OR v2) div 16 = unat v1"
    "unat (push_bit 4 v1 OR v2) mod 16 = unat v2"
    using u8_less [of "push_bit 4 v1 OR v2"] by (metis unat_u8_of_nat div_le_dividend
        le_less_trans mod_less_eq_dividend)+
  then show ?thesis by (simp add: hex2_def)
qed

section \<open>Encoder and decoder\<close>

lemma hex_encode_spec:
  "hex_encode bs n = Ret (if n < hex_str_size (length bs) then None else Some (hex_text bs))"
  by (simp add: hex_encode_def hex_text_def map_outcome_Ret [where g = hex2] hex_encode_byte_text)

lemma length_hex_text [simp]: "length (hex_text bs) = 2 * length bs"
  by (induction bs) (auto simp: hex_text_def hex2_def)

lemma hex_text_Nil [simp]: "hex_text [] = []"
  by (simp add: hex_text_def)

lemma hex_text_Cons [simp]: "hex_text (b # bs) = hex2 b @ hex_text bs"
  by (simp add: hex_text_def)

lemma hex_decode_loop_text:
  "hex_decode_loop (hex_text bs) (length bs) buf = (True, buf @ bs)"
proof (induction bs arbitrary: buf)
  case Nil
  then show ?case by simp
next
  case (Cons b bs)
  have "unat b div 16 < 16" using u8_less [of b] by linarith
  then show ?case
    by (simp add: hex2_def char_to_hex_digit high_nibble low_nibble nibbles_join Cons.IH)
qed

lemma hex_decode_loop_True:
  "hex_decode_loop s n buf = (True, out) \<Longrightarrow>
   \<exists>bs. out = buf @ bs \<and> length bs = n \<and> length s = 2 * n \<and> hex_text bs = map hex_lower s"
proof (induction s n buf rule: hex_decode_loop.induct)
  case (1 a b s n buf)
  then obtain v1 v2 where v: "char_to_hex a = Some v1" "char_to_hex b = Some v2" "n \<noteq> 0"
    by (auto split: option.splits if_splits)
  with 1 obtain bs where "out = (buf @ [push_bit 4 v1 OR v2]) @ bs" "length bs = n - 1"
    "length s = 2 * (n - 1)" "hex_text bs = map hex_lower s" by auto
  with v char_to_hex_Some [OF v(1)] char_to_hex_Some [OF v(2)] show ?case
    by (intro exI [of _ "(push_bit 4 v1 OR v2) # bs"]) (auto simp: hex_join)
qed auto

text \<open>
  The codec view: encode into a large enough buffer; decode a text of even length.
\<close>

definition hex_dec :: "cstr \<Rightarrow> bytes option" where
  "hex_dec s = (case hex_decode s (length s div 2) of (ok, bs) \<Rightarrow> if ok then Some bs else None)"

lemma hex_text_nonzero: "0 \<notin> set (hex_text bs)"
proof (induction bs)
  case (Cons b bs)
  have "unat b div 16 < 16" using u8_less [of b] by linarith
  then show ?case
    using Cons hex_digit_nonzero [of "unat b div 16"] hex_digit_nonzero [of "unat b mod 16"]
    by (auto simp: hex2_def)
qed simp

interpretation hex_codec: text_codec hex_text hex_dec
  by unfold_locales
     (simp_all add: hex_dec_def hex_decode_def hex_decode_loop_text hex_text_nonzero)

section \<open>Properties\<close>

text \<open>
  \<open>hex_encode\<close> never aborts; it returns 0 exactly when the destination is smaller than
  \<open>2 n + 1\<close> bytes, and otherwise stores a text that \<open>hex_decode\<close> turns back into the same bytes.
\<close>

theorem hex_roundtrip:
  "hex_encode bs destsize = Ret None \<and> destsize < 2 * length bs + 1 \<or>
   2 * length bs + 1 \<le> destsize \<and>
   (\<exists>s. hex_encode bs destsize = Ret (Some s) \<and> length s = 2 * length bs \<and>
        hex_decode s (length bs) = (True, bs))"
  by (simp add: hex_encode_spec hex_str_size_def hex_decode_def hex_decode_loop_text)

text \<open>
  What \<open>hex_decode\<close> accepts: it returns 1 only for a text of exactly twice the buffer's size
  made of hexadecimal digits in either case, fills the whole buffer, and the bytes it stores encode
  to the text in lower case.
\<close>

theorem hex_decode_sound:
  assumes "hex_decode s n = (True, bs)"
  shows "length s = 2 * n \<and> length bs = n \<and>
         hex_encode bs (hex_str_size n) = Ret (Some (map hex_lower s))"
  using hex_decode_loop_True [of s n "[]" bs] assms
  by (auto simp: hex_decode_def hex_encode_spec)

theorem hex_decode_sound_witness:
  "hex_encode [0xAB, 0x01] 5 = Ret (Some (map hex_lower (str ''aB01'')))"
proof -
  have "hex_decode (str ''aB01'') 2 = (True, [0xAB, 0x01])"
    by (simp add: hex_decode_def char_to_hex_def bytes_simps)
  from hex_decode_sound [OF this] show ?thesis by (simp add: hex_str_size_def)
qed

end
