(* ===== verification/Endian.thy ===== *)
theory Endian
  imports Prelude
begin

unbundle bit_operations_syntax

text \<open>
  \<^verbatim>\<open>include/endian.h\<close> with the generated \<^verbatim>\<open>include/config.h\<close>
  (HAVE_LITTLE_ENDIAN 1, HAVE_BYTESWAP_H 0, HAVE_BSWAP_64 0): the byte-swapping macros and
  functions and the conversions between host and fixed byte order. What the conversions are for is
  stated on the object representation: the memory image of \<open>cpu_to_be32 w\<close> is \<open>w\<close> most
  significant byte first.
\<close>

section \<open>Byte swapping\<close>

definition BSWAP_16 :: "u16 \<Rightarrow> u16" where
  "BSWAP_16 val =
     push_bit 8 (val AND 0x00ff) OR drop_bit 8 (val AND 0xff00)"

definition BSWAP_32 :: "u32 \<Rightarrow> u32" where
  "BSWAP_32 val =
     push_bit 24 (val AND 0x000000ff)
     OR push_bit 8 (val AND 0x0000ff00)
     OR drop_bit 8 (val AND 0x00ff0000)
     OR drop_bit 24 (val AND 0xff000000)"

definition BSWAP_64 :: "u64 \<Rightarrow> u64" where
  "BSWAP_64 val =
     push_bit 56 (val AND 0x00000000000000ff)
     OR push_bit 40 (val AND 0x000000000000ff00)
     OR push_bit 24 (val AND 0x0000000000ff0000)
     OR push_bit 8 (val AND 0x00000000ff000000)
     OR drop_bit 8 (val AND 0x000000ff00000000)
     OR drop_bit 24 (val AND 0x0000ff0000000000)
     OR drop_bit 40 (val AND 0x00ff000000000000)
     OR drop_bit 56 (val AND 0xff00000000000000)"

definition bswap_16 :: "u16 \<Rightarrow> u16" where "bswap_16 val = BSWAP_16 val"
definition bswap_32 :: "u32 \<Rightarrow> u32" where "bswap_32 val = BSWAP_32 val"
definition bswap_64 :: "u64 \<Rightarrow> u64" where "bswap_64 val = BSWAP_64 val"

section \<open>Host order to fixed order and back, on a little-endian host\<close>

definition cpu_to_le64 :: "u64 \<Rightarrow> u64" where "cpu_to_le64 native = native"
definition cpu_to_le32 :: "u32 \<Rightarrow> u32" where "cpu_to_le32 native = native"
definition cpu_to_le16 :: "u16 \<Rightarrow> u16" where "cpu_to_le16 native = native"
definition le64_to_cpu :: "u64 \<Rightarrow> u64" where "le64_to_cpu le_val = le_val"
definition le32_to_cpu :: "u32 \<Rightarrow> u32" where "le32_to_cpu le_val = le_val"
definition le16_to_cpu :: "u16 \<Rightarrow> u16" where "le16_to_cpu le_val = le_val"
definition cpu_to_be64 :: "u64 \<Rightarrow> u64" where "cpu_to_be64 native = BSWAP_64 native"
definition cpu_to_be32 :: "u32 \<Rightarrow> u32" where "cpu_to_be32 native = BSWAP_32 native"
definition cpu_to_be16 :: "u16 \<Rightarrow> u16" where "cpu_to_be16 native = BSWAP_16 native"
definition be64_to_cpu :: "u64 \<Rightarrow> u64" where "be64_to_cpu be_val = BSWAP_64 be_val"
definition be32_to_cpu :: "u32 \<Rightarrow> u32" where "be32_to_cpu be_val = BSWAP_32 be_val"
definition be16_to_cpu :: "u16 \<Rightarrow> u16" where "be16_to_cpu be_val = BSWAP_16 be_val"

section \<open>Swapping reverses the object representation\<close>

lemma byte_mask:
  "(0xff :: 'a::len word) = mask 8"
  "(0xff00 :: 'a::len word) = push_bit 8 (mask 8)"
  "(0xff0000 :: 'a::len word) = push_bit 16 (mask 8)"
  "(0xff000000 :: 'a::len word) = push_bit 24 (mask 8)"
  "(0xff00000000 :: 'a::len word) = push_bit 32 (mask 8)"
  "(0xff0000000000 :: 'a::len word) = push_bit 40 (mask 8)"
  "(0xff000000000000 :: 'a::len word) = push_bit 48 (mask 8)"
  "(0xff00000000000000 :: 'a::len word) = push_bit 56 (mask 8)"
  by (simp_all add: mask_eq_exp_minus_1 push_bit_eq_mult)

lemma bit_BSWAP_16: "k < 16 \<Longrightarrow> bit (BSWAP_16 w) k = bit w (8 * (1 - k div 8) + k mod 8)"
  unfolding BSWAP_16_def byte_mask
  by (cases "k < 8") (auto simp: bit_simps le_div_geq le_mod_geq)

lemma bit_BSWAP_32: "k < 32 \<Longrightarrow> bit (BSWAP_32 w) k = bit w (8 * (3 - k div 8) + k mod 8)"
proof -
  assume k: "k < 32"
  then consider "k < 8" | "8 \<le> k" "k < 16" | "16 \<le> k" "k < 24" | "24 \<le> k" "k < 32" by linarith
  then show ?thesis
    unfolding BSWAP_32_def byte_mask
    by cases (auto simp: bit_simps le_div_geq le_mod_geq)
qed

lemma bit_BSWAP_64: "k < 64 \<Longrightarrow> bit (BSWAP_64 w) k = bit w (8 * (7 - k div 8) + k mod 8)"
proof -
  assume k: "k < 64"
  then consider "k < 8" | "8 \<le> k" "k < 16" | "16 \<le> k" "k < 24" | "24 \<le> k" "k < 32"
    | "32 \<le> k" "k < 40" | "40 \<le> k" "k < 48" | "48 \<le> k" "k < 56" | "56 \<le> k" "k < 64"
    by linarith
  then show ?thesis
    unfolding BSWAP_64_def byte_mask
    by cases (auto simp: bit_simps le_div_geq le_mod_geq)
qed

lemma swap_rev:
  assumes "\<And>k. k < 8 * n \<Longrightarrow> bit v k = bit w (8 * (n - 1 - k div 8) + k mod 8)"
  shows "le_bytes n (v :: 'a::len word) = rev (le_bytes n (w :: 'a word))"
proof (rule nth_equalityI)
  fix i assume "i < length (le_bytes n v)"
  then have i: "i < n" by simp
  show "le_bytes n v ! i = rev (le_bytes n w) ! i"
  proof (rule bit_word_eqI)
    fix k assume "k < LENGTH(8)"
    then have k: "k < 8" by simp
    from k i have "8 * i + k < 8 * n" by linarith
    with assms [of "8 * i + k"] i k
    show "bit (le_bytes n v ! i) k = bit (rev (le_bytes n w) ! i) k"
      by (simp add: rev_nth bit_le_bytes)
  qed
qed simp

lemma le_bytes_BSWAP:
  "le_bytes 2 (BSWAP_16 h) = rev (le_bytes 2 h)"
  "le_bytes 4 (BSWAP_32 w) = rev (le_bytes 4 w)"
  "le_bytes 8 (BSWAP_64 d) = rev (le_bytes 8 d)"
  using swap_rev [of 2 "BSWAP_16 h" h] swap_rev [of 4 "BSWAP_32 w" w] swap_rev [of 8 "BSWAP_64 d" d]
  by (simp_all add: bit_BSWAP_16 bit_BSWAP_32 bit_BSWAP_64)

lemma be32_to_cpu_le_word: "length bs = 4 \<Longrightarrow> be32_to_cpu (le_word bs) = be_word bs"
proof -
  assume "length bs = 4"
  then have "le_bytes 4 (be32_to_cpu (le_word bs)) = rev bs"
    by (simp add: be32_to_cpu_def le_bytes_BSWAP le_bytes_le_word)
  then have "le_word (le_bytes 4 (be32_to_cpu (le_word bs))) = (be_word bs :: u32)"
    by (simp add: be_word_def)
  then show ?thesis by (simp add: le_word_le_bytes)
qed

lemma le_bytes_cpu_to_be:
  "le_bytes 8 (cpu_to_be64 d) = be_bytes 8 d"
  "le_bytes 4 (cpu_to_be32 w) = be_bytes 4 w"
  "le_bytes 2 (cpu_to_be16 h) = be_bytes 2 h"
  by (simp_all add: cpu_to_be64_def cpu_to_be32_def cpu_to_be16_def le_bytes_BSWAP be_bytes_def)

section \<open>Properties\<close>

text \<open>
  The conversions do what their names say on the bytes in memory: \<open>cpu_to_be\<close> stores the most
  significant byte first, \<open>cpu_to_le\<close> the least significant byte first, and each \<open>to_cpu\<close> function
  undoes the corresponding conversion.
\<close>

theorem endian_conversions:
  "le_bytes 8 (cpu_to_be64 d) = be_bytes 8 d \<and> be64_to_cpu (cpu_to_be64 d) = d \<and>
   le_bytes 4 (cpu_to_be32 w) = be_bytes 4 w \<and> be32_to_cpu (cpu_to_be32 w) = w \<and>
   le_bytes 2 (cpu_to_be16 h) = be_bytes 2 h \<and> be16_to_cpu (cpu_to_be16 h) = h \<and>
   le64_to_cpu (cpu_to_le64 d) = d \<and> le32_to_cpu (cpu_to_le32 w) = w \<and> le16_to_cpu (cpu_to_le16 h) = h"
proof -
  have "le_bytes 8 (BSWAP_64 (BSWAP_64 d)) = le_bytes 8 d"
    "le_bytes 4 (BSWAP_32 (BSWAP_32 w)) = le_bytes 4 w"
    "le_bytes 2 (BSWAP_16 (BSWAP_16 h)) = le_bytes 2 h"
    by (simp_all add: le_bytes_BSWAP)
  then have "BSWAP_64 (BSWAP_64 d) = d" "BSWAP_32 (BSWAP_32 w) = w" "BSWAP_16 (BSWAP_16 h) = h"
    using le_word_le_bytes [of 8 d] le_word_le_bytes [of 8 "BSWAP_64 (BSWAP_64 d)"]
      le_word_le_bytes [of 4 w] le_word_le_bytes [of 4 "BSWAP_32 (BSWAP_32 w)"]
      le_word_le_bytes [of 2 h] le_word_le_bytes [of 2 "BSWAP_16 (BSWAP_16 h)"]
    by simp_all
  then show ?thesis
    using le_bytes_cpu_to_be
    by (simp add: cpu_to_be64_def cpu_to_be32_def cpu_to_be16_def be64_to_cpu_def be32_to_cpu_def
        be16_to_cpu_def cpu_to_le64_def cpu_to_le32_def cpu_to_le16_def le64_to_cpu_def
        le32_to_cpu_def le16_to_cpu_def)
qed

end
