(* ===== verification/Sha256.thy ===== *)
theory Sha256
  imports Endian
begin

unbundle bit_operations_syntax

text \<open>
  \<^verbatim>\<open>sha256.c\<close> and \<^verbatim>\<open>include/sha256.h\<close> (CCAN's SHA-256, built without
  CCAN_CRYPTO_SHA256_USE_OPENSSL). The context, every helper, the 64 unrolled round statements of
  \<open>Transform\<close>, the buffering of \<open>add\<close> and the padding of \<open>sha256_done\<close> are modelled as written. The
  reference is the algorithm of FIPS 180-4, stated independently with rotations, the message
  schedule as a recurrence and rounds on eight working variables. The theory shows that
  \<open>Transform\<close> is the compression function, and that a context represents the message fed to it so
  far, whatever the sizes of the pieces.
\<close>

section \<open>The round functions\<close>

definition Ch :: "u32 \<Rightarrow> u32 \<Rightarrow> u32 \<Rightarrow> u32" where
  "Ch x y z = z XOR (x AND (y XOR z))"

definition Maj :: "u32 \<Rightarrow> u32 \<Rightarrow> u32 \<Rightarrow> u32" where
  "Maj x y z = (x AND y) OR (z AND (x OR y))"

definition Sigma0 :: "u32 \<Rightarrow> u32" where
  "Sigma0 x = (drop_bit 2 x OR push_bit 30 x) XOR (drop_bit 13 x OR push_bit 19 x)
              XOR (drop_bit 22 x OR push_bit 10 x)"

definition Sigma1 :: "u32 \<Rightarrow> u32" where
  "Sigma1 x = (drop_bit 6 x OR push_bit 26 x) XOR (drop_bit 11 x OR push_bit 21 x)
              XOR (drop_bit 25 x OR push_bit 7 x)"

definition sigma0 :: "u32 \<Rightarrow> u32" where
  "sigma0 x = (drop_bit 7 x OR push_bit 25 x) XOR (drop_bit 18 x OR push_bit 14 x) XOR drop_bit 3 x"

definition sigma1 :: "u32 \<Rightarrow> u32" where
  "sigma1 x = (drop_bit 17 x OR push_bit 15 x) XOR (drop_bit 19 x OR push_bit 13 x) XOR drop_bit 10 x"

text \<open>One round: the new values of the two registers passed by reference.\<close>

definition Round ::
  "u32 \<Rightarrow> u32 \<Rightarrow> u32 \<Rightarrow> u32 \<Rightarrow> u32 \<Rightarrow> u32 \<Rightarrow> u32 \<Rightarrow> u32 \<Rightarrow> u32 \<Rightarrow> u32 \<Rightarrow> u32 \<times> u32" where
  "Round a b c d e f g h k w =
     (let t1 = h + Sigma1 e + Ch e f g + k + w;
          t2 = Sigma0 a + Maj a b c
      in (d + t1, t1 + t2))"

section \<open>Transform\<close>

text \<open>
  The registers a to h are numbered 0 to 7 and the schedule variables w0 to w15 are 0 to 15. The
  last argument of a round statement is one of three expressions: \<open>WLoad i j\<close> is
  \<^verbatim>\<open>wi = be32_to_cpu(chunk[j])\<close>, \<open>WAddTo i j k l\<close> is
  \<^verbatim>\<open>wi += sigma1(wj) + wk + sigma0(wl)\<close>, and \<open>WPlus i j k l\<close> is the same sum without the
  assignment.
\<close>

datatype wexpr = WLoad nat nat | WAddTo nat nat nat nat | WPlus nat nat nat nat

type_synonym round_stmt = "nat list \<times> u32 \<times> wexpr"

fun eval_w :: "u32 list \<Rightarrow> wexpr \<Rightarrow> u32 list \<Rightarrow> u32 \<times> u32 list" where
  "eval_w chunk (WLoad i j) w = (let v = be32_to_cpu (chunk ! j) in (v, w[i := v]))"
| "eval_w chunk (WAddTo i j k l) w =
     (let v = w ! i + (sigma1 (w ! j) + w ! k + sigma0 (w ! l)) in (v, w[i := v]))"
| "eval_w chunk (WPlus i j k l) w =
     (w ! i + sigma1 (w ! j) + w ! k + sigma0 (w ! l), w)"

fun exec_round :: "u32 list \<Rightarrow> round_stmt \<Rightarrow> u32 list \<times> u32 list \<Rightarrow> u32 list \<times> u32 list" where
  "exec_round chunk (rs, k, we) (r, w) =
     (let (v, w') = eval_w chunk we w;
          (d', h') = Round (r ! (rs ! 0)) (r ! (rs ! 1)) (r ! (rs ! 2)) (r ! (rs ! 3))
                           (r ! (rs ! 4)) (r ! (rs ! 5)) (r ! (rs ! 6)) (r ! (rs ! 7)) k v
      in (r[rs ! 3 := d', rs ! 7 := h'], w'))"

text \<open>The 64 round statements, one line each, in the order of the source.\<close>

definition rounds :: "round_stmt list" where
  "rounds =
    [([0, 1, 2, 3, 4, 5, 6, 7], 0x428a2f98, WLoad 0 0),
     ([7, 0, 1, 2, 3, 4, 5, 6], 0x71374491, WLoad 1 1),
     ([6, 7, 0, 1, 2, 3, 4, 5], 0xb5c0fbcf, WLoad 2 2),
     ([5, 6, 7, 0, 1, 2, 3, 4], 0xe9b5dba5, WLoad 3 3),
     ([4, 5, 6, 7, 0, 1, 2, 3], 0x3956c25b, WLoad 4 4),
     ([3, 4, 5, 6, 7, 0, 1, 2], 0x59f111f1, WLoad 5 5),
     ([2, 3, 4, 5, 6, 7, 0, 1], 0x923f82a4, WLoad 6 6),
     ([1, 2, 3, 4, 5, 6, 7, 0], 0xab1c5ed5, WLoad 7 7),
     ([0, 1, 2, 3, 4, 5, 6, 7], 0xd807aa98, WLoad 8 8),
     ([7, 0, 1, 2, 3, 4, 5, 6], 0x12835b01, WLoad 9 9),
     ([6, 7, 0, 1, 2, 3, 4, 5], 0x243185be, WLoad 10 10),
     ([5, 6, 7, 0, 1, 2, 3, 4], 0x550c7dc3, WLoad 11 11),
     ([4, 5, 6, 7, 0, 1, 2, 3], 0x72be5d74, WLoad 12 12),
     ([3, 4, 5, 6, 7, 0, 1, 2], 0x80deb1fe, WLoad 13 13),
     ([2, 3, 4, 5, 6, 7, 0, 1], 0x9bdc06a7, WLoad 14 14),
     ([1, 2, 3, 4, 5, 6, 7, 0], 0xc19bf174, WLoad 15 15),
     ([0, 1, 2, 3, 4, 5, 6, 7], 0xe49b69c1, WAddTo 0 14 9 1),
     ([7, 0, 1, 2, 3, 4, 5, 6], 0xefbe4786, WAddTo 1 15 10 2),
     ([6, 7, 0, 1, 2, 3, 4, 5], 0x0fc19dc6, WAddTo 2 0 11 3),
     ([5, 6, 7, 0, 1, 2, 3, 4], 0x240ca1cc, WAddTo 3 1 12 4),
     ([4, 5, 6, 7, 0, 1, 2, 3], 0x2de92c6f, WAddTo 4 2 13 5),
     ([3, 4, 5, 6, 7, 0, 1, 2], 0x4a7484aa, WAddTo 5 3 14 6),
     ([2, 3, 4, 5, 6, 7, 0, 1], 0x5cb0a9dc, WAddTo 6 4 15 7),
     ([1, 2, 3, 4, 5, 6, 7, 0], 0x76f988da, WAddTo 7 5 0 8),
     ([0, 1, 2, 3, 4, 5, 6, 7], 0x983e5152, WAddTo 8 6 1 9),
     ([7, 0, 1, 2, 3, 4, 5, 6], 0xa831c66d, WAddTo 9 7 2 10),
     ([6, 7, 0, 1, 2, 3, 4, 5], 0xb00327c8, WAddTo 10 8 3 11),
     ([5, 6, 7, 0, 1, 2, 3, 4], 0xbf597fc7, WAddTo 11 9 4 12),
     ([4, 5, 6, 7, 0, 1, 2, 3], 0xc6e00bf3, WAddTo 12 10 5 13),
     ([3, 4, 5, 6, 7, 0, 1, 2], 0xd5a79147, WAddTo 13 11 6 14),
     ([2, 3, 4, 5, 6, 7, 0, 1], 0x06ca6351, WAddTo 14 12 7 15),
     ([1, 2, 3, 4, 5, 6, 7, 0], 0x14292967, WAddTo 15 13 8 0),
     ([0, 1, 2, 3, 4, 5, 6, 7], 0x27b70a85, WAddTo 0 14 9 1),
     ([7, 0, 1, 2, 3, 4, 5, 6], 0x2e1b2138, WAddTo 1 15 10 2),
     ([6, 7, 0, 1, 2, 3, 4, 5], 0x4d2c6dfc, WAddTo 2 0 11 3),
     ([5, 6, 7, 0, 1, 2, 3, 4], 0x53380d13, WAddTo 3 1 12 4),
     ([4, 5, 6, 7, 0, 1, 2, 3], 0x650a7354, WAddTo 4 2 13 5),
     ([3, 4, 5, 6, 7, 0, 1, 2], 0x766a0abb, WAddTo 5 3 14 6),
     ([2, 3, 4, 5, 6, 7, 0, 1], 0x81c2c92e, WAddTo 6 4 15 7),
     ([1, 2, 3, 4, 5, 6, 7, 0], 0x92722c85, WAddTo 7 5 0 8),
     ([0, 1, 2, 3, 4, 5, 6, 7], 0xa2bfe8a1, WAddTo 8 6 1 9),
     ([7, 0, 1, 2, 3, 4, 5, 6], 0xa81a664b, WAddTo 9 7 2 10),
     ([6, 7, 0, 1, 2, 3, 4, 5], 0xc24b8b70, WAddTo 10 8 3 11),
     ([5, 6, 7, 0, 1, 2, 3, 4], 0xc76c51a3, WAddTo 11 9 4 12),
     ([4, 5, 6, 7, 0, 1, 2, 3], 0xd192e819, WAddTo 12 10 5 13),
     ([3, 4, 5, 6, 7, 0, 1, 2], 0xd6990624, WAddTo 13 11 6 14),
     ([2, 3, 4, 5, 6, 7, 0, 1], 0xf40e3585, WAddTo 14 12 7 15),
     ([1, 2, 3, 4, 5, 6, 7, 0], 0x106aa070, WAddTo 15 13 8 0),
     ([0, 1, 2, 3, 4, 5, 6, 7], 0x19a4c116, WAddTo 0 14 9 1),
     ([7, 0, 1, 2, 3, 4, 5, 6], 0x1e376c08, WAddTo 1 15 10 2),
     ([6, 7, 0, 1, 2, 3, 4, 5], 0x2748774c, WAddTo 2 0 11 3),
     ([5, 6, 7, 0, 1, 2, 3, 4], 0x34b0bcb5, WAddTo 3 1 12 4),
     ([4, 5, 6, 7, 0, 1, 2, 3], 0x391c0cb3, WAddTo 4 2 13 5),
     ([3, 4, 5, 6, 7, 0, 1, 2], 0x4ed8aa4a, WAddTo 5 3 14 6),
     ([2, 3, 4, 5, 6, 7, 0, 1], 0x5b9cca4f, WAddTo 6 4 15 7),
     ([1, 2, 3, 4, 5, 6, 7, 0], 0x682e6ff3, WAddTo 7 5 0 8),
     ([0, 1, 2, 3, 4, 5, 6, 7], 0x748f82ee, WAddTo 8 6 1 9),
     ([7, 0, 1, 2, 3, 4, 5, 6], 0x78a5636f, WAddTo 9 7 2 10),
     ([6, 7, 0, 1, 2, 3, 4, 5], 0x84c87814, WAddTo 10 8 3 11),
     ([5, 6, 7, 0, 1, 2, 3, 4], 0x8cc70208, WAddTo 11 9 4 12),
     ([4, 5, 6, 7, 0, 1, 2, 3], 0x90befffa, WAddTo 12 10 5 13),
     ([3, 4, 5, 6, 7, 0, 1, 2], 0xa4506ceb, WAddTo 13 11 6 14),
     ([2, 3, 4, 5, 6, 7, 0, 1], 0xbef9a3f7, WPlus 14 12 7 15),
     ([1, 2, 3, 4, 5, 6, 7, 0], 0xc67178f2, WPlus 15 13 8 0)]"

definition Transform :: "u32 list \<Rightarrow> u32 list \<Rightarrow> u32 list" where
  "Transform s chunk =
     (let (r, w) = fold (exec_round chunk) rounds (s, replicate 16 0)
      in map2 (+) s r)"

section \<open>The context and the public functions\<close>

record sha256_ctx =
  ctx_s :: "u32 list"
  ctx_buf :: bytes
  ctx_bytes :: u64

definition SHA256_INIT :: sha256_ctx where
  "SHA256_INIT =
     \<lparr>ctx_s = [0x6a09e667, 0xbb67ae85, 0x3c6ef372, 0xa54ff53a,
               0x510e527f, 0x9b05688c, 0x1f83d9ab, 0x5be0cd19],
      ctx_buf = replicate 64 0, ctx_bytes = 0\<rparr>"

definition invalidate_sha256 :: "sha256_ctx \<Rightarrow> sha256_ctx" where
  "invalidate_sha256 ctx = ctx\<lparr>ctx_bytes := - 1\<rparr>"

definition check_sha256 :: "sha256_ctx \<Rightarrow> unit outcome" where
  "check_sha256 ctx = (if ctx_bytes ctx \<noteq> - 1 then Ret () else Abort)"

text \<open>The 64 bytes of a block read as sixteen \<^verbatim>\<open>uint32_t\<close> on a little-endian host.\<close>

definition chunk32 :: "bytes \<Rightarrow> u32 list" where
  "chunk32 bs = map (\<lambda>i. le_word (take 4 (drop (4 * i) bs))) [0..<16]"

text \<open>
  \<open>add\<close>: complete the buffered block, then whole blocks straight from the source
  (\<open>alignment_ok\<close> is 1 because config.h has HAVE_UNALIGNED_ACCESS), then buffer the rest.
\<close>

fun add_chunks :: "sha256_ctx \<Rightarrow> bytes \<Rightarrow> sha256_ctx \<times> bytes" where
  "add_chunks ctx data =
     (if length data \<ge> 64 then
        add_chunks (ctx\<lparr>ctx_s := Transform (ctx_s ctx) (chunk32 (take 64 data)),
                        ctx_bytes := ctx_bytes ctx + 64\<rparr>) (drop 64 data)
      else (ctx, data))"

declare add_chunks.simps [simp del]

definition copy_at :: "nat \<Rightarrow> bytes \<Rightarrow> bytes \<Rightarrow> bytes" where
  "copy_at i src dst = take i dst @ src @ drop (i + length src) dst"

definition sha256_add :: "sha256_ctx \<Rightarrow> bytes \<Rightarrow> sha256_ctx" where
  "sha256_add ctx data =
     (let bufsize = unat (ctx_bytes ctx mod 64);
          (ctx, data, bufsize) =
            (if bufsize + length data \<ge> 64 then
               let buf = copy_at bufsize (take (64 - bufsize) data) (ctx_buf ctx)
               in (ctx\<lparr>ctx_buf := buf, ctx_bytes := ctx_bytes ctx + of_nat (64 - bufsize),
                       ctx_s := Transform (ctx_s ctx) (chunk32 buf)\<rparr>,
                   drop (64 - bufsize) data, 0)
             else (ctx, data, bufsize));
          (ctx, data) = add_chunks ctx data
      in if length data \<noteq> 0 then
           ctx\<lparr>ctx_buf := copy_at bufsize data (ctx_buf ctx),
               ctx_bytes := ctx_bytes ctx + of_nat (length data)\<rparr>
         else ctx)"

definition sha256_init :: sha256_ctx where
  "sha256_init = SHA256_INIT"

definition sha256_update :: "sha256_ctx \<Rightarrow> bytes \<Rightarrow> sha256_ctx outcome" where
  "sha256_update ctx p = bind_outcome (check_sha256 ctx) (\<lambda>_. Ret (sha256_add ctx p))"

definition sha256_pad :: bytes where
  "sha256_pad = 0x80 # replicate 63 0"

definition sha256_done :: "sha256_ctx \<Rightarrow> bytes \<times> sha256_ctx" where
  "sha256_done ctx =
     (let sizedesc = cpu_to_be64 (push_bit 3 (ctx_bytes ctx));
          ctx = sha256_add ctx
                  (take (1 + (128 - 8 - unat (ctx_bytes ctx mod 64) - 1) mod 64) sha256_pad);
          ctx = sha256_add ctx (le_bytes 8 sizedesc)
      in (concat (map (\<lambda>w. le_bytes 4 (cpu_to_be32 w)) (ctx_s ctx)), invalidate_sha256 ctx))"

definition sha256 :: "bytes \<Rightarrow> bytes outcome" where
  "sha256 p = bind_outcome (sha256_update sha256_init p) (\<lambda>ctx. Ret (fst (sha256_done ctx)))"

text \<open>The convenience functions that add one integer to a hash.\<close>

definition sha256_u8 :: "sha256_ctx \<Rightarrow> u8 \<Rightarrow> sha256_ctx outcome" where
  "sha256_u8 ctx v = sha256_update ctx (le_bytes 1 v)"
definition sha256_u16 :: "sha256_ctx \<Rightarrow> u16 \<Rightarrow> sha256_ctx outcome" where
  "sha256_u16 ctx v = sha256_update ctx (le_bytes 2 v)"
definition sha256_u32 :: "sha256_ctx \<Rightarrow> u32 \<Rightarrow> sha256_ctx outcome" where
  "sha256_u32 ctx v = sha256_update ctx (le_bytes 4 v)"
definition sha256_u64 :: "sha256_ctx \<Rightarrow> u64 \<Rightarrow> sha256_ctx outcome" where
  "sha256_u64 ctx v = sha256_update ctx (le_bytes 8 v)"
definition sha256_le16 :: "sha256_ctx \<Rightarrow> u16 \<Rightarrow> sha256_ctx outcome" where
  "sha256_le16 ctx v = (let lev = cpu_to_le16 v in sha256_update ctx (le_bytes 2 lev))"
definition sha256_le32 :: "sha256_ctx \<Rightarrow> u32 \<Rightarrow> sha256_ctx outcome" where
  "sha256_le32 ctx v = (let lev = cpu_to_le32 v in sha256_update ctx (le_bytes 4 lev))"
definition sha256_le64 :: "sha256_ctx \<Rightarrow> u64 \<Rightarrow> sha256_ctx outcome" where
  "sha256_le64 ctx v = (let lev = cpu_to_le64 v in sha256_update ctx (le_bytes 8 lev))"
definition sha256_be16 :: "sha256_ctx \<Rightarrow> u16 \<Rightarrow> sha256_ctx outcome" where
  "sha256_be16 ctx v = (let bev = cpu_to_be16 v in sha256_update ctx (le_bytes 2 bev))"
definition sha256_be32 :: "sha256_ctx \<Rightarrow> u32 \<Rightarrow> sha256_ctx outcome" where
  "sha256_be32 ctx v = (let bev = cpu_to_be32 v in sha256_update ctx (le_bytes 4 bev))"
definition sha256_be64 :: "sha256_ctx \<Rightarrow> u64 \<Rightarrow> sha256_ctx outcome" where
  "sha256_be64 ctx v = (let bev = cpu_to_be64 v in sha256_update ctx (le_bytes 8 bev))"

section \<open>The reference: FIPS 180-4\<close>

definition rotr :: "nat \<Rightarrow> u32 \<Rightarrow> u32" where
  "rotr n x = word_rotr n x"

definition fips_Ch :: "u32 \<Rightarrow> u32 \<Rightarrow> u32 \<Rightarrow> u32" where
  "fips_Ch x y z = (x AND y) XOR (NOT x AND z)"
definition fips_Maj :: "u32 \<Rightarrow> u32 \<Rightarrow> u32 \<Rightarrow> u32" where
  "fips_Maj x y z = (x AND y) XOR (x AND z) XOR (y AND z)"
definition fips_Sigma0 :: "u32 \<Rightarrow> u32" where
  "fips_Sigma0 x = rotr 2 x XOR rotr 13 x XOR rotr 22 x"
definition fips_Sigma1 :: "u32 \<Rightarrow> u32" where
  "fips_Sigma1 x = rotr 6 x XOR rotr 11 x XOR rotr 25 x"
definition fips_sigma0 :: "u32 \<Rightarrow> u32" where
  "fips_sigma0 x = rotr 7 x XOR rotr 18 x XOR drop_bit 3 x"
definition fips_sigma1 :: "u32 \<Rightarrow> u32" where
  "fips_sigma1 x = rotr 17 x XOR rotr 19 x XOR drop_bit 10 x"

text \<open>
  The constants of the standard are not copied from a table but computed from their definition: the
  first 32 bits of the fractional parts of the cube roots of the first 64 primes, and of the square
  roots of the first eight. \<open>int_root k n\<close> finds the integer \<open>k\<close>th root of \<open>n < 2 ^ (36 * k)\<close> bit by bit,
  and a number below \<open>18\<^sup>2\<close> is prime when no smaller number up to 17 divides it.
\<close>

definition int_root :: "nat \<Rightarrow> int \<Rightarrow> int" where
  "int_root k n = foldl (\<lambda>r i. if (r + i) ^ k \<le> n then r + i else r) 0 (map (\<lambda>i. 2 ^ i) (rev [0..<36]))"

definition small_primes :: "int list" where
  "small_primes = filter (\<lambda>p. list_all (\<lambda>d. p \<le> d \<or> p mod d \<noteq> 0) [2..17]) [2..311]"

definition root_fraction :: "nat \<Rightarrow> int \<Rightarrow> u32" where
  "root_fraction k p = word_of_int (int_root k (p * (2 ^ 32) ^ k))"

definition fips_K :: "u32 list" where
  "fips_K = map (root_fraction 3) small_primes"

text \<open>The message schedule of a 64-byte block, words most significant byte first.\<close>

fun fips_W :: "bytes \<Rightarrow> nat \<Rightarrow> u32" where
  "fips_W M t =
     (if t < 16 then be_word (take 4 (drop (4 * t) M))
      else fips_sigma1 (fips_W M (t - 2)) + fips_W M (t - 7)
           + fips_sigma0 (fips_W M (t - 15)) + fips_W M (t - 16))"

declare fips_W.simps [simp del]

fun fips_round :: "u32 \<Rightarrow> u32 \<Rightarrow> u32 list \<Rightarrow> u32 list" where
  "fips_round k w [a, b, c, d, e, f, g, h] =
     (let T1 = h + fips_Sigma1 e + fips_Ch e f g + k + w;
          T2 = fips_Sigma0 a + fips_Maj a b c
      in [T1 + T2, a, b, c, d + T1, e, f, g])"
| "fips_round k w st = st"

definition fips_compress :: "u32 list \<Rightarrow> bytes \<Rightarrow> u32 list" where
  "fips_compress H M =
     map2 (+) H (fold (\<lambda>t. fips_round (fips_K ! t) (fips_W M t)) [0..<64] H)"

fun fips_blocks :: "u32 list \<Rightarrow> bytes \<Rightarrow> u32 list" where
  "fips_blocks H M = (if length M \<ge> 64 then fips_blocks (fips_compress H (take 64 M)) (drop 64 M) else H)"

declare fips_blocks.simps [simp del]

text \<open>Padding: a 1 bit, the least number of 0 bits, and the bit length in 64 bits.\<close>

definition fips_pad :: "bytes \<Rightarrow> bytes" where
  "fips_pad M = M @ [0x80] @ replicate ((119 - length M mod 64) mod 64) 0
                  @ be_bytes 8 (of_nat (8 * length M) :: u64)"

definition fips_H0 :: "u32 list" where
  "fips_H0 = map (root_fraction 2) (take 8 small_primes)"

definition fips_sha256 :: "bytes \<Rightarrow> bytes" where
  "fips_sha256 M = concat (map (be_bytes 4) (fips_blocks fips_H0 (fips_pad M)))"

section \<open>The round functions are those of the standard\<close>

lemma rotr_shift: "0 < n \<Longrightarrow> n < 32 \<Longrightarrow> rotr n x = drop_bit n x OR push_bit (32 - n) x"
proof (rule bit_word_eqI)
  fix k assume n: "0 < n" "n < 32" and "k < LENGTH(32)"
  then have k: "k < 32" by simp
  show "bit (rotr n x) k = bit (drop_bit n x OR push_bit (32 - n) x) k"
  proof (cases "k + n < 32")
    case True
    with n k show ?thesis by (auto simp: rotr_def bit_word_rotr_iff bit_simps ac_simps)
  next
    case False
    then have "(k + n) mod 32 = k + n - 32" using n k by (simp add: mod_if)
    moreover have "\<not> bit x (k + n)" using False bit_imp_le_length [of x "k + n"] by auto
    ultimately show ?thesis using n k False
      by (auto simp: rotr_def bit_word_rotr_iff bit_simps ac_simps not_less)
  qed
qed

lemma Sigma_eqs:
  "Sigma0 x = fips_Sigma0 x" "Sigma1 x = fips_Sigma1 x"
  "sigma0 x = fips_sigma0 x" "sigma1 x = fips_sigma1 x"
  by (simp_all add: Sigma0_def Sigma1_def sigma0_def sigma1_def fips_Sigma0_def fips_Sigma1_def
      fips_sigma0_def fips_sigma1_def rotr_shift)

lemma Ch_eq: "Ch x y z = fips_Ch x y z"
  unfolding Ch_def fips_Ch_def by (rule bit_word_eqI) (auto simp: bit_simps)

lemma Maj_eq: "Maj x y z = fips_Maj x y z"
  unfolding Maj_def fips_Maj_def by (rule bit_word_eqI) (auto simp: bit_simps)

section \<open>Transform is the compression function\<close>

text \<open>The statement of round \<open>i\<close>, in closed form.\<close>

definition round_stmt_at :: "nat \<Rightarrow> round_stmt" where
  "round_stmt_at i =
     (map (\<lambda>j. (j + 7 * i) mod 8) [0..<8], fips_K ! i,
      if i < 16 then WLoad i i
      else if i < 62 then WAddTo (i mod 16) ((i - 2) mod 16) ((i - 7) mod 16) ((i - 15) mod 16)
      else WPlus (i mod 16) ((i - 2) mod 16) ((i - 7) mod 16) ((i - 15) mod 16))"

lemma fips_K_rounds: "fips_K = map (\<lambda>(p, k, e). k) rounds"
  by code_simp

definition round_shape_at :: "nat \<Rightarrow> u32 \<Rightarrow> round_stmt" where
  "round_shape_at i k = (fst (round_stmt_at i), k, snd (snd (round_stmt_at i)))"

lemma rounds_shape: "rounds = map (\<lambda>i. round_shape_at i (fst (snd (rounds ! i)))) [0..<64]"
  unfolding round_shape_at_def round_stmt_at_def fst_conv snd_conv by code_simp

lemma rounds_closed_form: "rounds = map round_stmt_at [0..<64]"
proof -
  have "length rounds = 64" by (simp add: rounds_def)
  then have "fst (snd (rounds ! i)) = fips_K ! i" if "i < 64" for i
    using that by (simp add: fips_K_rounds split_beta)
  then have "map (\<lambda>i. round_shape_at i (fst (snd (rounds ! i)))) [0..<64] = map round_stmt_at [0..<64]"
    by (simp add: round_shape_at_def round_stmt_at_def)
  with rounds_shape show ?thesis by simp
qed

text \<open>The working variables before round \<open>i\<close>, read off the registers.\<close>

definition reg_view :: "nat \<Rightarrow> u32 list \<Rightarrow> u32 list" where
  "reg_view i r = map (\<lambda>j. r ! ((j + 7 * i) mod 8)) [0..<8]"

definition w_agrees :: "bytes \<Rightarrow> nat \<Rightarrow> u32 list \<Rightarrow> bool" where
  "w_agrees M i w \<longleftrightarrow>
     length w = 16 \<and> (\<forall>t. t < min i 62 \<and> i \<le> t + 16 \<longrightarrow> w ! (t mod 16) = fips_W M t)"

lemma chunk32_nth: "length M = 64 \<Longrightarrow> i < 16 \<Longrightarrow> be32_to_cpu (chunk32 M ! i) = fips_W M i"
  by (simp add: chunk32_def be32_to_cpu_le_word fips_W.simps)

lemma eval_w_step:
  assumes "length M = 64" and "i < 64" and "w_agrees M i w"
  obtains w' where "eval_w (chunk32 M) (snd (snd (round_stmt_at i))) w = (fips_W M i, w')"
    and "w_agrees M (Suc i) w'"
proof (cases "i < 16")
  case True
  have "w_agrees M (Suc i) (w[i := fips_W M i])"
    using assms True by (auto simp: w_agrees_def nth_list_update less_Suc_eq)
  with True assms that show ?thesis
    by (simp add: round_stmt_at_def chunk32_nth Let_def)
next
  case False
  have w: "w ! ((i - d) mod 16) = fips_W M (i - d)" if "d \<le> 16" "2 \<le> d" for d
  proof -
    have "i - d < min i 62 \<and> i \<le> (i - d) + 16" using assms(2) that False by auto
    with assms(3) show ?thesis unfolding w_agrees_def by blast
  qed
  have "w ! (i mod 16) = fips_W M (i - 16)"
    using w [of 16] False by (simp add: le_mod_geq)
  then have v: "w ! (i mod 16) + (sigma1 (w ! ((i - 2) mod 16)) + w ! ((i - 7) mod 16)
                  + sigma0 (w ! ((i - 15) mod 16))) = fips_W M i"
    using w [of 2] w [of 7] w [of 15] False
    by (subst fips_W.simps) (simp add: Sigma_eqs ac_simps)
  have keep: "w_agrees M (Suc i) (w[i mod 16 := fips_W M i])" if "i < 62"
  proof -
    have "i mod 16 \<noteq> t mod 16" if "t < i" "i < t + 16" for t
      using that by (metis add_diff_cancel_left' less_imp_le_nat mod_eq_dvd_iff_nat
          nat_add_left_cancel_less nat_dvd_not_less zero_less_diff less_diff_conv2 add.commute)
    then have "w[i mod 16 := fips_W M i] ! (t mod 16) = fips_W M t" if "t < Suc i" "Suc i \<le> t + 16" for t
      using assms(3) that \<open>i < 62\<close> by (cases "t = i") (auto simp: w_agrees_def nth_list_update)
    then show ?thesis using assms(3) by (auto simp: w_agrees_def)
  qed
  have "w_agrees M (Suc i) w" if "\<not> i < 62"
    using assms that by (auto simp: w_agrees_def)
  then show ?thesis
    using False v keep that by (cases "i < 62") (auto simp: round_stmt_at_def Let_def add.assoc)
qed

definition perm_at :: "nat \<Rightarrow> nat list" where
  "perm_at i = map (\<lambda>j. (j + 7 * i) mod 8) [0..<8]"

lemma perm_at_cases:
  "perm_at i \<in> set [[0,1,2,3,4,5,6,7], [7,0,1,2,3,4,5,6], [6,7,0,1,2,3,4,5], [5,6,7,0,1,2,3,4],
                    [4,5,6,7,0,1,2,3], [3,4,5,6,7,0,1,2], [2,3,4,5,6,7,0,1], [1,2,3,4,5,6,7,0]]
   \<and> perm_at (Suc i) = last (perm_at i) # butlast (perm_at i)"
proof -
  have c: "perm_at i = perm_at (i mod 8)" for i
    by (simp add: perm_at_def mod_simps) (metis (no_types, lifting) mod_add_right_eq mod_mult_right_eq)
  have "list_all (\<lambda>k. perm_at k \<in> set [[0,1,2,3,4,5,6,7], [7,0,1,2,3,4,5,6], [6,7,0,1,2,3,4,5],
           [5,6,7,0,1,2,3,4], [4,5,6,7,0,1,2,3], [3,4,5,6,7,0,1,2], [2,3,4,5,6,7,0,1], [1,2,3,4,5,6,7,0]]
         \<and> perm_at (Suc k) = last (perm_at k) # butlast (perm_at k)) [0..<8]"
    by code_simp
  from all_below [OF this, of "i mod 8"] have
    "perm_at (i mod 8) \<in> set [[0,1,2,3,4,5,6,7], [7,0,1,2,3,4,5,6], [6,7,0,1,2,3,4,5],
           [5,6,7,0,1,2,3,4], [4,5,6,7,0,1,2,3], [3,4,5,6,7,0,1,2], [2,3,4,5,6,7,0,1], [1,2,3,4,5,6,7,0]]"
    "perm_at (Suc (i mod 8)) = last (perm_at (i mod 8)) # butlast (perm_at (i mod 8))" by auto
  moreover have "perm_at (Suc (i mod 8)) = perm_at (Suc i)"
    using c [of "Suc (i mod 8)"] c [of "Suc i"] by (simp add: mod_Suc_eq)
  ultimately show ?thesis using c [of i] by simp
qed

lemma reg_view_perm: "reg_view i r = map ((!) r) (perm_at i)"
  by (simp add: reg_view_def perm_at_def)

lemma list8_cases:
  assumes "length r = 8"
  obtains a b c d e f g h where "r = [a, b, c, d, e, f, g, h]"
  using assms by (auto simp: length_Suc_conv numeral_eq_Suc)

lemma fips_round_Round:
  "Round a b c d e f g h k v = (d', h') \<Longrightarrow>
   fips_round k v [a, b, c, d, e, f, g, h] = [h', a, b, c, d', e, f, g]"
  by (auto simp: Round_def Let_def Sigma_eqs Ch_eq Maj_eq)

lemma round_regs_perm:
  assumes "length r = 8"
    and "p \<in> set [[0,1,2,3,4,5,6,7], [7,0,1,2,3,4,5,6], [6,7,0,1,2,3,4,5], [5,6,7,0,1,2,3,4],
                  [4,5,6,7,0,1,2,3], [3,4,5,6,7,0,1,2], [2,3,4,5,6,7,0,1], [1,2,3,4,5,6,7,0]]"
    and "Round (r ! (p ! 0)) (r ! (p ! 1)) (r ! (p ! 2)) (r ! (p ! 3))
               (r ! (p ! 4)) (r ! (p ! 5)) (r ! (p ! 6)) (r ! (p ! 7)) k v = (d', h')"
  shows "map ((!) (r[p ! 3 := d', p ! 7 := h'])) (last p # butlast p) = fips_round k v (map ((!) r) p)"
proof -
  obtain a b c d e f g h where r: "r = [a, b, c, d, e, f, g, h]"
    using list8_cases [OF assms(1)] .
  have p: "p = [p ! 0, p ! 1, p ! 2, p ! 3, p ! 4, p ! 5, p ! 6, p ! 7]"
    using assms(2) by (simp only: list.set insert_iff empty_iff) (elim disjE; simp)
  have "fips_round k v (map ((!) r) p) =
    [h', r ! (p ! 0), r ! (p ! 1), r ! (p ! 2), d', r ! (p ! 4), r ! (p ! 5), r ! (p ! 6)]"
    by (subst p, simp only: list.map fips_round_Round [OF assms(3)])
  moreover have "map ((!) (r[p ! 3 := d', p ! 7 := h'])) (last p # butlast p) =
    [h', r ! (p ! 0), r ! (p ! 1), r ! (p ! 2), d', r ! (p ! 4), r ! (p ! 5), r ! (p ! 6)]"
    using assms(2) unfolding r by (simp only: list.set insert_iff empty_iff) (elim disjE; simp)
  ultimately show ?thesis by (simp only:)
qed

lemma exec_round_step:
  assumes "length r = 8" and "eval_w c (snd (snd (round_stmt_at i))) w = (v, w')"
    and "exec_round c (round_stmt_at i) (r, w) = (r', w'')"
  shows "w'' = w' \<and> length r' = 8 \<and> reg_view (Suc i) r' = fips_round (fips_K ! i) v (reg_view i r)"
proof -
  let ?p = "perm_at i"
  obtain we where st: "round_stmt_at i = (?p, fips_K ! i, we)"
    by (simp add: round_stmt_at_def perm_at_def)
  then have ev: "eval_w c we w = (v, w')" using assms(2) by simp
  obtain d' h' where R: "Round (r ! (?p ! 0)) (r ! (?p ! 1)) (r ! (?p ! 2)) (r ! (?p ! 3))
      (r ! (?p ! 4)) (r ! (?p ! 5)) (r ! (?p ! 6)) (r ! (?p ! 7)) (fips_K ! i) v = (d', h')"
    by (rule prod.exhaust)
  have "r' = r[?p ! 3 := d', ?p ! 7 := h']" "w'' = w'"
    using assms(3) unfolding st by (simp_all only: exec_round.simps ev R Let_def prod.case prod.inject)
  with round_regs_perm [OF assms(1) conjunct1 [OF perm_at_cases] R] perm_at_cases [of i] assms(1)
  show ?thesis by (simp add: reg_view_perm)
qed

lemma reg_view_id:
  assumes "length r = 8"
  shows "reg_view 0 r = r" and "reg_view 64 r = r"
proof -
  have p: "perm_at 0 = [0..<8]" "perm_at 64 = [0..<8]" by code_simp+
  show "reg_view 0 r = r" "reg_view 64 r = r"
    using map_nth [of r] unfolding reg_view_perm p assms by simp_all
qed

lemma rounds_simulation:
  assumes "length M = 64" and "length s = 8" and "i \<le> 64"
  shows "\<exists>r w. fold (exec_round (chunk32 M)) (map round_stmt_at [0..<i]) (s, replicate 16 0) = (r, w)
           \<and> length r = 8 \<and> w_agrees M i w
           \<and> reg_view i r = fold (\<lambda>t. fips_round (fips_K ! t) (fips_W M t)) [0..<i] s"
  using assms(3)
proof (induction i)
  case 0
  show ?case using assms(2) by (simp add: w_agrees_def reg_view_id)
next
  case (Suc i)
  then obtain r w where IH:
    "fold (exec_round (chunk32 M)) (map round_stmt_at [0..<i]) (s, replicate 16 0) = (r, w)"
    "length r = 8" "w_agrees M i w"
    "reg_view i r = fold (\<lambda>t. fips_round (fips_K ! t) (fips_W M t)) [0..<i] s" by auto
  obtain w' where w': "eval_w (chunk32 M) (snd (snd (round_stmt_at i))) w = (fips_W M i, w')"
    "w_agrees M (Suc i) w'" using eval_w_step [OF assms(1) _ IH(3)] Suc.prems by auto
  obtain r' w'' where x: "exec_round (chunk32 M) (round_stmt_at i) (r, w) = (r', w'')"
    by (rule prod.exhaust)
  from exec_round_step [OF IH(2) w'(1) x] IH w'(2) x show ?case by simp
qed

lemma Transform_compress:
  assumes "length M = 64" and "length s = 8"
  shows "Transform s (chunk32 M) = fips_compress s M"
proof -
  obtain r w where r: "fold (exec_round (chunk32 M)) rounds (s, replicate 16 0) = (r, w)"
    "length r = 8" "reg_view 64 r = fold (\<lambda>t. fips_round (fips_K ! t) (fips_W M t)) [0..<64] s"
    using rounds_simulation [OF assms, of 64] unfolding rounds_closed_form by auto
  then show ?thesis by (simp add: Transform_def fips_compress_def reg_view_id)
qed

lemma length_fips_compress:
  assumes "length M = 64" and "length s = 8"
  shows "length (fips_compress s M) = 8"
proof -
  obtain r where "length r = 8"
    "reg_view 64 r = fold (\<lambda>t. fips_round (fips_K ! t) (fips_W M t)) [0..<64] s"
    using rounds_simulation [OF assms, of 64] by auto
  then have "length (fold (\<lambda>t. fips_round (fips_K ! t) (fips_W M t)) [0..<64] s) = 8"
    by (simp add: reg_view_id)
  with assms show ?thesis by (simp add: fips_compress_def)
qed

section \<open>A context represents the message fed to it\<close>

lemma length_fips_blocks [simp]: "length H = 8 \<Longrightarrow> length (fips_blocks H M) = 8"
proof (induction H M rule: fips_blocks.induct)
  case (1 H M)
  then show ?case by (subst fips_blocks.simps) (simp add: length_fips_compress)
qed

lemma fips_blocks_short [simp]: "length M < 64 \<Longrightarrow> fips_blocks H M = H"
  by (subst fips_blocks.simps) simp

lemma fips_blocks_one: "length M = 64 \<Longrightarrow> fips_blocks H (M @ N) = fips_blocks (fips_compress H M) N"
  by (subst fips_blocks.simps) simp

lemma fips_blocks_append:
  "64 dvd length M \<Longrightarrow> fips_blocks H (M @ N) = fips_blocks (fips_blocks H M) N"
proof (induction H M rule: fips_blocks.induct)
  case (1 H M)
  show ?case
  proof (cases "length M < 64")
    case True
    with 1 have "M = []" by (auto dest: nat_dvd_not_less)
    then show ?thesis by simp
  next
    case False
    have M: "M = take 64 M @ drop 64 M" by simp
    have "fips_blocks H (take 64 M @ (drop 64 M @ N)) =
          fips_blocks (fips_compress H (take 64 M)) (drop 64 M @ N)"
      using False by (intro fips_blocks_one) simp
    also have "\<dots> = fips_blocks (fips_blocks (fips_compress H (take 64 M)) (drop 64 M)) N"
      using 1 False by (simp add: dvd_diff_nat)
    also have "fips_blocks (fips_compress H (take 64 M)) (drop 64 M) = fips_blocks H M"
      using False by (subst (2) fips_blocks.simps) simp
    finally show ?thesis using M by (metis append.assoc)
  qed
qed

text \<open>
  The message splits into whole blocks, which the chaining value has absorbed, and a tail shorter
  than a block, which is the used part of the buffer.
\<close>

definition sha_parts :: "sha256_ctx \<Rightarrow> bytes \<Rightarrow> bytes \<Rightarrow> bool" where
  "sha_parts ctx full tail \<longleftrightarrow>
     64 dvd length full \<and> length tail < 64 \<and> length (ctx_buf ctx) = 64 \<and>
     ctx_s ctx = fips_blocks fips_H0 full \<and> take (length tail) (ctx_buf ctx) = tail \<and>
     ctx_bytes ctx = of_nat (length full + length tail)"

definition sha_rep :: "sha256_ctx \<Rightarrow> bytes \<Rightarrow> bool" where
  "sha_rep ctx m \<longleftrightarrow> (\<exists>full tail. m = full @ tail \<and> sha_parts ctx full tail)"

lemma sha_repI: "sha_parts ctx full tail \<Longrightarrow> m = full @ tail \<Longrightarrow> sha_rep ctx m"
  by (auto simp: sha_rep_def)

lemma unat_mod64: "unat ((of_nat n :: u64) mod 64) = n mod 64"
  by (simp add: unat_mod unsigned_of_nat take_bit_nat_def mod_mod_cancel)

lemma fips_H0_init: "fips_H0 = ctx_s SHA256_INIT"
  by code_simp

lemma length_fips_H0 [simp]: "length fips_H0 = 8"
  by (simp add: fips_H0_init SHA256_INIT_def)

lemma sha_rep_init: "sha_rep sha256_init []"
  by (simp add: sha_rep_def sha_parts_def sha256_init_def fips_H0_init SHA256_INIT_def)

lemma sha_parts_bufsize: "sha_parts ctx full tail \<Longrightarrow> unat (ctx_bytes ctx mod 64) = length tail"
proof -
  assume p: "sha_parts ctx full tail"
  then have "(length full + length tail) mod 64 = length tail"
    by (auto simp: sha_parts_def elim!: dvdE)
  moreover have "ctx_bytes ctx = of_nat (length full + length tail)"
    using p by (simp only: sha_parts_def)
  ultimately show ?thesis by (simp only: unat_mod64)
qed

lemma sha_parts_buffer:
  assumes "sha_parts ctx full tail" and "length tail + length d < 64"
  shows "sha_parts (ctx\<lparr>ctx_buf := copy_at (length tail) d (ctx_buf ctx),
                       ctx_bytes := ctx_bytes ctx + of_nat (length d)\<rparr>) full (tail @ d)"
  using assms by (auto simp: sha_parts_def copy_at_def)

lemma sha_parts_fill:
  assumes "sha_parts ctx full tail" and "k = 64 - length tail" and "length d = k"
    and "buf = copy_at (length tail) d (ctx_buf ctx)"
  shows "sha_parts (ctx\<lparr>ctx_buf := buf, ctx_bytes := ctx_bytes ctx + of_nat k,
                       ctx_s := Transform (ctx_s ctx) (chunk32 buf)\<rparr>) (full @ tail @ d) []"
proof -
  have buf: "buf = tail @ d" "length buf = 64"
    using assms by (auto simp: sha_parts_def copy_at_def)
  then have "Transform (ctx_s ctx) (chunk32 buf) = fips_blocks fips_H0 (full @ buf)"
    using assms(1) fips_blocks_one [of buf "fips_blocks fips_H0 full" "[]"]
    by (simp add: sha_parts_def Transform_compress fips_blocks_append)
  with buf assms show ?thesis by (auto simp: sha_parts_def add.assoc)
qed

lemma add_chunks_parts:
  assumes "sha_parts ctx full []" and "add_chunks ctx d = (ctx', rest)"
  shows "\<exists>blocks. d = blocks @ rest \<and> length rest < 64 \<and> sha_parts ctx' (full @ blocks) []"
  using assms
proof (induction ctx d arbitrary: full rule: add_chunks.induct)
  case (1 ctx d)
  show ?case
  proof (cases "length d \<ge> 64")
    case False
    with 1(2,3) show ?thesis by (subst (asm) add_chunks.simps) auto
  next
    case True
    let ?c = "ctx\<lparr>ctx_s := Transform (ctx_s ctx) (chunk32 (take 64 d)), ctx_bytes := ctx_bytes ctx + 64\<rparr>"
    have "sha_parts ?c (full @ take 64 d) []"
      using 1(2) True fips_blocks_one [of "take 64 d" "fips_blocks fips_H0 full" "[]"]
      by (auto simp: sha_parts_def Transform_compress fips_blocks_append)
    moreover have "add_chunks ?c (drop 64 d) = (ctx', rest)"
      using 1(3) True by (subst (asm) add_chunks.simps) simp
    ultimately obtain blocks where "drop 64 d = blocks @ rest" "length rest < 64"
      "sha_parts ctx' ((full @ take 64 d) @ blocks) []" using 1(1) [OF True] by blast
    then show ?thesis by (metis append.assoc append_take_drop_id)
  qed
qed

lemma sha_rep_add:
  assumes "sha_rep ctx m"
  shows "sha_rep (sha256_add ctx d) (m @ d)"
proof -
  from assms obtain full tail where m: "m = full @ tail" and p: "sha_parts ctx full tail"
    by (auto simp: sha_rep_def)
  have bs: "unat (ctx_bytes ctx mod 64) = length tail" using p by (rule sha_parts_bufsize)
  show ?thesis
  proof (cases "length tail + length d \<ge> 64")
    case False
    then have "add_chunks ctx d = (ctx, d)" by (subst add_chunks.simps) simp
    moreover have "m @ d = full @ (tail @ d)" by (simp add: m)
    ultimately show ?thesis
      using sha_parts_buffer [OF p, of d] p False
      by (auto simp: sha256_add_def bs Let_def sha_rep_def m)
  next
    case True
    let ?k = "64 - length tail"
    let ?buf = "copy_at (length tail) (take ?k d) (ctx_buf ctx)"
    let ?c = "ctx\<lparr>ctx_buf := ?buf, ctx_bytes := ctx_bytes ctx + of_nat ?k,
                  ctx_s := Transform (ctx_s ctx) (chunk32 ?buf)\<rparr>"
    have c: "sha_parts ?c (full @ tail @ take ?k d) []"
      using True by (intro sha_parts_fill [OF p]) auto
    obtain ctx' rest where a: "add_chunks ?c (drop ?k d) = (ctx', rest)" by (rule prod.exhaust)
    from add_chunks_parts [OF c a] obtain blocks where
      b: "drop ?k d = blocks @ rest" "length rest < 64"
         "sha_parts ctx' ((full @ tail @ take ?k d) @ blocks) []" by auto
    have "m @ d = ((full @ tail @ take ?k d) @ blocks) @ rest"
      by (simp add: m b(1) [symmetric])
    moreover have "sha256_add ctx d =
      (if length rest \<noteq> 0 then ctx'\<lparr>ctx_buf := copy_at 0 rest (ctx_buf ctx'),
          ctx_bytes := ctx_bytes ctx' + of_nat (length rest)\<rparr> else ctx')"
      using True a by (simp add: sha256_add_def bs Let_def)
    ultimately show ?thesis
      using sha_repI [OF sha_parts_buffer [OF b(3), of rest]] sha_repI [OF b(3)] b(2)
      by (cases "rest = []") simp_all
  qed
qed

lemma sha_rep_s: "sha_rep ctx m \<Longrightarrow> ctx_s ctx = fips_blocks fips_H0 m"
  by (auto simp: sha_rep_def sha_parts_def fips_blocks_append)

lemma sha_rep_bytes: "sha_rep ctx m \<Longrightarrow> ctx_bytes ctx = of_nat (length m)"
  by (auto simp: sha_rep_def sha_parts_def)

lemma sha_pad_bytes:
  assumes "sha_rep ctx m"
  shows "m @ take (1 + (128 - 8 - unat (ctx_bytes ctx mod 64) - 1) mod 64) sha256_pad
         @ le_bytes 8 (cpu_to_be64 (push_bit 3 (ctx_bytes ctx))) = fips_pad m"
proof -
  have "(119 - length m mod 64) mod 64 < 64" by simp
  moreover have "push_bit 3 (of_nat (length m) :: u64) = of_nat (8 * length m)"
    by (simp add: push_bit_eq_mult)
  ultimately show ?thesis
    by (simp add: sha_rep_bytes [OF assms] unat_mod64 fips_pad_def sha256_pad_def min_def
        le_bytes_cpu_to_be)
qed

lemma sha_rep_done:
  assumes "sha_rep ctx m"
  shows "fst (sha256_done ctx) = fips_sha256 m"
proof -
  let ?pad = "take (1 + (128 - 8 - unat (ctx_bytes ctx mod 64) - 1) mod 64) sha256_pad"
  let ?size = "le_bytes 8 (cpu_to_be64 (push_bit 3 (ctx_bytes ctx)))"
  have "sha_rep (sha256_add (sha256_add ctx ?pad) ?size) (fips_pad m)"
    using sha_rep_add [OF sha_rep_add [OF assms, of ?pad], of ?size]
    unfolding append_assoc sha_pad_bytes [OF assms] .
  from sha_rep_s [OF this] show ?thesis
    by (simp only: sha256_done_def Let_def fips_sha256_def le_bytes_cpu_to_be fst_conv)
qed

section \<open>Incremental hashing as a contract\<close>

text \<open>
  What the callers of the hash rely on: a context stands for the message fed to it so far, and
  finishing it gives the hash of that message.
\<close>

locale incremental_hash =
  fixes init :: 'c
    and upd :: "'c \<Rightarrow> bytes \<Rightarrow> 'c"
    and fin :: "'c \<Rightarrow> bytes"
    and rep :: "'c \<Rightarrow> bytes \<Rightarrow> bool"
    and hash :: "bytes \<Rightarrow> bytes"
  assumes rep_init: "rep init []"
    and rep_upd: "rep c m \<Longrightarrow> rep (upd c d) (m @ d)"
    and rep_fin: "rep c m \<Longrightarrow> fin c = hash m"
begin

lemma rep_fold: "rep c m \<Longrightarrow> rep (fold (\<lambda>d c. upd c d) ds c) (m @ concat ds)"
proof (induction ds arbitrary: c m)
  case (Cons d ds)
  from Cons.IH [OF rep_upd [OF Cons.prems]] show ?case by simp
qed simp

lemma fin_fold: "fin (fold (\<lambda>d c. upd c d) ds init) = hash (concat ds)"
  using rep_fin [OF rep_fold [OF rep_init]] by simp

end

interpretation sha: incremental_hash sha256_init sha256_add "\<lambda>ctx. fst (sha256_done ctx)"
  sha_rep fips_sha256
  by unfold_locales (rule sha_rep_init sha_rep_add sha_rep_done, assumption?)+

text \<open>A sequence of \<open>sha256_update\<close> calls, each of which first checks the context.\<close>

fun sha256_updates :: "sha256_ctx \<Rightarrow> bytes list \<Rightarrow> sha256_ctx outcome" where
  "sha256_updates ctx [] = Ret ctx"
| "sha256_updates ctx (d # ds) = bind_outcome (sha256_update ctx d) (\<lambda>ctx. sha256_updates ctx ds)"

lemma check_ok: "sha_rep ctx m \<Longrightarrow> length m < 2 ^ 64 - 1 \<Longrightarrow> check_sha256 ctx = Ret ()"
proof -
  assume r: "sha_rep ctx m" and l: "length m < 2 ^ 64 - 1"
  have "unat (of_nat (length m) :: u64) = length m"
    using l by (simp add: unsigned_of_nat take_bit_nat_eq_self)
  moreover have "unat (- 1 :: u64) = 2 ^ 64 - 1"
    by (simp add: unsigned_minus_1_eq_mask mask_eq_exp_minus_1)
  ultimately have "(of_nat (length m) :: u64) \<noteq> - 1" using l by force
  then show ?thesis by (simp add: check_sha256_def sha_rep_bytes [OF r])
qed

lemma sha256_updates_ok:
  "sha_rep ctx m \<Longrightarrow> length (m @ concat ds) < 2 ^ 64 - 1 \<Longrightarrow>
   sha256_updates ctx ds = Ret (fold (\<lambda>d c. sha256_add c d) ds ctx)"
proof (induction ds arbitrary: ctx m)
  case (Cons d ds)
  have "sha256_update ctx d = Ret (sha256_add ctx d)"
    using check_ok [OF Cons.prems(1)] Cons.prems(2) by (simp add: sha256_update_def)
  then show ?case using Cons.IH [OF sha_rep_add [OF Cons.prems(1)]] Cons.prems(2) by simp
qed simp

lemma sha256_fips: "sha256 p = Ret (fips_sha256 p)"
proof -
  have "check_sha256 sha256_init = Ret ()"
    by (simp add: check_sha256_def sha256_init_def SHA256_INIT_def)
  then show ?thesis
    using sha_rep_done [OF sha_rep_add [OF sha_rep_init]] by (simp add: sha256_def sha256_update_def)
qed

lemma length_fips_sha256 [simp]: "length (fips_sha256 m) = 32"
proof -
  have "length (concat (map (be_bytes 4) ws)) = 4 * length ws" for ws :: "u32 list"
    by (induction ws) auto
  then show ?thesis by (simp add: fips_sha256_def)
qed

section \<open>Properties\<close>

text \<open>
  The unrolled \<open>Transform\<close> of the source is the SHA-256 compression function of FIPS 180-4: on
  every chaining value and every 64-byte block, the 64 in-place round statements over rotating
  registers and sixteen recycled schedule variables compute what the standard's 64 rounds over the
  message schedule compute.
\<close>

theorem Transform_is_compression:
  assumes "length M = 64" and "length s = 8"
  shows "Transform s (chunk32 M) = fips_compress s M \<and> length (Transform s (chunk32 M)) = 8"
  using Transform_compress [OF assms] length_fips_compress [OF assms] by simp

theorem Transform_is_compression_witness:
  "Transform (replicate 8 0) (chunk32 (replicate 64 0)) = fips_compress (replicate 8 0) (replicate 64 0) \<and>
   length (Transform (replicate 8 0) (chunk32 (replicate 64 0))) = 8"
  by (rule Transform_is_compression) simp_all

text \<open>
  C27. \<open>sha256\<close> never fails its assertion and returns the SHA-256 hash of its input as FIPS 180-4
  defines it, 32 bytes long.
\<close>

theorem sha256_correct: "sha256 p = Ret (fips_sha256 p) \<and> length (fips_sha256 p) = 32"
  by (simp add: sha256_fips)

text \<open>
  C28. Hashing is incremental: feeding a message in any sequence of pieces through \<open>sha256_update\<close>
  never fails the assertion, and \<open>sha256_done\<close> then gives the hash of the concatenation.
\<close>

theorem sha256_incremental:
  assumes "length (concat ds) < 2 ^ 64 - 1"
  shows "\<exists>ctx. sha256_updates sha256_init ds = Ret ctx \<and>
               fst (sha256_done ctx) = fips_sha256 (concat ds)"
  using sha256_updates_ok [OF sha_rep_init, of ds] sha.fin_fold [of ds] assms by simp

theorem sha256_incremental_witness:
  "\<exists>ctx. sha256_updates sha256_init [[1, 2], [3]] = Ret ctx \<and>
         fst (sha256_done ctx) = fips_sha256 [1, 2, 3]"
  using sha256_incremental [of "[[1, 2], [3]]"] by simp

end
