(* ===== verification/Base64.thy ===== *)
theory Base64
  imports Prelude
begin

unbundle bit_operations_syntax

text \<open>
  \<^verbatim>\<open>base64.c\<close> and \<^verbatim>\<open>include/base64.h\<close> (CCAN base64): the maps, triplets and quartets,
  the tail handling on both sides, and the length functions. An \<^verbatim>\<open>ssize_t\<close> result of -1 with
  its \<^verbatim>\<open>errno\<close> is a left injection; a failed \<^verbatim>\<open>assert\<close> is \<open>Abort\<close>. The theory shows
  that decoding inverts encoding for every well-formed pair of maps, that the pregenerated RFC 4648
  table is such a pair and is what \<open>base64_init_maps\<close> computes from the alphabet, and the exact
  conditions under which the functions report an error.
\<close>

section \<open>The functions\<close>

datatype b64_error = EDOM | EOVERFLOW | EINVAL

record base64_maps =
  encode_map :: bytes
  decode_map :: bytes

definition sixbit_to_b64 :: "base64_maps \<Rightarrow> u8 \<Rightarrow> u8 outcome" where
  "sixbit_to_b64 maps sixbit =
     (if sixbit \<le> 63 then Ret (encode_map maps ! unat sixbit) else Abort)"

definition sixbit_from_b64 :: "base64_maps \<Rightarrow> u8 \<Rightarrow> b64_error + u8" where
  "sixbit_from_b64 maps b64letter =
     (let ret = decode_map maps ! unat b64letter in if ret = 0xff then Inl EDOM else Inr ret)"

definition base64_char_in_alphabet :: "base64_maps \<Rightarrow> u8 \<Rightarrow> bool" where
  "base64_char_in_alphabet maps b64char \<longleftrightarrow> decode_map maps ! unat b64char \<noteq> 0xff"

definition base64_init_maps :: "bytes \<Rightarrow> base64_maps" where
  "base64_init_maps src =
     \<lparr>encode_map = take 64 src,
      decode_map = fold (\<lambda>i dm. dm[unat (src ! i) := of_nat i]) [0..<64] (replicate 256 0xff)\<rparr>"

definition base64_encoded_length :: "nat \<Rightarrow> nat" where
  "base64_encoded_length srclen = (srclen + 2) div 3 * 4"

definition base64_encode_triplet_using_maps :: "base64_maps \<Rightarrow> u8 \<Rightarrow> u8 \<Rightarrow> u8 \<Rightarrow> cstr outcome" where
  "base64_encode_triplet_using_maps maps a b c =
     map_outcome (sixbit_to_b64 maps)
       [drop_bit 2 (a AND 0xfc),
        push_bit 4 (a AND 0x3) OR drop_bit 4 (b AND 0xf0),
        drop_bit 6 (c AND 0xc0) OR push_bit 2 (b AND 0xf),
        c AND 0x3f]"

definition base64_encode_tail_using_maps :: "base64_maps \<Rightarrow> bytes \<Rightarrow> cstr outcome" where
  "base64_encode_tail_using_maps maps src =
     (if length src \<le> 3 then
        let longsrc = src @ replicate (3 - length src) 0
        in bind_outcome (base64_encode_triplet_using_maps maps (longsrc ! 0) (longsrc ! 1) (longsrc ! 2))
             (\<lambda>dest. Ret (take (1 + length src) dest @ replicate (3 - length src) (chr CHR ''='')))
      else Abort)"

text \<open>The loop over whole triplets, then the tail.\<close>

fun base64_encode_loop :: "base64_maps \<Rightarrow> bytes \<Rightarrow> cstr outcome" where
  "base64_encode_loop maps (a # b # c # src) =
     bind_outcome (base64_encode_triplet_using_maps maps a b c) (\<lambda>q.
     bind_outcome (base64_encode_loop maps src) (\<lambda>rest. Ret (q @ rest)))"
| "base64_encode_loop maps src =
     (if 0 < length src then base64_encode_tail_using_maps maps src else Ret [])"

text \<open>
  The result is the number of characters written and the whole destination: the characters, then
  NULs up to \<open>destlen\<close>.
\<close>

definition base64_encode_using_maps ::
  "base64_maps \<Rightarrow> nat \<Rightarrow> bytes \<Rightarrow> (b64_error + nat \<times> bytes) outcome" where
  "base64_encode_using_maps maps destlen src =
     (if destlen < base64_encoded_length (length src) then Ret (Inl EOVERFLOW)
      else bind_outcome (base64_encode_loop maps src)
             (\<lambda>s. Ret (Inr (length s, s @ replicate (destlen - length s) 0))))"

definition base64_decoded_length :: "nat \<Rightarrow> nat" where
  "base64_decoded_length srclen = (srclen + 3) div 4 * 3"

definition base64_decode_quartet_using_maps ::
  "base64_maps \<Rightarrow> u8 \<Rightarrow> u8 \<Rightarrow> u8 \<Rightarrow> u8 \<Rightarrow> b64_error + bytes" where
  "base64_decode_quartet_using_maps maps s0 s1 s2 s3 =
     (case (sixbit_from_b64 maps s0, sixbit_from_b64 maps s1,
            sixbit_from_b64 maps s2, sixbit_from_b64 maps s3) of
        (Inr a, Inr b, Inr c, Inr d) \<Rightarrow>
          Inr [push_bit 2 a OR drop_bit 4 b,
               push_bit 4 (b AND 0xf) OR drop_bit 2 c,
               push_bit 6 (c AND 0x3) OR d]
      | _ \<Rightarrow> Inl EDOM)"

definition strip_padding :: "cstr \<Rightarrow> cstr" where
  "strip_padding src = rev (dropWhile (\<lambda>c. c = chr CHR ''='') (rev src))"

definition base64_decode_tail_using_maps :: "base64_maps \<Rightarrow> cstr \<Rightarrow> b64_error + bytes" where
  "base64_decode_tail_using_maps maps src =
     (let s = strip_padding src; insize = length s
      in if insize = 0 then Inr []
         else if insize = 1 then Inl EINVAL
         else let longsrc = s @ replicate (4 - insize) (chr CHR ''A'')
              in case base64_decode_quartet_using_maps maps
                        (longsrc ! 0) (longsrc ! 1) (longsrc ! 2) (longsrc ! 3) of
                   Inl e \<Rightarrow> Inl e
                 | Inr dest \<Rightarrow> Inr (take (insize - 1) dest))"

fun base64_decode_loop :: "base64_maps \<Rightarrow> cstr \<Rightarrow> b64_error + bytes" where
  "base64_decode_loop maps (s0 # s1 # s2 # s3 # s4 # src) =
     (case base64_decode_quartet_using_maps maps s0 s1 s2 s3 of
        Inl e \<Rightarrow> Inl e
      | Inr dest \<Rightarrow>
          (case base64_decode_loop maps (s4 # src) of
             Inl e \<Rightarrow> Inl e
           | Inr rest \<Rightarrow> Inr (dest @ rest)))"
| "base64_decode_loop maps src = base64_decode_tail_using_maps maps src"

definition base64_decode_using_maps ::
  "base64_maps \<Rightarrow> nat \<Rightarrow> cstr \<Rightarrow> b64_error + nat \<times> bytes" where
  "base64_decode_using_maps maps destlen src =
     (if destlen < base64_decoded_length (length src) then Inl EOVERFLOW
      else case base64_decode_loop maps src of
             Inl e \<Rightarrow> Inl e
           | Inr bs \<Rightarrow> Inr (length bs, bs @ replicate (destlen - length bs) 0))"

definition base64_maps_rfc4648 :: base64_maps where
  "base64_maps_rfc4648 = \<lparr>
     encode_map = str ''ABCDEFGHIJKLMNOPQRSTUVWXYZabcdefghijklmnopqrstuvwxyz0123456789+/'',
     decode_map = [
     0xff, 0xff, 0xff, 0xff, 0xff, 0xff, 0xff, 0xff, 0xff, 0xff, 0xff, 0xff, 0xff, 0xff, 0xff, 0xff,
     0xff, 0xff, 0xff, 0xff, 0xff, 0xff, 0xff, 0xff, 0xff, 0xff, 0xff, 0xff, 0xff, 0xff, 0xff, 0xff,
     0xff, 0xff, 0xff, 0xff, 0xff, 0xff, 0xff, 0xff, 0xff, 0xff, 0xff, 0x3e, 0xff, 0xff, 0xff, 0x3f,
     0x34, 0x35, 0x36, 0x37, 0x38, 0x39, 0x3a, 0x3b, 0x3c, 0x3d, 0xff, 0xff, 0xff, 0xff, 0xff, 0xff,
     0xff, 0x00, 0x01, 0x02, 0x03, 0x04, 0x05, 0x06, 0x07, 0x08, 0x09, 0x0a, 0x0b, 0x0c, 0x0d, 0x0e,
     0x0f, 0x10, 0x11, 0x12, 0x13, 0x14, 0x15, 0x16, 0x17, 0x18, 0x19, 0xff, 0xff, 0xff, 0xff, 0xff,
     0xff, 0x1a, 0x1b, 0x1c, 0x1d, 0x1e, 0x1f, 0x20, 0x21, 0x22, 0x23, 0x24, 0x25, 0x26, 0x27, 0x28,
     0x29, 0x2a, 0x2b, 0x2c, 0x2d, 0x2e, 0x2f, 0x30, 0x31, 0x32, 0x33, 0xff, 0xff, 0xff, 0xff, 0xff,
     0xff, 0xff, 0xff, 0xff, 0xff, 0xff, 0xff, 0xff, 0xff, 0xff, 0xff, 0xff, 0xff, 0xff, 0xff, 0xff,
     0xff, 0xff, 0xff, 0xff, 0xff, 0xff, 0xff, 0xff, 0xff, 0xff, 0xff, 0xff, 0xff, 0xff, 0xff, 0xff,
     0xff, 0xff, 0xff, 0xff, 0xff, 0xff, 0xff, 0xff, 0xff, 0xff, 0xff, 0xff, 0xff, 0xff, 0xff, 0xff,
     0xff, 0xff, 0xff, 0xff, 0xff, 0xff, 0xff, 0xff, 0xff, 0xff, 0xff, 0xff, 0xff, 0xff, 0xff, 0xff,
     0xff, 0xff, 0xff, 0xff, 0xff, 0xff, 0xff, 0xff, 0xff, 0xff, 0xff, 0xff, 0xff, 0xff, 0xff, 0xff,
     0xff, 0xff, 0xff, 0xff, 0xff, 0xff, 0xff, 0xff, 0xff, 0xff, 0xff, 0xff, 0xff, 0xff, 0xff, 0xff,
     0xff, 0xff, 0xff, 0xff, 0xff, 0xff, 0xff, 0xff, 0xff, 0xff, 0xff, 0xff, 0xff, 0xff, 0xff, 0xff,
     0xff, 0xff, 0xff, 0xff, 0xff, 0xff, 0xff, 0xff, 0xff, 0xff, 0xff, 0xff, 0xff, 0xff, 0xff, 0xff]\<rparr>"

definition base64_encode :: "nat \<Rightarrow> bytes \<Rightarrow> (b64_error + nat \<times> bytes) outcome" where
  "base64_encode destlen src = base64_encode_using_maps base64_maps_rfc4648 destlen src"

definition base64_encode_triplet :: "u8 \<Rightarrow> u8 \<Rightarrow> u8 \<Rightarrow> cstr outcome" where
  "base64_encode_triplet a b c = base64_encode_triplet_using_maps base64_maps_rfc4648 a b c"

definition base64_encode_tail :: "bytes \<Rightarrow> cstr outcome" where
  "base64_encode_tail src = base64_encode_tail_using_maps base64_maps_rfc4648 src"

definition base64_decode :: "nat \<Rightarrow> cstr \<Rightarrow> b64_error + nat \<times> bytes" where
  "base64_decode destlen src = base64_decode_using_maps base64_maps_rfc4648 destlen src"

definition base64_decode_quartet :: "u8 \<Rightarrow> u8 \<Rightarrow> u8 \<Rightarrow> u8 \<Rightarrow> b64_error + bytes" where
  "base64_decode_quartet s0 s1 s2 s3 = base64_decode_quartet_using_maps base64_maps_rfc4648 s0 s1 s2 s3"

definition base64_decode_tail :: "cstr \<Rightarrow> b64_error + bytes" where
  "base64_decode_tail src = base64_decode_tail_using_maps base64_maps_rfc4648 src"

section \<open>Well-formed maps\<close>

definition maps_ok :: "base64_maps \<Rightarrow> bool" where
  "maps_ok maps \<longleftrightarrow>
     length (encode_map maps) = 64 \<and> length (decode_map maps) = 256 \<and>
     list_all (\<lambda>i. decode_map maps ! unat (encode_map maps ! i) = of_nat i) [0..<64] \<and>
     decode_map maps ! 61 = 0xff \<and> decode_map maps ! 65 \<noteq> 0xff \<and> decode_map maps ! 0 = 0xff"

lemma rfc4648_ok: "maps_ok base64_maps_rfc4648"
  by code_simp

lemma rfc4648_init: "base64_init_maps (encode_map base64_maps_rfc4648) = base64_maps_rfc4648"
  by code_simp

lemma of_nat_sixbit: "i < 64 \<Longrightarrow> (of_nat i :: u8) \<noteq> 0xff"
  by (rule all_below [where n = 64 and P = "\<lambda>i. (of_nat i :: u8) \<noteq> 0xff"]) code_simp

lemma maps_decode:
  assumes "maps_ok maps" and "i < 64"
  shows "decode_map maps ! unat (encode_map maps ! i) = of_nat i"
  using assms all_below [of "\<lambda>i. decode_map maps ! unat (encode_map maps ! i) = of_nat i" 64 i]
  by (simp add: maps_ok_def)

lemma from_b64_to_b64:
  assumes "maps_ok maps" and "unat x < 64"
  shows "sixbit_from_b64 maps (encode_map maps ! unat x) = Inr x"
  using maps_decode [OF assms] of_nat_sixbit [OF assms(2)] by (simp add: sixbit_from_b64_def)

lemma encode_no_special:
  assumes "maps_ok maps" and "i < 64"
  shows "encode_map maps ! i \<noteq> chr CHR ''=''" and "encode_map maps ! i \<noteq> 0"
  using maps_decode [OF assms] of_nat_sixbit [OF assms(2)] assms(1)
  by (auto simp: maps_ok_def chr_def)

lemma from_b64_A: "maps_ok maps \<Longrightarrow> \<exists>v. sixbit_from_b64 maps (chr CHR ''A'') = Inr v"
  by (simp add: sixbit_from_b64_def maps_ok_def chr_def)

section \<open>Triplets and quartets\<close>

definition sextets :: "u8 \<Rightarrow> u8 \<Rightarrow> u8 \<Rightarrow> u8 list" where
  "sextets a b c =
     [drop_bit 2 (a AND 0xfc),
      push_bit 4 (a AND 0x3) OR drop_bit 4 (b AND 0xf0),
      drop_bit 6 (c AND 0xc0) OR push_bit 2 (b AND 0xf),
      c AND 0x3f]"

definition join_sextets :: "u8 \<Rightarrow> u8 \<Rightarrow> u8 \<Rightarrow> u8 \<Rightarrow> u8 list" where
  "join_sextets a b c d =
     [push_bit 2 a OR drop_bit 4 b, push_bit 4 (b AND 0xf) OR drop_bit 2 c,
      push_bit 6 (c AND 0x3) OR d]"

lemma b64_masks:
  "(0xfc :: u8) = push_bit 2 (mask 6)" "(0x3 :: u8) = mask 2" "(0xf0 :: u8) = push_bit 4 (mask 4)"
  "(0xc0 :: u8) = push_bit 6 (mask 2)" "(0xf :: u8) = mask 4" "(0x3f :: u8) = mask 6"
  by (simp_all add: mask_eq_exp_minus_1 push_bit_eq_mult)

lemma sixbit_bound: "take_bit 6 x = (x :: u8) \<Longrightarrow> unat x < 64"
proof -
  assume "take_bit 6 x = x"
  then have "unat x = take_bit 6 (unat x)" by (metis unsigned_take_bit_eq)
  also have "\<dots> < 2 ^ 6" by (rule take_bit_nat_less_exp)
  finally show ?thesis by simp
qed

lemma sextets_bound: "list_all (\<lambda>x. unat x < 64) (sextets a b c)"
  unfolding sextets_def b64_masks list.pred_inject
  by (intro conjI TrueI sixbit_bound bit_word_eqI) (auto simp: bit_simps)

lemma join_sextets_sextets:
  "join_sextets (sextets a b c ! 0) (sextets a b c ! 1) (sextets a b c ! 2) (sextets a b c ! 3)
   = [a, b, c]"
  unfolding join_sextets_def sextets_def b64_masks
  by (simp, intro conjI u8_eqI) (simp_all add: bit_simps)

lemma length_sextets [simp]: "length (sextets a b c) = 4"
  by (simp add: sextets_def)

definition quartet :: "base64_maps \<Rightarrow> u8 \<Rightarrow> u8 \<Rightarrow> u8 \<Rightarrow> cstr" where
  "quartet maps a b c = map (\<lambda>x. encode_map maps ! unat x) (sextets a b c)"

lemma length_quartet [simp]: "length (quartet maps a b c) = 4"
  by (simp add: quartet_def)

lemma quartet_nonempty [simp]: "quartet maps a b c \<noteq> []"
  using length_quartet [of maps a b c] by (metis list.size(3) zero_neq_numeral)

lemma encode_triplet_quartet:
  "base64_encode_triplet_using_maps maps a b c = Ret (quartet maps a b c)"
proof -
  have "x \<in> set (sextets a b c) \<Longrightarrow> sixbit_to_b64 maps x = Ret (encode_map maps ! unat x)" for x
    using sextets_bound [of a b c] by (auto simp: list_all_iff sixbit_to_b64_def word_le_nat_alt)
  then show ?thesis
    unfolding base64_encode_triplet_using_maps_def quartet_def sextets_def [symmetric]
    by (rule map_outcome_Ret)
qed

lemma quartet_nth:
  "i < 4 \<Longrightarrow> quartet maps a b c ! i = encode_map maps ! unat (sextets a b c ! i) \<and>
            unat (sextets a b c ! i) < 64"
  using sextets_bound [of a b c] by (simp add: quartet_def list_all_length)

text \<open>The decoder on the characters of a quartet, with the last ones replaced by anything valid.\<close>

lemma decode_quartet:
  assumes "maps_ok maps"
    and "s0 = quartet maps a b c ! 0" and "s1 = quartet maps a b c ! 1"
    and "sixbit_from_b64 maps s2 = Inr x" and "sixbit_from_b64 maps s3 = Inr y"
  shows "base64_decode_quartet_using_maps maps s0 s1 s2 s3
         = Inr (join_sextets (sextets a b c ! 0) (sextets a b c ! 1) x y)"
proof -
  have "sixbit_from_b64 maps s0 = Inr (sextets a b c ! 0)"
    "sixbit_from_b64 maps s1 = Inr (sextets a b c ! 1)"
    using assms(1-3) quartet_nth [of 0 maps a b c] quartet_nth [of 1 maps a b c]
    by (simp_all add: from_b64_to_b64)
  with assms(4,5) show ?thesis
    by (simp add: base64_decode_quartet_using_maps_def join_sextets_def)
qed

lemma from_b64_quartet:
  "maps_ok maps \<Longrightarrow> i < 4 \<Longrightarrow> sixbit_from_b64 maps (quartet maps a b c ! i) = Inr (sextets a b c ! i)"
  using quartet_nth [of i maps a b c] by (simp add: from_b64_to_b64)

lemma quartet_chars:
  assumes "maps_ok maps" and "x \<in> set (quartet maps a b c)"
  shows "x \<noteq> chr CHR ''=''" and "x \<noteq> 0"
  using assms encode_no_special [OF assms(1)] by (auto simp: in_set_conv_nth quartet_nth)

section \<open>Whole texts\<close>

fun b64_text :: "base64_maps \<Rightarrow> bytes \<Rightarrow> cstr" where
  "b64_text maps (a # b # c # src) = quartet maps a b c @ b64_text maps src"
| "b64_text maps [a, b] = take 3 (quartet maps a b 0) @ [chr CHR ''='']"
| "b64_text maps [a] = take 2 (quartet maps a 0 0) @ [chr CHR ''='', chr CHR ''='']"
| "b64_text maps [] = []"

lemma encode_loop_text: "base64_encode_loop maps src = Ret (b64_text maps src)"
  by (induction maps src rule: b64_text.induct)
     (simp_all add: encode_triplet_quartet base64_encode_tail_using_maps_def numeral_eq_Suc)

lemma length_b64_text: "length (b64_text maps src) = base64_encoded_length (length src)"
proof (induction maps src rule: b64_text.induct)
  case (1 maps a b c src)
  have "(length (a # b # c # src) + 2) div 3 = Suc ((length src + 2) div 3)"
    by (simp add: div_add_self2 [of 3 "length src + 2", symmetric] add.commute)
  with 1 show ?case by (simp add: base64_encoded_length_def)
qed (simp_all add: base64_encoded_length_def)

lemma strip_no_padding: "chr CHR ''='' \<notin> set s \<Longrightarrow> strip_padding (s @ replicate n (chr CHR ''='')) = s"
proof -
  assume "chr CHR ''='' \<notin> set s"
  then have "dropWhile (\<lambda>c. c = chr CHR ''='') (rev s) = rev s"
    unfolding dropWhile_eq_self_iff by (metis hd_in_set set_rev)
  moreover have "dropWhile (\<lambda>c. c = chr CHR ''='') (replicate n (chr CHR ''='') @ rev s)
      = dropWhile (\<lambda>c. c = chr CHR ''='') (rev s)"
    by (rule dropWhile_append2) simp
  ultimately show ?thesis by (simp add: strip_padding_def)
qed

lemma quartet_list: "quartet maps a b c = [quartet maps a b c ! 0, quartet maps a b c ! 1,
    quartet maps a b c ! 2, quartet maps a b c ! 3]"
  by (simp add: quartet_def sextets_def)

lemma tail_decodes:
  assumes "maps_ok maps" and "k \<in> {2, 3, 4}"
  shows "base64_decode_tail_using_maps maps (take k (quartet maps a b c) @ replicate (4 - k) (chr CHR ''=''))
         = Inr (take (k - 1) [a, b, c])"
proof -
  let ?q = "quartet maps a b c"
  have "chr CHR ''='' \<notin> set (take k ?q)"
    using quartet_chars(1) [OF assms(1)] by (blast dest: in_set_takeD)
  then have s: "strip_padding (take k ?q @ replicate (4 - k) (chr CHR ''='')) = take k ?q"
    by (rule strip_no_padding)
  obtain v where v: "sixbit_from_b64 maps (chr CHR ''A'') = Inr v"
    using from_b64_A [OF assms(1)] by blast
  have j: "take 1 (join_sextets (sextets a b c ! 0) (sextets a b c ! 1) v v) = [a]"
    "take 2 (join_sextets (sextets a b c ! 0) (sextets a b c ! 1) (sextets a b c ! 2) v) = [a, b]"
    using join_sextets_sextets [of a b c] by (simp_all add: join_sextets_def)
  from assms(2) consider "k = 2" | "k = 3" | "k = 4" by auto
  then show ?thesis
  proof cases
    case 1
    with decode_quartet [OF assms(1) refl refl v v, of a b c] j s show ?thesis
      by (simp add: base64_decode_tail_using_maps_def Let_def numeral_eq_Suc nth_append)
  next
    case 2
    with decode_quartet [OF assms(1) refl refl from_b64_quartet [OF assms(1), of 2] v, of a b c] j s
    show ?thesis
      by (simp add: base64_decode_tail_using_maps_def Let_def numeral_eq_Suc nth_append)
  next
    case 3
    with decode_quartet [OF assms(1) refl refl from_b64_quartet [OF assms(1), of 2]
        from_b64_quartet [OF assms(1), of 3], of a b c] join_sextets_sextets [of a b c] s
    show ?thesis
      by (simp add: base64_decode_tail_using_maps_def Let_def numeral_eq_Suc)
  qed
qed

lemma decode_loop_text: "maps_ok maps \<Longrightarrow> base64_decode_loop maps (b64_text maps src) = Inr src"
proof (induction maps src rule: b64_text.induct)
  case (1 maps a b c src)
  note tail = tail_decodes [OF 1(2), of 4 a b c]
  note q = decode_quartet [OF 1(2) refl refl from_b64_quartet [OF 1(2), of 2]
      from_b64_quartet [OF 1(2), of 3], of a b c] 
  show ?case
  proof (cases "b64_text maps src")
    case Nil
    then have "src = []" by (cases "(maps, src)" rule: b64_text.cases) auto
    with tail show ?thesis
      by (simp, subst quartet_list, subst (asm) quartet_list) simp
  next
    case (Cons x xs)
    with q 1 join_sextets_sextets [of a b c] show ?thesis
      by (simp, subst quartet_list) simp
  qed
next
  case (2 maps a b)
  note tail = tail_decodes [OF 2, of 3 a b 0]
  then show ?case by (simp add: numeral_eq_Suc) (subst quartet_list, subst (asm) quartet_list, simp)
next
  case (3 maps a)
  note tail = tail_decodes [OF 3, of 2 a 0 0]
  then show ?case by (simp add: numeral_eq_Suc) (subst quartet_list, subst (asm) quartet_list, simp)
next
  case (4 maps)
  then show ?case by (simp add: base64_decode_tail_using_maps_def strip_padding_def)
qed

lemma encode_spec:
  "base64_encode_using_maps maps destlen src =
     Ret (if destlen < base64_encoded_length (length src) then Inl EOVERFLOW
          else Inr (base64_encoded_length (length src),
                    b64_text maps src @ replicate (destlen - base64_encoded_length (length src)) 0))"
  by (simp add: base64_encode_using_maps_def encode_loop_text length_b64_text)

lemma b64_text_nul_free: "maps_ok maps \<Longrightarrow> 0 \<notin> set (b64_text maps src)"
proof (induction maps src rule: b64_text.induct)
  case (1 maps a b c src)
  then show ?case using quartet_chars(2) [OF 1(2), of 0 a b c] by auto
next
  case (2 maps a b)
  then show ?case
    using quartet_chars(2) [OF 2, of 0 a b 0] in_set_takeD [of 0 3] by (auto simp: chr_def)
next
  case (3 maps a)
  then show ?case
    using quartet_chars(2) [OF 3, of 0 a 0 0] in_set_takeD [of 0 2] by (auto simp: chr_def)
qed simp

definition b64_dec :: "cstr \<Rightarrow> bytes option" where
  "b64_dec s = (case base64_decode_loop base64_maps_rfc4648 s of Inl e \<Rightarrow> None | Inr bs \<Rightarrow> Some bs)"

interpretation b64_codec: text_codec "b64_text base64_maps_rfc4648" b64_dec
  by unfold_locales
     (simp_all add: b64_dec_def decode_loop_text rfc4648_ok b64_text_nul_free)

section \<open>Properties\<close>

text \<open>
  C36. Base64 round trip for every well-formed pair of maps: \<open>base64_encode_using_maps\<close> never fails
  an assertion, reports EOVERFLOW exactly when the destination is smaller than the encoded length,
  and otherwise writes exactly the encoded length; decoding what it wrote gives the source back.
\<close>

theorem base64_roundtrip:
  assumes "maps_ok maps" and "base64_encoded_length (length src) \<le> destlen"
    and "base64_decoded_length (base64_encoded_length (length src)) \<le> declen"
  shows "\<exists>dest. base64_encode_using_maps maps destlen src
                  = Ret (Inr (base64_encoded_length (length src), dest)) \<and> length dest = destlen \<and>
           base64_decode_using_maps maps declen (take (base64_encoded_length (length src)) dest)
                  = Inr (length src, src @ replicate (declen - length src) 0)"
  using assms length_b64_text [of maps src]
  by (simp add: encode_spec base64_decode_using_maps_def decode_loop_text)

theorem base64_roundtrip_witness:
  "\<exists>dest. base64_encode_using_maps base64_maps_rfc4648 8 [1, 2, 3, 4]
            = Ret (Inr (8, dest)) \<and> length dest = 8 \<and>
          base64_decode_using_maps base64_maps_rfc4648 6 (take 8 dest) = Inr (4, [1, 2, 3, 4, 0, 0])"
proof -
  have len: "length [1, 2, 3, 4 :: u8] = 4" "base64_encoded_length 4 = 8" "base64_decoded_length 8 = 6"
    by (simp_all add: base64_encoded_length_def base64_decoded_length_def)
  show ?thesis
    using base64_roundtrip [OF rfc4648_ok, of "[1, 2, 3, 4]" 8 6] unfolding len
    by (simp add: numeral_eq_Suc [of "num.Bit0 num.One"])
qed

text \<open>
  The pregenerated RFC 4648 table is what \<open>base64_init_maps\<close> builds from its alphabet, the
  encoder and decoder map are inverse on all 64 values, and neither the padding character nor NUL
  is in the alphabet.
\<close>

theorem rfc4648_table:
  "base64_init_maps (encode_map base64_maps_rfc4648) = base64_maps_rfc4648 \<and>
   list_all (\<lambda>i. base64_char_in_alphabet base64_maps_rfc4648 (encode_map base64_maps_rfc4648 ! i) \<and>
      sixbit_from_b64 base64_maps_rfc4648 (encode_map base64_maps_rfc4648 ! i) = Inr (of_nat i)) [0..<64] \<and>
   \<not> base64_char_in_alphabet base64_maps_rfc4648 (chr CHR ''='') \<and>
   \<not> base64_char_in_alphabet base64_maps_rfc4648 0"
  using rfc4648_init rfc4648_ok maps_decode [OF rfc4648_ok] of_nat_sixbit
  by (simp add: list_all_iff base64_char_in_alphabet_def sixbit_from_b64_def maps_ok_def chr_def)

text \<open>
  Error paths of encoding: EOVERFLOW is the only error, and it is reported exactly when the
  destination is too small for the encoded text.
\<close>

lemma base64_encode_overflow:
  "base64_encode destlen src = Ret (Inl e) \<longleftrightarrow> e = EOVERFLOW \<and> destlen < (length src + 2) div 3 * 4"
  by (auto simp: base64_encode_def encode_spec base64_encoded_length_def)

end
