(* ===== verification/Aes.thy ===== *)
theory Aes
  imports Prelude
begin

unbundle bit_operations_syntax

text \<open>
  \<^verbatim>\<open>aes.c\<close> with AES256, the cipher of encrypted direct messages. The state
  \<^verbatim>\<open>state_t\<close> is the 16 bytes of a block, \<^verbatim>\<open>(*state)[i][j]\<close> is element
  \<open>4 * i + j\<close>; a function that updates the state in place returns the new state. The buffer
  functions of the CBC mode work on the caller's buffer and return nothing when they would
  reach beyond its end. The locale \<open>block_cipher\<close> is what the chaining modes need of the cipher:
  decryption undoes encryption on blocks of 16 bytes; the CBC round trip is proved there once and
  obtained for \<open>Cipher\<close> and \<open>InvCipher\<close> by interpretation.
\<close>

section \<open>Tables\<close>

definition Nb :: nat where "Nb = 4"
definition Nk :: nat where "Nk = 8"
definition Nr :: nat where "Nr = 14"
definition AES_BLOCKLEN :: nat where "AES_BLOCKLEN = 16"

definition sbox :: "u8 list" where
  "sbox =
    [0x63, 0x7c, 0x77, 0x7b, 0xf2, 0x6b, 0x6f, 0xc5, 0x30, 0x01, 0x67, 0x2b, 0xfe, 0xd7, 0xab, 0x76,
     0xca, 0x82, 0xc9, 0x7d, 0xfa, 0x59, 0x47, 0xf0, 0xad, 0xd4, 0xa2, 0xaf, 0x9c, 0xa4, 0x72, 0xc0,
     0xb7, 0xfd, 0x93, 0x26, 0x36, 0x3f, 0xf7, 0xcc, 0x34, 0xa5, 0xe5, 0xf1, 0x71, 0xd8, 0x31, 0x15,
     0x04, 0xc7, 0x23, 0xc3, 0x18, 0x96, 0x05, 0x9a, 0x07, 0x12, 0x80, 0xe2, 0xeb, 0x27, 0xb2, 0x75,
     0x09, 0x83, 0x2c, 0x1a, 0x1b, 0x6e, 0x5a, 0xa0, 0x52, 0x3b, 0xd6, 0xb3, 0x29, 0xe3, 0x2f, 0x84,
     0x53, 0xd1, 0x00, 0xed, 0x20, 0xfc, 0xb1, 0x5b, 0x6a, 0xcb, 0xbe, 0x39, 0x4a, 0x4c, 0x58, 0xcf,
     0xd0, 0xef, 0xaa, 0xfb, 0x43, 0x4d, 0x33, 0x85, 0x45, 0xf9, 0x02, 0x7f, 0x50, 0x3c, 0x9f, 0xa8,
     0x51, 0xa3, 0x40, 0x8f, 0x92, 0x9d, 0x38, 0xf5, 0xbc, 0xb6, 0xda, 0x21, 0x10, 0xff, 0xf3, 0xd2,
     0xcd, 0x0c, 0x13, 0xec, 0x5f, 0x97, 0x44, 0x17, 0xc4, 0xa7, 0x7e, 0x3d, 0x64, 0x5d, 0x19, 0x73,
     0x60, 0x81, 0x4f, 0xdc, 0x22, 0x2a, 0x90, 0x88, 0x46, 0xee, 0xb8, 0x14, 0xde, 0x5e, 0x0b, 0xdb,
     0xe0, 0x32, 0x3a, 0x0a, 0x49, 0x06, 0x24, 0x5c, 0xc2, 0xd3, 0xac, 0x62, 0x91, 0x95, 0xe4, 0x79,
     0xe7, 0xc8, 0x37, 0x6d, 0x8d, 0xd5, 0x4e, 0xa9, 0x6c, 0x56, 0xf4, 0xea, 0x65, 0x7a, 0xae, 0x08,
     0xba, 0x78, 0x25, 0x2e, 0x1c, 0xa6, 0xb4, 0xc6, 0xe8, 0xdd, 0x74, 0x1f, 0x4b, 0xbd, 0x8b, 0x8a,
     0x70, 0x3e, 0xb5, 0x66, 0x48, 0x03, 0xf6, 0x0e, 0x61, 0x35, 0x57, 0xb9, 0x86, 0xc1, 0x1d, 0x9e,
     0xe1, 0xf8, 0x98, 0x11, 0x69, 0xd9, 0x8e, 0x94, 0x9b, 0x1e, 0x87, 0xe9, 0xce, 0x55, 0x28, 0xdf,
     0x8c, 0xa1, 0x89, 0x0d, 0xbf, 0xe6, 0x42, 0x68, 0x41, 0x99, 0x2d, 0x0f, 0xb0, 0x54, 0xbb, 0x16]"

definition rsbox :: "u8 list" where
  "rsbox =
    [0x52, 0x09, 0x6a, 0xd5, 0x30, 0x36, 0xa5, 0x38, 0xbf, 0x40, 0xa3, 0x9e, 0x81, 0xf3, 0xd7, 0xfb,
     0x7c, 0xe3, 0x39, 0x82, 0x9b, 0x2f, 0xff, 0x87, 0x34, 0x8e, 0x43, 0x44, 0xc4, 0xde, 0xe9, 0xcb,
     0x54, 0x7b, 0x94, 0x32, 0xa6, 0xc2, 0x23, 0x3d, 0xee, 0x4c, 0x95, 0x0b, 0x42, 0xfa, 0xc3, 0x4e,
     0x08, 0x2e, 0xa1, 0x66, 0x28, 0xd9, 0x24, 0xb2, 0x76, 0x5b, 0xa2, 0x49, 0x6d, 0x8b, 0xd1, 0x25,
     0x72, 0xf8, 0xf6, 0x64, 0x86, 0x68, 0x98, 0x16, 0xd4, 0xa4, 0x5c, 0xcc, 0x5d, 0x65, 0xb6, 0x92,
     0x6c, 0x70, 0x48, 0x50, 0xfd, 0xed, 0xb9, 0xda, 0x5e, 0x15, 0x46, 0x57, 0xa7, 0x8d, 0x9d, 0x84,
     0x90, 0xd8, 0xab, 0x00, 0x8c, 0xbc, 0xd3, 0x0a, 0xf7, 0xe4, 0x58, 0x05, 0xb8, 0xb3, 0x45, 0x06,
     0xd0, 0x2c, 0x1e, 0x8f, 0xca, 0x3f, 0x0f, 0x02, 0xc1, 0xaf, 0xbd, 0x03, 0x01, 0x13, 0x8a, 0x6b,
     0x3a, 0x91, 0x11, 0x41, 0x4f, 0x67, 0xdc, 0xea, 0x97, 0xf2, 0xcf, 0xce, 0xf0, 0xb4, 0xe6, 0x73,
     0x96, 0xac, 0x74, 0x22, 0xe7, 0xad, 0x35, 0x85, 0xe2, 0xf9, 0x37, 0xe8, 0x1c, 0x75, 0xdf, 0x6e,
     0x47, 0xf1, 0x1a, 0x71, 0x1d, 0x29, 0xc5, 0x89, 0x6f, 0xb7, 0x62, 0x0e, 0xaa, 0x18, 0xbe, 0x1b,
     0xfc, 0x56, 0x3e, 0x4b, 0xc6, 0xd2, 0x79, 0x20, 0x9a, 0xdb, 0xc0, 0xfe, 0x78, 0xcd, 0x5a, 0xf4,
     0x1f, 0xdd, 0xa8, 0x33, 0x88, 0x07, 0xc7, 0x31, 0xb1, 0x12, 0x10, 0x59, 0x27, 0x80, 0xec, 0x5f,
     0x60, 0x51, 0x7f, 0xa9, 0x19, 0xb5, 0x4a, 0x0d, 0x2d, 0xe5, 0x7a, 0x9f, 0x93, 0xc9, 0x9c, 0xef,
     0xa0, 0xe0, 0x3b, 0x4d, 0xae, 0x2a, 0xf5, 0xb0, 0xc8, 0xeb, 0xbb, 0x3c, 0x83, 0x53, 0x99, 0x61,
     0x17, 0x2b, 0x04, 0x7e, 0xba, 0x77, 0xd6, 0x26, 0xe1, 0x69, 0x14, 0x63, 0x55, 0x21, 0x0c, 0x7d]"

definition Rcon :: "u8 list" where
  "Rcon = [0x8d, 0x01, 0x02, 0x04, 0x08, 0x10, 0x20, 0x40, 0x80, 0x1b, 0x36]"

definition getSBoxValue :: "u8 \<Rightarrow> u8" where
  "getSBoxValue num = sbox ! unat num"

definition getSBoxInvert :: "u8 \<Rightarrow> u8" where
  "getSBoxInvert num = rsbox ! unat num"

section \<open>Key expansion\<close>

text \<open>
  The round key array is written from the front, four bytes per step, so the bytes written so far
  are the list \<open>rk\<close> and step \<open>i\<close> appends the bytes at \<open>4 * i\<close>.
\<close>

fun RotWord :: "u8 list \<Rightarrow> u8 list" where
  "RotWord [a0, a1, a2, a3] = [a1, a2, a3, a0]"
| "RotWord xs = xs"

definition SubWord :: "u8 list \<Rightarrow> u8 list" where
  "SubWord tempa = map getSBoxValue tempa"

definition expand_step :: "nat \<Rightarrow> u8 list \<Rightarrow> u8 list" where
  "expand_step i rk =
     (let tempa = take 4 (drop ((i - 1) * 4) rk);
          tempa = (if i mod Nk = 0
                   then let w = SubWord (RotWord tempa) in w[0 := w ! 0 XOR Rcon ! (i div Nk)]
                   else tempa);
          tempa = (if i mod Nk = 4 then SubWord tempa else tempa)
      in rk @ map2 (XOR) (take 4 (drop ((i - Nk) * 4) rk)) tempa)"

definition KeyExpansion :: "bytes \<Rightarrow> bytes" where
  "KeyExpansion Key = fold expand_step [Nk..<Nb * (Nr + 1)] (take (Nk * 4) Key)"

record AES_ctx =
  RoundKey :: bytes
  Iv :: bytes

definition AES_init_ctx :: "AES_ctx \<Rightarrow> bytes \<Rightarrow> AES_ctx" where
  "AES_init_ctx ctx key = ctx\<lparr>RoundKey := KeyExpansion key\<rparr>"

definition AES_init_ctx_iv :: "AES_ctx \<Rightarrow> bytes \<Rightarrow> bytes \<Rightarrow> AES_ctx" where
  "AES_init_ctx_iv ctx key iv = ctx\<lparr>RoundKey := KeyExpansion key, Iv := take AES_BLOCKLEN iv\<rparr>"

definition AES_ctx_set_iv :: "AES_ctx \<Rightarrow> bytes \<Rightarrow> AES_ctx" where
  "AES_ctx_set_iv ctx iv = ctx\<lparr>Iv := take AES_BLOCKLEN iv\<rparr>"

section \<open>The round transformations\<close>

definition AddRoundKey :: "nat \<Rightarrow> bytes \<Rightarrow> bytes \<Rightarrow> bytes" where
  "AddRoundKey round s rk = map (\<lambda>k. s ! k XOR rk ! (round * Nb * 4 + k)) [0..<16]"

definition SubBytes :: "bytes \<Rightarrow> bytes" where
  "SubBytes s = map getSBoxValue s"

text \<open>The assignments of \<open>ShiftRows\<close> in the order of the source.\<close>

definition ShiftRows :: "bytes \<Rightarrow> bytes" where
  "ShiftRows s0 =
     (let temp = s0 ! 1;
          s1 = s0[1 := s0 ! 5]; s2 = s1[5 := s1 ! 9]; s3 = s2[9 := s2 ! 13]; s4 = s3[13 := temp];
          temp = s4 ! 2;
          s5 = s4[2 := s4 ! 10]; s6 = s5[10 := temp];
          temp = s6 ! 6;
          s7 = s6[6 := s6 ! 14]; s8 = s7[14 := temp];
          temp = s8 ! 3;
          s9 = s8[3 := s8 ! 15]; s10 = s9[15 := s9 ! 11]; s11 = s10[11 := s10 ! 7]
      in s11[7 := temp])"

definition xtime :: "u8 \<Rightarrow> u8" where
  "xtime x = push_bit 1 x XOR ((drop_bit 7 x AND 1) * 0x1b)"

definition mix_column :: "u8 \<Rightarrow> u8 \<Rightarrow> u8 \<Rightarrow> u8 \<Rightarrow> u8 list" where
  "mix_column s0 s1 s2 s3 =
     (let t = s0;
          Tmp = s0 XOR s1 XOR s2 XOR s3;
          s0 = s0 XOR (xtime (s0 XOR s1) XOR Tmp);
          s1 = s1 XOR (xtime (s1 XOR s2) XOR Tmp);
          s2 = s2 XOR (xtime (s2 XOR s3) XOR Tmp);
          s3 = s3 XOR (xtime (s3 XOR t) XOR Tmp)
      in [s0, s1, s2, s3])"

definition MixColumns :: "bytes \<Rightarrow> bytes" where
  "MixColumns s =
     concat (map (\<lambda>i. mix_column (s ! (4 * i)) (s ! (4 * i + 1)) (s ! (4 * i + 2)) (s ! (4 * i + 3))) [0..<4])"

definition Multiply :: "u8 \<Rightarrow> u8 \<Rightarrow> u8" where
  "Multiply x y =
     ((y AND 1) * x) XOR
     ((drop_bit 1 y AND 1) * xtime x) XOR
     ((drop_bit 2 y AND 1) * xtime (xtime x)) XOR
     ((drop_bit 3 y AND 1) * xtime (xtime (xtime x))) XOR
     ((drop_bit 4 y AND 1) * xtime (xtime (xtime (xtime x))))"

definition inv_mix_column :: "u8 \<Rightarrow> u8 \<Rightarrow> u8 \<Rightarrow> u8 \<Rightarrow> u8 list" where
  "inv_mix_column a b c d =
     [Multiply a 0x0e XOR Multiply b 0x0b XOR Multiply c 0x0d XOR Multiply d 0x09,
      Multiply a 0x09 XOR Multiply b 0x0e XOR Multiply c 0x0b XOR Multiply d 0x0d,
      Multiply a 0x0d XOR Multiply b 0x09 XOR Multiply c 0x0e XOR Multiply d 0x0b,
      Multiply a 0x0b XOR Multiply b 0x0d XOR Multiply c 0x09 XOR Multiply d 0x0e]"

definition InvMixColumns :: "bytes \<Rightarrow> bytes" where
  "InvMixColumns s =
     concat (map (\<lambda>i. inv_mix_column (s ! (4 * i)) (s ! (4 * i + 1)) (s ! (4 * i + 2)) (s ! (4 * i + 3))) [0..<4])"

definition InvSubBytes :: "bytes \<Rightarrow> bytes" where
  "InvSubBytes s = map getSBoxInvert s"

definition InvShiftRows :: "bytes \<Rightarrow> bytes" where
  "InvShiftRows s0 =
     (let temp = s0 ! 13;
          s1 = s0[13 := s0 ! 9]; s2 = s1[9 := s1 ! 5]; s3 = s2[5 := s2 ! 1]; s4 = s3[1 := temp];
          temp = s4 ! 2;
          s5 = s4[2 := s4 ! 10]; s6 = s5[10 := temp];
          temp = s6 ! 6;
          s7 = s6[6 := s6 ! 14]; s8 = s7[14 := temp];
          temp = s8 ! 3;
          s9 = s8[3 := s8 ! 7]; s10 = s9[7 := s9 ! 11]; s11 = s10[11 := s10 ! 15]
      in s11[15 := temp])"

section \<open>The cipher and its modes\<close>

text \<open>The loop of \<open>Cipher\<close> counts up from 1 and leaves at \<open>Nr\<close>, before mixing the columns.\<close>

function cipher_rounds :: "nat \<Rightarrow> bytes \<Rightarrow> bytes \<Rightarrow> bytes" where
  "cipher_rounds round s rk =
     (let s = ShiftRows (SubBytes s)
      in if round \<ge> Nr then s
         else cipher_rounds (round + 1) (AddRoundKey round (MixColumns s) rk) rk)"
  by pat_completeness auto
termination
  by (relation "measure (\<lambda>(round, s, rk). Nr - round)") auto

declare cipher_rounds.simps [simp del]

definition Cipher :: "bytes \<Rightarrow> bytes \<Rightarrow> bytes" where
  "Cipher s rk = AddRoundKey Nr (cipher_rounds 1 (AddRoundKey 0 s rk) rk) rk"

fun inv_cipher_rounds :: "nat \<Rightarrow> bytes \<Rightarrow> bytes \<Rightarrow> bytes" where
  "inv_cipher_rounds round s rk =
     (let s = AddRoundKey round (InvSubBytes (InvShiftRows s)) rk
      in if round = 0 then s
         else inv_cipher_rounds (round - 1) (InvMixColumns s) rk)"

declare inv_cipher_rounds.simps [simp del]

definition InvCipher :: "bytes \<Rightarrow> bytes \<Rightarrow> bytes" where
  "InvCipher s rk = inv_cipher_rounds (Nr - 1) (AddRoundKey Nr s rk) rk"

definition AES_ECB_encrypt :: "AES_ctx \<Rightarrow> bytes \<Rightarrow> bytes" where
  "AES_ECB_encrypt ctx buf = Cipher buf (RoundKey ctx)"

definition AES_ECB_decrypt :: "AES_ctx \<Rightarrow> bytes \<Rightarrow> bytes" where
  "AES_ECB_decrypt ctx buf = InvCipher buf (RoundKey ctx)"

definition XorWithIv :: "bytes \<Rightarrow> bytes \<Rightarrow> bytes" where
  "XorWithIv buf iv = map (\<lambda>i. buf ! i XOR iv ! i) [0..<AES_BLOCKLEN]"

text \<open>
  The CBC loops: \<open>n\<close> is what is left of the length, \<open>buf\<close> what is left of the caller's buffer.
  \<open>None\<close> means that a block would extend beyond the buffer.
\<close>

function cbc_encrypt_loop :: "bytes \<Rightarrow> bytes \<Rightarrow> bytes \<Rightarrow> nat \<Rightarrow> (bytes \<times> bytes) option" where
  "cbc_encrypt_loop rk iv buf n =
     (if n = 0 then Some (buf, iv)
      else if length buf < AES_BLOCKLEN then None
      else let blk = Cipher (XorWithIv (take AES_BLOCKLEN buf) iv) rk
           in map_option (\<lambda>(out, iv'). (blk @ out, iv'))
                (cbc_encrypt_loop rk blk (drop AES_BLOCKLEN buf) (n - AES_BLOCKLEN)))"
  by pat_completeness auto
termination
  by (relation "measure (\<lambda>(rk, iv, buf, n). n)") (auto simp: AES_BLOCKLEN_def)

definition AES_CBC_encrypt_buffer :: "AES_ctx \<Rightarrow> bytes \<Rightarrow> nat \<Rightarrow> (AES_ctx \<times> bytes) option" where
  "AES_CBC_encrypt_buffer ctx buf n =
     map_option (\<lambda>(out, iv). (ctx\<lparr>Iv := iv\<rparr>, out)) (cbc_encrypt_loop (RoundKey ctx) (Iv ctx) buf n)"

function cbc_decrypt_loop :: "bytes \<Rightarrow> bytes \<Rightarrow> bytes \<Rightarrow> nat \<Rightarrow> (bytes \<times> bytes) option" where
  "cbc_decrypt_loop rk iv buf n =
     (if n = 0 then Some (buf, iv)
      else if length buf < AES_BLOCKLEN then None
      else let storeNextIv = take AES_BLOCKLEN buf;
               blk = XorWithIv (InvCipher (take AES_BLOCKLEN buf) rk) iv
           in map_option (\<lambda>(out, iv'). (blk @ out, iv'))
                (cbc_decrypt_loop rk storeNextIv (drop AES_BLOCKLEN buf) (n - AES_BLOCKLEN)))"
  by pat_completeness auto
termination
  by (relation "measure (\<lambda>(rk, iv, buf, n). n)") (auto simp: AES_BLOCKLEN_def)

definition AES_CBC_decrypt_buffer :: "AES_ctx \<Rightarrow> bytes \<Rightarrow> nat \<Rightarrow> (AES_ctx \<times> bytes) option" where
  "AES_CBC_decrypt_buffer ctx buf n =
     map_option (\<lambda>(out, iv). (ctx\<lparr>Iv := iv\<rparr>, out)) (cbc_decrypt_loop (RoundKey ctx) (Iv ctx) buf n)"

declare cbc_encrypt_loop.simps [simp del] cbc_decrypt_loop.simps [simp del]

text \<open>The counter mode: increment of the counter from its last byte, and the byte-wise loop.\<close>

fun inc_rev :: "bytes \<Rightarrow> bytes" where
  "inc_rev [] = []"
| "inc_rev (b # bs) = (if b = 255 then 0 # inc_rev bs else (b + 1) # bs)"

definition ctr_refill :: "AES_ctx \<Rightarrow> bytes \<Rightarrow> nat \<Rightarrow> AES_ctx \<times> bytes \<times> nat" where
  "ctr_refill ctx ks bi =
     (if bi = AES_BLOCKLEN
      then (ctx\<lparr>Iv := rev (inc_rev (rev (Iv ctx)))\<rparr>, Cipher (Iv ctx) (RoundKey ctx), 0)
      else (ctx, ks, bi))"

fun ctr_loop :: "AES_ctx \<Rightarrow> bytes \<Rightarrow> nat \<Rightarrow> bytes \<Rightarrow> AES_ctx \<times> bytes" where
  "ctr_loop ctx ks bi [] = (ctx, [])"
| "ctr_loop ctx ks bi (b # buf) =
     (case ctr_refill ctx ks bi of (ctx1, ks1, bi1) \<Rightarrow>
        case ctr_loop ctx1 ks1 (bi1 + 1) buf of (ctx', out) \<Rightarrow> (ctx', (b XOR ks1 ! bi1) # out))"

definition AES_CTR_xcrypt_buffer :: "AES_ctx \<Rightarrow> bytes \<Rightarrow> AES_ctx \<times> bytes" where
  "AES_CTR_xcrypt_buffer ctx buf = ctr_loop ctx (replicate AES_BLOCKLEN 0) AES_BLOCKLEN buf"

section \<open>The field and the S-box\<close>

lemma top_bit: "drop_bit 7 (x :: u8) AND 1 = (if bit x 7 then 1 else 0)"
  by (rule u8_eqI) (simp_all add: bit_simps)

lemma xtime_if: "xtime x = push_bit 1 x XOR (if bit x 7 then 0x1b else 0)"
  by (simp add: xtime_def top_bit)

lemma xtime_xor: "xtime (x XOR y) = xtime x XOR xtime y"
  unfolding xtime_if by (cases "bit x 7"; cases "bit y 7"; simp add: bit_simps push_bit_xor; 
    rule bit_word_eqI; auto simp: bit_simps)

lemma Multiply_consts:
  "Multiply x 0x0e = xtime x XOR xtime (xtime x) XOR xtime (xtime (xtime x))"
  "Multiply x 0x0b = x XOR xtime x XOR xtime (xtime (xtime x))"
  "Multiply x 0x0d = x XOR xtime (xtime x) XOR xtime (xtime (xtime x))"
  "Multiply x 0x09 = x XOR xtime (xtime (xtime x))"
  by (simp_all add: Multiply_def)

lemma xor_left_cancel [simp]: "x XOR (x XOR y) = (y :: 'a::len word)"
  by (simp add: xor.assoc [symmetric])

lemma xor_right_cancel [simp]: "(x XOR y) XOR y = (x :: 'a::len word)"
  by (simp add: xor.assoc)

lemma inv_mix_column_mix:
  "mix_column a b c d = [a', b', c', d'] \<Longrightarrow> inv_mix_column a' b' c' d' = [a, b, c, d]"
  by (auto simp: mix_column_def inv_mix_column_def Let_def Multiply_consts xtime_xor
      xor.assoc xor.commute xor.left_commute)

lemma rsbox_sbox: "getSBoxInvert (getSBoxValue b) = b"
proof -
  have "list_all (\<lambda>i. rsbox ! unat (sbox ! i) = of_nat i) [0..<256]" by code_simp
  from all_below [OF this u8_less [of b]] show ?thesis
    by (simp add: getSBoxInvert_def getSBoxValue_def)
qed

text \<open>
  The S-box of FIPS 197: the multiplicative inverse in \<open>GF(2\<^sup>8)\<close> modulo \<open>x\<^sup>8 + x\<^sup>4 + x\<^sup>3 + x + 1\<close>,
  followed by the affine map.
\<close>

definition gf_double :: "int \<Rightarrow> int" where
  "gf_double x = (if x < 128 then 2 * x else (2 * x) XOR 0x11b)"

fun gf_mul_bits :: "nat \<Rightarrow> int \<Rightarrow> int \<Rightarrow> int" where
  "gf_mul_bits 0 x y = 0"
| "gf_mul_bits (Suc n) x y =
     (if y mod 2 = 1 then x else 0) XOR gf_mul_bits n (gf_double x) (y div 2)"

definition gf_mul :: "int \<Rightarrow> int \<Rightarrow> int" where
  "gf_mul = gf_mul_bits 8"

definition rotl8 :: "nat \<Rightarrow> int \<Rightarrow> int" where
  "rotl8 n x = (x * 2 ^ n) mod 256 + x div 2 ^ (8 - n)"

definition affine :: "int \<Rightarrow> int" where
  "affine x = x XOR rotl8 1 x XOR rotl8 2 x XOR rotl8 3 x XOR rotl8 4 x XOR 0x63"

definition inv_affine :: "int \<Rightarrow> int" where
  "inv_affine y = rotl8 1 y XOR rotl8 3 y XOR rotl8 6 y XOR 0x05"

definition sbox_entry_ok :: "int \<Rightarrow> int \<Rightarrow> bool" where
  "sbox_entry_ok x s \<longleftrightarrow>
     (let y = inv_affine s
      in 0 \<le> y \<and> y < 256 \<and> affine y = s \<and> (if x = 0 then y = 0 else gf_mul x y = 1))"

lemma sbox_check: "list_all2 sbox_entry_ok [0..255] (map uint sbox)"
  by code_simp

section \<open>Inverse transformations\<close>

lemma length_AddRoundKey [simp]: "length (AddRoundKey r s rk) = 16"
  by (simp add: AddRoundKey_def)

lemma length_SubBytes [simp]: "length (SubBytes s) = length s"
  by (simp add: SubBytes_def)

lemma length_ShiftRows [simp]: "length (ShiftRows s) = length s"
  by (simp add: ShiftRows_def Let_def)

lemma mix_column_list: "\<exists>a' b' c' d'. mix_column a b c d = [a', b', c', d']"
  by (simp add: mix_column_def Let_def)

lemma list16_cases:
  assumes "length xs = 16"
  obtains x0 x1 x2 x3 x4 x5 x6 x7 x8 x9 x10 x11 x12 x13 x14 x15
  where "xs = [x0, x1, x2, x3, x4, x5, x6, x7, x8, x9, x10, x11, x12, x13, x14, x15]"
  using assms by (auto simp: numeral_eq_Suc length_Suc_conv)

lemma AddRoundKey_twice: "length s = 16 \<Longrightarrow> AddRoundKey r (AddRoundKey r s rk) rk = s"
  by (rule nth_equalityI) (simp_all add: AddRoundKey_def)

lemma InvSubBytes_SubBytes: "InvSubBytes (SubBytes s) = s"
  by (simp add: InvSubBytes_def SubBytes_def rsbox_sbox comp_def)

lemma InvShiftRows_ShiftRows: "length s = 16 \<Longrightarrow> InvShiftRows (ShiftRows s) = s"
  by (erule list16_cases) (simp add: InvShiftRows_def ShiftRows_def Let_def)

lemma columns_upt: "[0..<4] = [0, 1, 2, 3 :: nat]"
  by (simp add: upt_rec)

lemma MixColumns_inverse:
  assumes "length s = 16"
  shows "length (MixColumns s) = 16 \<and> InvMixColumns (MixColumns s) = s"
proof -
  obtain x0 x1 x2 x3 x4 x5 x6 x7 x8 x9 x10 x11 x12 x13 x14 x15
    where s: "s = [x0, x1, x2, x3, x4, x5, x6, x7, x8, x9, x10, x11, x12, x13, x14, x15]"
    using assms by (rule list16_cases)
  obtain a0 a1 a2 a3 b0 b1 b2 b3 c0 c1 c2 c3 d0 d1 d2 d3
    where m: "mix_column x0 x1 x2 x3 = [a0, a1, a2, a3]" "mix_column x4 x5 x6 x7 = [b0, b1, b2, b3]"
      "mix_column x8 x9 x10 x11 = [c0, c1, c2, c3]" "mix_column x12 x13 x14 x15 = [d0, d1, d2, d3]"
    using mix_column_list by metis
  have "MixColumns s = [a0, a1, a2, a3, b0, b1, b2, b3, c0, c1, c2, c3, d0, d1, d2, d3]"
    by (simp add: s MixColumns_def columns_upt m)
  then show ?thesis
    by (simp add: InvMixColumns_def columns_upt m [THEN inv_mix_column_mix] s)
qed

lemmas MixColumns_length [simp] = MixColumns_inverse [THEN conjunct1]
lemmas InvMixColumns_MixColumns = MixColumns_inverse [THEN conjunct2]

lemmas inverse_simps =
  AddRoundKey_twice InvSubBytes_SubBytes InvShiftRows_ShiftRows InvMixColumns_MixColumns

lemma length_cipher_rounds: "length s = 16 \<Longrightarrow> length (cipher_rounds r s rk) = 16"
  by (induction r s rk rule: cipher_rounds.induct) (subst cipher_rounds.simps, simp add: Let_def)

lemma inv_rounds_undo:
  "length s = 16 \<Longrightarrow> 1 \<le> r \<Longrightarrow> r \<le> Nr \<Longrightarrow>
   inv_cipher_rounds (Nr - 1) (cipher_rounds r s rk) rk
     = inv_cipher_rounds (r - 1) (ShiftRows (SubBytes s)) rk"
proof (induction r s rk rule: cipher_rounds.induct)
  case (1 r s rk)
  show ?case
  proof (cases "r = Nr")
    case True
    then show ?thesis by (simp add: cipher_rounds.simps [of Nr] Let_def)
  next
    case False
    let ?t = "ShiftRows (SubBytes s)"
    let ?s' = "AddRoundKey r (MixColumns ?t) rk"
    from False 1(3,4) have r: "r < Nr" "r \<noteq> 0" by auto
    then have "inv_cipher_rounds (Nr - 1) (cipher_rounds r s rk) rk
                 = inv_cipher_rounds (Nr - 1) (cipher_rounds (r + 1) ?s' rk) rk"
      by (simp add: cipher_rounds.simps [of r] Let_def)
    also have "\<dots> = inv_cipher_rounds r (ShiftRows (SubBytes ?s')) rk"
      using 1(1) [OF refl] r by simp
    also have "\<dots> = inv_cipher_rounds (r - 1) ?t rk"
      using 1(2) r by (simp add: inv_cipher_rounds.simps [of r] Let_def inverse_simps)
    finally show ?thesis .
  qed
qed

lemma length_Cipher [simp]: "length (Cipher s rk) = 16"
  by (simp add: Cipher_def)

lemma InvCipher_Cipher: "length s = 16 \<Longrightarrow> InvCipher (Cipher s rk) rk = s"
  using inv_rounds_undo [of "AddRoundKey 0 s rk" 1 rk]
  by (simp add: InvCipher_def Cipher_def inverse_simps length_cipher_rounds Nr_def [symmetric]
      inv_cipher_rounds.simps [of 0] Let_def) (simp add: Nr_def)

lemma length_expand_step:
  "8 \<le> i \<Longrightarrow> length rk = 4 * i \<Longrightarrow> length (expand_step i rk) = 4 * Suc i"
proof -
  assume i: "8 \<le> i" "length rk = 4 * i"
  have rot: "length (RotWord xs) = length xs" for xs by (cases xs rule: RotWord.cases) auto
  from i show ?thesis by (simp add: expand_step_def Let_def SubWord_def rot Nk_def)
qed

lemma length_KeyExpansion:
  assumes "length key = 32"
  shows "length (KeyExpansion key) = 240"
proof -
  have "length (fold expand_step [8..<n] (take 32 key)) = 4 * n" if "8 \<le> n" for n
    using that assms by (induction n rule: dec_induct) (auto simp: length_expand_step)
  from this [of 60] show ?thesis by (simp add: KeyExpansion_def Nk_def Nb_def Nr_def)
qed

section \<open>Chaining modes over a block cipher\<close>

text \<open>The XOR of two blocks and the chaining of whole blocks, for any cipher.\<close>

definition xor_bytes :: "bytes \<Rightarrow> bytes \<Rightarrow> bytes" where
  "xor_bytes xs ys = map2 (XOR) xs ys"

fun cbc_enc :: "(bytes \<Rightarrow> bytes) \<Rightarrow> bytes \<Rightarrow> bytes list \<Rightarrow> bytes list" where
  "cbc_enc e iv [] = []"
| "cbc_enc e iv (b # bs) = (let c = e (xor_bytes b iv) in c # cbc_enc e c bs)"

fun cbc_dec :: "(bytes \<Rightarrow> bytes) \<Rightarrow> bytes \<Rightarrow> bytes list \<Rightarrow> bytes list" where
  "cbc_dec d iv [] = []"
| "cbc_dec d iv (c # cs) = xor_bytes (d c) iv # cbc_dec d c cs"

definition blocks_ok :: "bytes list \<Rightarrow> bool" where
  "blocks_ok bs = list_all (\<lambda>b. length b = 16) bs"

lemma length_xor_bytes [simp]: "length (xor_bytes xs ys) = min (length xs) (length ys)"
  by (simp add: xor_bytes_def)

lemma xor_bytes_twice: "length xs = length ys \<Longrightarrow> xor_bytes (xor_bytes xs ys) ys = xs"
  by (induction xs ys rule: list_induct2) (simp_all add: xor_bytes_def)

locale block_cipher =
  fixes enc :: "bytes \<Rightarrow> bytes \<Rightarrow> bytes"
    and dec :: "bytes \<Rightarrow> bytes \<Rightarrow> bytes"
  assumes enc_length: "length b = 16 \<Longrightarrow> length (enc b k) = 16"
    and dec_enc: "length b = 16 \<Longrightarrow> dec (enc b k) k = b"
begin

lemma cbc_enc_blocks:
  "blocks_ok bs \<Longrightarrow> length iv = 16 \<Longrightarrow>
   blocks_ok (cbc_enc (\<lambda>b. enc b k) iv bs) \<and> length (cbc_enc (\<lambda>b. enc b k) iv bs) = length bs"
  by (induction bs arbitrary: iv) (auto simp: blocks_ok_def Let_def enc_length)

lemma cbc_roundtrip:
  "blocks_ok bs \<Longrightarrow> length iv = 16 \<Longrightarrow>
   cbc_dec (\<lambda>c. dec c k) iv (cbc_enc (\<lambda>b. enc b k) iv bs) = bs"
  by (induction bs arbitrary: iv)
     (auto simp: blocks_ok_def Let_def enc_length dec_enc xor_bytes_twice)

end

interpretation aes: block_cipher Cipher InvCipher
  by unfold_locales (simp_all add: InvCipher_Cipher)

text \<open>The loops over a buffer compute the chaining of its blocks.\<close>

lemma XorWithIv_bytes: "length b = 16 \<Longrightarrow> length iv = 16 \<Longrightarrow> XorWithIv b iv = xor_bytes b iv"
  by (rule nth_equalityI) (simp_all add: XorWithIv_def xor_bytes_def AES_BLOCKLEN_def)

lemma cbc_encrypt_loop_blocks:
  "blocks_ok bs \<Longrightarrow> length iv = 16 \<Longrightarrow>
   cbc_encrypt_loop rk iv (concat bs @ rest) (16 * length bs)
     = Some (concat (cbc_enc (\<lambda>b. Cipher b rk) iv bs) @ rest,
             last (iv # cbc_enc (\<lambda>b. Cipher b rk) iv bs))"
proof (induction bs arbitrary: iv)
  case Nil
  then show ?case by (simp add: cbc_encrypt_loop.simps)
next
  case (Cons b bs)
  then show ?case
    by (simp add: cbc_encrypt_loop.simps [of rk iv] blocks_ok_def AES_BLOCKLEN_def XorWithIv_bytes
        Let_def)
qed

lemma cbc_decrypt_loop_blocks:
  "blocks_ok cs \<Longrightarrow> length iv = 16 \<Longrightarrow>
   \<exists>iv'. cbc_decrypt_loop rk iv (concat cs @ rest) (16 * length cs)
     = Some (concat (cbc_dec (\<lambda>c. InvCipher c rk) iv cs) @ rest, iv') \<and> iv' = last (iv # cs)"
proof (induction cs arbitrary: iv)
  case Nil
  then show ?case by (simp add: cbc_decrypt_loop.simps)
next
  case (Cons c cs)
  have len: "length (inv_cipher_rounds r s rk) = 16" for r s
    by (induction r s rk rule: inv_cipher_rounds.induct)
       (subst inv_cipher_rounds.simps, simp add: Let_def)
  from Cons show ?case
    by (auto simp: cbc_decrypt_loop.simps [of rk iv] blocks_ok_def AES_BLOCKLEN_def XorWithIv_bytes
        Let_def InvCipher_def len)
qed

lemma blocks_of_buffer:
  "length xs = 16 * k \<Longrightarrow> \<exists>bs. xs = concat bs \<and> blocks_ok bs \<and> length bs = k"
proof (induction k arbitrary: xs)
  case 0
  then show ?case by (auto simp: blocks_ok_def)
next
  case (Suc k)
  then obtain bs where "drop 16 xs = concat bs" "blocks_ok bs" "length bs = k"
    by (metis add_diff_cancel_left' length_drop mult_Suc_right)
  with Suc.prems show ?case
    by (intro exI [of _ "take 16 xs # bs"]) (auto simp: blocks_ok_def append_take_drop_id
        simp flip: \<open>drop 16 xs = concat bs\<close>)
qed

lemma length_concat_blocks: "blocks_ok bs \<Longrightarrow> length (concat bs) = 16 * length bs"
  by (induction bs) (auto simp: blocks_ok_def)

lemma CBC_blocks:
  assumes "length (Iv ctx) = 16" and "16 dvd n" and "n \<le> length buf"
  shows "\<exists>bs. blocks_ok bs \<and> take n buf = concat bs \<and> n = 16 * length bs \<and>
           AES_CBC_encrypt_buffer ctx buf n
             = Some (ctx\<lparr>Iv := last (Iv ctx # cbc_enc (\<lambda>b. Cipher b (RoundKey ctx)) (Iv ctx) bs)\<rparr>,
                     concat (cbc_enc (\<lambda>b. Cipher b (RoundKey ctx)) (Iv ctx) bs) @ drop n buf)"
proof -
  from assms(2) obtain k where k: "n = 16 * k" ..
  with assms(3) have "length (take n buf) = 16 * k" by simp
  from blocks_of_buffer [OF this]
  obtain bs where bs: "take n buf = concat bs" "blocks_ok bs" "length bs = k" by blast
  have "buf = concat bs @ drop n buf" by (metis append_take_drop_id bs(1))
  with bs k cbc_encrypt_loop_blocks [OF bs(2) assms(1), of "RoundKey ctx" "drop n buf"] show ?thesis
    by (auto simp: AES_CBC_encrypt_buffer_def intro!: exI [of _ bs])
qed

lemma CBC_decrypt_encrypt:
  assumes "length (Iv ctx) = 16" and "16 dvd n" and "n \<le> length buf"
  shows "\<exists>ctx' out. AES_CBC_encrypt_buffer ctx buf n = Some (ctx', out) \<and>
           length out = length buf \<and> drop n out = drop n buf \<and>
           AES_CBC_decrypt_buffer ctx out n = Some (ctx', buf)"
proof -
  from CBC_blocks [OF assms] obtain bs where bs: "blocks_ok bs" "take n buf = concat bs"
    "n = 16 * length bs"
    "AES_CBC_encrypt_buffer ctx buf n
       = Some (ctx\<lparr>Iv := last (Iv ctx # cbc_enc (\<lambda>b. Cipher b (RoundKey ctx)) (Iv ctx) bs)\<rparr>,
               concat (cbc_enc (\<lambda>b. Cipher b (RoundKey ctx)) (Iv ctx) bs) @ drop n buf)" by blast
  let ?cs = "cbc_enc (\<lambda>b. Cipher b (RoundKey ctx)) (Iv ctx) bs"
  note cs = aes.cbc_enc_blocks [OF bs(1) assms(1), of "RoundKey ctx"]
  have buf: "concat bs @ drop n buf = buf" by (metis append_take_drop_id bs(2))
  have "AES_CBC_decrypt_buffer ctx (concat ?cs @ drop n buf) n = Some (ctx\<lparr>Iv := last (Iv ctx # ?cs)\<rparr>, buf)"
    using cbc_decrypt_loop_blocks [OF conjunct1 [OF cs] assms(1), of "RoundKey ctx" "drop n buf"] cs
    by (auto simp: AES_CBC_decrypt_buffer_def bs(3) [symmetric] aes.cbc_roundtrip [OF bs(1) assms(1)] buf)
  moreover have len: "length (concat ?cs) = n" using cs bs(3) by (simp add: length_concat_blocks)
  moreover have "length (concat ?cs @ drop n buf) = length buf" "drop n (concat ?cs @ drop n buf) = drop n buf"
    using assms(3) len by simp_all
  ultimately show ?thesis using bs(4) by blast
qed

section \<open>Counter mode\<close>

lemma ctr_loop_involutive:
  "ctr_loop ctx ks bi buf = (ctx', out) \<Longrightarrow> ctr_loop ctx ks bi out = (ctx', buf)"
proof (induction ctx ks bi buf arbitrary: ctx' out rule: ctr_loop.induct)
  case (2 ctx ks bi b buf)
  obtain ctx1 ks1 bi1 where r: "ctr_refill ctx ks bi = (ctx1, ks1, bi1)" by (cases "ctr_refill ctx ks bi")
  obtain ctx2 out2 where l: "ctr_loop ctx1 ks1 (bi1 + 1) buf = (ctx2, out2)"
    by (cases "ctr_loop ctx1 ks1 (bi1 + 1) buf")
  from 2(1) [OF r [symmetric] refl l] 2(2) show ?case by (auto simp: r l [simplified])
qed simp

text \<open>The counter is a 128-bit number, most significant byte first, and is incremented modulo \<open>2\<^sup>1\<^sup>2\<^sup>8\<close>.\<close>

fun le_val :: "bytes \<Rightarrow> nat" where
  "le_val [] = 0"
| "le_val (b # bs) = unat b + 256 * le_val bs"

lemma le_val_less: "le_val bs < 256 ^ length bs"
proof (induction bs)
  case (Cons b bs)
  then have "le_val bs + 1 \<le> 256 ^ length bs" by simp
  then have "256 * (le_val bs + 1) \<le> 256 * 256 ^ length bs" by (rule mult_le_mono2)
  with u8_less [of b] show ?case by simp
qed simp

lemma le_val_inc_rev: "le_val (inc_rev bs) = (le_val bs + 1) mod 256 ^ length bs"
proof (induction bs)
  case (Cons b bs)
  show ?case
  proof (cases "b = 255")
    case True
    have "256 * ((le_val bs + 1) mod 256 ^ length bs) = (256 * (le_val bs + 1)) mod (256 * 256 ^ length bs)"
      by (rule mult_mod_right)
    moreover have "unat (255 :: u8) = 255" by code_simp
    ultimately show ?thesis using True Cons by (simp only: le_val.simps inc_rev.simps if_True) (simp add: algebra_simps)
  next
    case False
    then have "unat b \<noteq> unat (255 :: u8)" by (simp add: word_unat_eq_iff)
    moreover have "unat (255 :: u8) = 255" by code_simp
    ultimately have "unat b + 1 < 256" using u8_less [of b] by linarith
    then have b: "unat (b + 1) = unat b + 1" by (simp add: unat_word_ariths)
    then have "le_val ((b + 1) # bs) = le_val (b # bs) + 1" by simp
    moreover have "le_val ((b + 1) # bs) < 256 ^ length (b # bs)" using le_val_less [of "(b + 1) # bs"] by simp
    ultimately show ?thesis using False by simp
  qed
qed simp

section \<open>Properties\<close>

text \<open>
  C29. The S-box table is the one of FIPS 197: entry \<open>b\<close> is the affine image of the inverse of \<open>b\<close> in
  the field (of 0 for 0), and \<open>rsbox\<close> is the inverse table.
\<close>

theorem sbox_is_fips197:
  "\<exists>y. 0 \<le> y \<and> y < 256 \<and> (b = 0 \<and> y = 0 \<or> b \<noteq> 0 \<and> gf_mul (uint b) y = 1) \<and>
       uint (getSBoxValue b) = affine y \<and> getSBoxInvert (getSBoxValue b) = b"
proof -
  have "sbox_entry_ok ([0..255] ! unat b) (map uint sbox ! unat b)"
    using u8_less [of b] by (intro list_all2_nthD [OF sbox_check]) simp
  moreover have "length sbox = 256" by (simp add: sbox_def)
  moreover have "uint b = 0 \<longleftrightarrow> b = 0" by (metis uint_0_iff)
  moreover have "uint b < 2 ^ LENGTH(8)" by (rule unsigned_less)
  then have "[0..255] ! unat b = uint b" by (subst nth_upto) simp_all
  ultimately have "sbox_entry_ok (uint b) (uint (getSBoxValue b))"
    using u8_less [of b] by (simp add: getSBoxValue_def)
  then show ?thesis
    using \<open>uint b = 0 \<longleftrightarrow> b = 0\<close>
    by (intro exI [of _ "inv_affine (uint (getSBoxValue b))"])
       (simp add: sbox_entry_ok_def Let_def rsbox_sbox split: if_splits)
qed

text \<open>
  C30. CBC mode: on any buffer whose length is a positive or zero multiple of 16 within the buffer,
  encryption stays inside the buffer, leaves what follows alone, and decrypting with the context the
  encryption started from gives the original buffer back and the same final chaining value.
\<close>

theorem cbc_buffer_roundtrip:
  assumes "length (Iv ctx) = 16" and "16 dvd n" and "n \<le> length buf"
  shows "\<exists>ctx' out. AES_CBC_encrypt_buffer ctx buf n = Some (ctx', out) \<and>
           length out = length buf \<and> drop n out = drop n buf \<and>
           AES_CBC_decrypt_buffer ctx out n = Some (ctx', buf)"
  by (rule CBC_decrypt_encrypt [OF assms])

theorem cbc_buffer_roundtrip_witness:
  "\<exists>ctx' out. AES_CBC_encrypt_buffer \<lparr>RoundKey = KeyExpansion (replicate 32 1), Iv = replicate 16 0\<rparr>
       (replicate 33 9) 32 = Some (ctx', out) \<and> length out = 33 \<and> drop 32 out = [9]"
proof -
  let ?ctx = "\<lparr>RoundKey = KeyExpansion (replicate 32 1), Iv = replicate 16 0\<rparr>"
  have "length (Iv ?ctx) = 16" "16 dvd (32 :: nat)" "32 \<le> length (replicate 33 (9 :: u8))" by simp_all
  from cbc_buffer_roundtrip [OF this] show ?thesis by auto
qed

text \<open>
  Counter mode is symmetric: applying it twice from the same context gives the buffer back and
  leaves the context in the same state, and one step of the counter adds 1 to the 128-bit number in
  the initialisation vector.
\<close>

theorem ctr_symmetric:
  "AES_CTR_xcrypt_buffer ctx (snd (AES_CTR_xcrypt_buffer ctx buf)) = (fst (AES_CTR_xcrypt_buffer ctx buf), buf) \<and>
   le_val (inc_rev ctr) = (le_val ctr + 1) mod 256 ^ length ctr"
proof
  show "AES_CTR_xcrypt_buffer ctx (snd (AES_CTR_xcrypt_buffer ctx buf)) = (fst (AES_CTR_xcrypt_buffer ctx buf), buf)"
    unfolding AES_CTR_xcrypt_buffer_def by (rule ctr_loop_involutive) (rule prod.collapse [symmetric])
  show "le_val (inc_rev ctr) = (le_val ctr + 1) mod 256 ^ length ctr" by (rule le_val_inc_rev)
qed

end
