(* ===== verification/Proof_Work.thy ===== *)
theory Proof_Work
  imports Prelude
begin

unbundle bit_operations_syntax

text \<open>
  \<^verbatim>\<open>include/proof.h\<close>: the number of leading zero bits of a hash, which decides whether a mined
  event id or public key is good enough. The reference is the length of the longest prefix of
  zeros of the 256 bits, most significant bit first, and equivalently a bound on the hash as a
  number.
\<close>

section \<open>The functions\<close>

text \<open>The loop \<^verbatim>\<open>while (b >>= 1) n++\<close>.\<close>

lemma unat_shift1: "unat (drop_bit 1 (b :: u8)) = unat b div 2"
  using u8_less [of b] by (simp add: unsigned_drop_bit_eq drop_bit_nat_def take_bit_nat_def)

function zero_bits_loop :: "u8 \<Rightarrow> nat \<Rightarrow> nat" where
  "zero_bits_loop b n =
     (let b = drop_bit 1 b in if b \<noteq> 0 then zero_bits_loop b (n + 1) else n)"
  by pat_completeness auto
termination
proof (relation "measure (\<lambda>(b, n). unat b)")
  fix b x :: u8 and n :: nat
  assume x: "x = drop_bit 1 b" "x \<noteq> 0"
  then have "0 < unat x" "unat x = unat b div 2"
    using unat_shift1 [of b] by (auto simp: word_unat_eq_iff)
  then have "unat x < unat b" by linarith
  then show "((x, n + 1), (b, n)) \<in> measure (\<lambda>(b, n). unat b)" by simp
qed simp

declare zero_bits_loop.simps [simp del]

definition zero_bits :: "u8 \<Rightarrow> int" where
  "zero_bits b = (if b = 0 then 8 else 7 - int (zero_bits_loop b 0))"

fun count_loop :: "bytes \<Rightarrow> int \<Rightarrow> int" where
  "count_loop [] tot = tot"
| "count_loop (b # hash) tot =
     (let bits = zero_bits b; tot = tot + bits
      in if bits \<noteq> 8 then tot else count_loop hash tot)"

definition count_leading_zero_bits :: "bytes \<Rightarrow> int" where
  "count_leading_zero_bits hash = count_loop (take 32 hash) 0"

section \<open>The reference\<close>

definition byte_bits :: "u8 \<Rightarrow> bool list" where
  "byte_bits b = map (bit b) [7, 6, 5, 4, 3, 2, 1, 0]"

definition hash_bits :: "bytes \<Rightarrow> bool list" where
  "hash_bits bs = concat (map byte_bits bs)"

definition leading_zeros :: "bool list \<Rightarrow> nat" where
  "leading_zeros bs = length (takeWhile Not bs)"

fun bits_val :: "bool list \<Rightarrow> nat" where
  "bits_val [] = 0"
| "bits_val (b # bs) = (if b then 2 ^ length bs else 0) + bits_val bs"

lemma bits_val_less: "bits_val bs < 2 ^ length bs"
  by (induction bs) auto

lemma leading_zeros_val:
  "d \<le> length bs \<Longrightarrow> d \<le> leading_zeros bs \<longleftrightarrow> bits_val bs < 2 ^ (length bs - d)"
proof (induction bs arbitrary: d)
  case Nil
  then show ?case by (simp add: leading_zeros_def)
next
  case (Cons b bs)
  show ?case
  proof (cases d)
    case 0
    then show ?thesis using bits_val_less [of "b # bs"] by simp
  next
    case (Suc e)
    show ?thesis
    proof (cases b)
      case True
      have "(2::nat) ^ (length bs - e) \<le> 2 ^ length bs" by (intro power_increasing) auto
      moreover have "2 ^ length bs \<le> bits_val (b # bs)" using True by simp
      ultimately have "\<not> bits_val (b # bs) < 2 ^ (length bs - e)" by linarith
      with True Suc show ?thesis by (simp add: leading_zeros_def del: bits_val.simps)
    next
      case False
      with Suc Cons show ?thesis by (simp add: leading_zeros_def)
    qed
  qed
qed

lemma byte_check:
  "list_all (\<lambda>i. zero_bits (of_nat i) = int (leading_zeros (byte_bits (of_nat i))) \<and>
                 bits_val (byte_bits (of_nat i)) = i) [0..<256]"
  unfolding byte_bits_def by code_simp

lemma zero_bits_spec: "zero_bits b = int (leading_zeros (byte_bits b))"
  using all_below [OF byte_check u8_less [of b]] by simp

lemma bits_val_byte: "bits_val (byte_bits b) = unat b"
  using all_below [OF byte_check u8_less [of b]] by simp

lemma length_byte_bits [simp]: "length (byte_bits b) = 8"
  by (simp add: byte_bits_def)

lemma leading_zeros_append:
  "leading_zeros (xs @ ys) =
     (if leading_zeros xs = length xs then length xs + leading_zeros ys else leading_zeros xs)"
  by (induction xs) (auto simp: leading_zeros_def)

lemma count_loop_spec: "count_loop bs tot = tot + int (leading_zeros (hash_bits bs))"
proof (induction bs arbitrary: tot)
  case Nil
  then show ?case by (simp add: hash_bits_def leading_zeros_def)
next
  case (Cons b bs)
  have "hash_bits (b # bs) = byte_bits b @ hash_bits bs" by (simp add: hash_bits_def)
  then show ?case by (simp add: Let_def Cons zero_bits_spec leading_zeros_append)
qed

lemma count_spec: "length hash = 32 \<Longrightarrow> count_leading_zero_bits hash = int (leading_zeros (hash_bits hash))"
  by (simp add: count_leading_zero_bits_def count_loop_spec)

lemma length_hash_bits [simp]: "length (hash_bits bs) = 8 * length bs"
  by (induction bs) (auto simp: hash_bits_def)

lemma count_val:
  assumes "length hash = 32" and "d \<le> 256"
  shows "int d \<le> count_leading_zero_bits hash \<longleftrightarrow> bits_val (hash_bits hash) < 2 ^ (256 - d)"
  using leading_zeros_val [of d "hash_bits hash"] assms by (simp add: count_spec)

lemma bits_val_append: "bits_val (xs @ ys) = bits_val xs * 2 ^ length ys + bits_val ys"
  by (induction xs) (auto simp: algebra_simps power_add)

text \<open>The number the bytes denote, most significant byte first.\<close>

lemma bits_val_hash: "bits_val (hash_bits (b # bs)) = unat b * 256 ^ length bs + bits_val (hash_bits bs)"
proof -
  have "hash_bits (b # bs) = byte_bits b @ hash_bits bs" by (simp add: hash_bits_def)
  moreover have "(2::nat) ^ (8 * length bs) = 256 ^ length bs" by (simp add: power_mult)
  ultimately show ?thesis by (simp add: bits_val_append bits_val_byte)
qed

fun be_val :: "bytes \<Rightarrow> nat" where
  "be_val [] = 0"
| "be_val (b # bs) = unat b * 256 ^ length bs + be_val bs"

lemma be_val_bits: "be_val bs = bits_val (hash_bits bs)"
  by (induction bs) (simp_all add: bits_val_hash, simp add: hash_bits_def)

section \<open>Properties\<close>

text \<open>
  Proof of work: \<open>count_leading_zero_bits\<close> returns the number of leading zero bits of the 32-byte
  hash, and it reaches a difficulty \<open>d\<close> exactly when the hash, read as a 256-bit number, is below
  \<open>2 ^ (256 - d)\<close>.
\<close>

theorem leading_zero_bits_correct:
  assumes "length hash = 32" and "d \<le> 256"
  shows "count_leading_zero_bits hash = int (leading_zeros (hash_bits hash)) \<and>
         (int d \<le> count_leading_zero_bits hash \<longleftrightarrow> be_val hash < 2 ^ (256 - d))"
  using assms by (simp add: count_spec [symmetric] count_val be_val_bits)

theorem leading_zero_bits_correct_witness:
  "count_leading_zero_bits (0 # 1 # replicate 30 0) = 15 \<and> be_val (0 # 1 # replicate 30 0) < 2 ^ 241"
proof -
  have c: "count_leading_zero_bits (0 # 1 # replicate 30 0) = 15" by code_simp
  have "length (0 # 1 # replicate 30 (0 :: u8)) = 32" by simp
  from leading_zero_bits_correct [OF this, of 15] c show ?thesis by simp
qed

end
