(* ===== verification/Json.thy ===== *)
theory Json
  imports Cursor
begin

unbundle bit_operations_syntax

text \<open>
  The JSON writer of \<^verbatim>\<open>gnostr.c\<close>: strings, tags and lists of tags pushed to a cursor. Each
  function is shown to push a fixed sequence of pieces, so that the \<open>byte_sink\<close> contract of the
  cursor gives both its output and the exact condition under which it fails. The text of a string
  is read back by \<open>json_scan\<close>; the locale \<open>prefix_code\<close> lifts unique readability from strings to
  tags and from tags to lists of tags.
\<close>

section \<open>The functions\<close>

text \<open>34 is the double quote, 92 the backslash, 91 and 93 the brackets, 44 the comma.\<close>

definition cursor_push_escaped_char :: "u8 \<Rightarrow> cst \<Rightarrow> bool \<times> cst" where
  "cursor_push_escaped_char c =
     (if c = 34 then cursor_push_str [92, 34]
      else if c = 92 then cursor_push_str [92, 92]
      else if c = 8 then cursor_push_str (92 # str ''b'')
      else if c = 12 then cursor_push_str (92 # str ''f'')
      else if c = 10 then cursor_push_str (92 # str ''n'')
      else if c = 13 then cursor_push_str (92 # str ''r'')
      else if c = 9 then cursor_push_str (92 # str ''t'')
      else cursor_push_byte c)"

definition cursor_push_jsonstr :: "cstr \<Rightarrow> cst \<Rightarrow> bool \<times> cst" where
  "cursor_push_jsonstr s =
     and_then (cursor_push_byte 34)
       (and_then (and_all (map cursor_push_escaped_char s)) (cursor_push_byte 34))"

text \<open>The loops push a separator after every element but the last.\<close>

fun push_elems :: "cstr list \<Rightarrow> cst \<Rightarrow> bool \<times> cst" where
  "push_elems [] = ret_true"
| "push_elems [e] = cursor_push_jsonstr e"
| "push_elems (e # es) = and_then (cursor_push_jsonstr e) (and_then (cursor_push_byte 44) (push_elems es))"

definition cursor_push_tag :: "cstr list \<Rightarrow> cst \<Rightarrow> bool \<times> cst" where
  "cursor_push_tag tag =
     and_then (cursor_push_byte 91) (and_then (push_elems tag) (cursor_push_byte 93))"

fun push_tag_list :: "cstr list list \<Rightarrow> cst \<Rightarrow> bool \<times> cst" where
  "push_tag_list [] = ret_true"
| "push_tag_list [t] = cursor_push_tag t"
| "push_tag_list (t # ts) = and_then (cursor_push_tag t) (and_then (cursor_push_str [44]) (push_tag_list ts))"

text \<open>\<open>cursor_push_tags\<close> takes the two fields of the event it reads.\<close>

definition cursor_push_tags :: "cstr option \<Rightarrow> cstr list list \<Rightarrow> cst \<Rightarrow> bool \<times> cst" where
  "cursor_push_tags explicit_tags tags =
     (case explicit_tags of
        Some t \<Rightarrow> cursor_push_str t
      | None \<Rightarrow> and_then (cursor_push_byte 91) (and_then (push_tag_list tags) (cursor_push_byte 93)))"

section \<open>The pieces\<close>

definition push_pieces :: "piece list \<Rightarrow> cst \<Rightarrow> bool \<times> cst" where
  "push_pieces ps = and_all (map (push_piece cursor_push_byte cursor_push_str) ps)"

definition escape_piece :: "u8 \<Rightarrow> piece" where
  "escape_piece c =
     (if c = 34 then PStr [92, 34]
      else if c = 92 then PStr [92, 92]
      else if c = 8 then PStr (92 # str ''b'')
      else if c = 12 then PStr (92 # str ''f'')
      else if c = 10 then PStr (92 # str ''n'')
      else if c = 13 then PStr (92 # str ''r'')
      else if c = 9 then PStr (92 # str ''t'')
      else PByte c)"

definition json_pieces :: "cstr \<Rightarrow> piece list" where
  "json_pieces s = PByte 34 # map escape_piece s @ [PByte 34]"

text \<open>The elements of a list, each with its pieces, separated by a given piece.\<close>

fun sep_pieces :: "piece \<Rightarrow> ('a \<Rightarrow> piece list) \<Rightarrow> 'a list \<Rightarrow> piece list" where
  "sep_pieces p f [] = []"
| "sep_pieces p f [x] = f x"
| "sep_pieces p f (x # xs) = f x @ p # sep_pieces p f xs"

definition tag_pieces :: "cstr list \<Rightarrow> piece list" where
  "tag_pieces tag = PByte 91 # sep_pieces (PByte 44) json_pieces tag @ [PByte 93]"

definition tags_pieces :: "cstr option \<Rightarrow> cstr list list \<Rightarrow> piece list" where
  "tags_pieces explicit_tags tags =
     (case explicit_tags of
        Some t \<Rightarrow> [PStr t]
      | None \<Rightarrow> PByte 91 # sep_pieces (PStr [44]) tag_pieces tags @ [PByte 93])"

lemma push_pieces_Nil [simp]: "push_pieces [] = ret_true"
  by (rule ext) (simp add: push_pieces_def ret_true_def)

lemma push_pieces_append: "push_pieces (ps @ qs) = and_then (push_pieces ps) (push_pieces qs)"
  by (simp add: push_pieces_def and_all_append)

lemma push_pieces_single [simp]:
  "push_pieces [PByte b] = cursor_push_byte b" "push_pieces [PStr s] = cursor_push_str s"
  by (simp_all add: push_pieces_def)

lemma push_pieces_Cons: "push_pieces (p # ps) = and_then (push_pieces [p]) (push_pieces ps)"
  using push_pieces_append [of "[p]" ps] by simp

lemma escape_char_piece: "cursor_push_escaped_char c = push_pieces [escape_piece c]"
  by (simp add: cursor_push_escaped_char_def escape_piece_def)

lemma escape_chars_pieces: "and_all (map cursor_push_escaped_char s) = push_pieces (map escape_piece s)"
proof (induction s)
  case Nil
  then show ?case by (auto simp: ret_true_def intro!: ext)
next
  case (Cons c s)
  then show ?case
    using push_pieces_append [of "[escape_piece c]" "map escape_piece s"]
    by (simp only: list.map and_all_Cons escape_char_piece append_Cons append_Nil)
qed

lemma jsonstr_pieces: "cursor_push_jsonstr s = push_pieces (json_pieces s)"
  by (simp add: cursor_push_jsonstr_def json_pieces_def push_pieces_Cons [of "PByte 34"]
      push_pieces_append escape_chars_pieces)

lemma and_then_assoc: "and_then (and_then f g) h = and_then f (and_then g h)"
  by (rule ext) (simp add: and_then_def split: prod.splits)

lemma push_elems_pieces: "push_elems es = push_pieces (sep_pieces (PByte 44) json_pieces es)"
  by (induction es rule: push_elems.induct)
     (simp_all add: jsonstr_pieces push_pieces_append push_pieces_Cons [of "PByte 44"])

lemma tag_pieces_push: "cursor_push_tag t = push_pieces (tag_pieces t)"
  by (simp add: cursor_push_tag_def tag_pieces_def push_elems_pieces push_pieces_Cons [of "PByte 91"]
      push_pieces_append)

lemma push_tag_list_pieces: "push_tag_list ts = push_pieces (sep_pieces (PStr [44]) tag_pieces ts)"
  by (induction ts rule: push_tag_list.induct)
     (simp_all add: tag_pieces_push push_pieces_append push_pieces_Cons [of "PStr [44]"])

lemma tags_pieces_push: "cursor_push_tags e ts = push_pieces (tags_pieces e ts)"
  by (simp add: cursor_push_tags_def tags_pieces_def push_tag_list_pieces push_pieces_Cons [of "PByte 91"]
      push_pieces_append split: option.split)

section \<open>The text and how it is read\<close>

definition escape :: "u8 \<Rightarrow> cstr" where
  "escape c = piece_bytes (escape_piece c)"

definition json_text :: "cstr \<Rightarrow> cstr" where
  "json_text s = 34 # concat (map escape s) @ [34]"

fun join_comma :: "cstr list \<Rightarrow> cstr" where
  "join_comma [] = []"
| "join_comma [x] = x"
| "join_comma (x # xs) = x @ 44 # join_comma xs"

definition list_text :: "('a \<Rightarrow> cstr) \<Rightarrow> 'a list \<Rightarrow> cstr" where
  "list_text f xs = 91 # join_comma (map f xs) @ [93]"

definition tags_text :: "cstr option \<Rightarrow> cstr list list \<Rightarrow> cstr" where
  "tags_text explicit_tags tags =
     (case explicit_tags of Some t \<Rightarrow> t | None \<Rightarrow> list_text (list_text json_text) tags)"

lemma json_pieces_bytes [simp]: "pieces_bytes (json_pieces s) = json_text s"
proof -
  have "pieces_bytes (map escape_piece s) = concat (map escape s)"
    by (induction s) (auto simp: pieces_bytes_def escape_def)
  then show ?thesis by (simp add: json_pieces_def json_text_def)
qed

lemma sep_pieces_bytes:
  "piece_bytes p = [44] \<Longrightarrow> pieces_bytes (sep_pieces p f xs) = join_comma (map (\<lambda>x. pieces_bytes (f x)) xs)"
proof (induction p f xs rule: sep_pieces.induct)
  case (3 p f x y xs)
  then show ?case by (simp add: pieces_bytes_def)
qed simp_all

lemma tags_pieces_bytes [simp]: "pieces_bytes (tags_pieces e ts) = tags_text e ts"
proof -
  have "pieces_bytes (tag_pieces t) = list_text json_text t" for t
    by (simp add: tag_pieces_def list_text_def sep_pieces_bytes)
  then show ?thesis
    by (simp add: tags_pieces_def tags_text_def list_text_def [of "list_text json_text"] sep_pieces_bytes
        split: option.split)
qed

lemma json_text_length: "length (json_text s) \<le> 2 * length s + 2"
proof -
  have "length (concat (map escape s)) \<le> 2 * length s"
    by (induction s) (auto simp: escape_def escape_piece_def)
  then show ?thesis by (simp add: json_text_def)
qed

text \<open>
  An inverse of the writer, which shows that its texts are uniquely readable; it starts after the opening
  quote. It is not a JSON parser: like the writer it leaves every other control character as it is.
\<close>

definition unescape :: "u8 \<Rightarrow> u8 option" where
  "unescape e =
     (if e = 34 then Some 34 else if e = 92 then Some 92
      else if e = chr CHR ''b'' then Some 8 else if e = chr CHR ''f'' then Some 12
      else if e = chr CHR ''n'' then Some 10 else if e = chr CHR ''r'' then Some 13
      else if e = chr CHR ''t'' then Some 9 else None)"

fun json_scan :: "cstr \<Rightarrow> (cstr \<times> cstr) option" where
  "json_scan [] = None"
| "json_scan (c # r) =
     (if c = 34 then Some ([], r)
      else if c = 92 then
        (case r of
           [] \<Rightarrow> None
         | e # r' \<Rightarrow>
             (case unescape e of
                None \<Rightarrow> None
              | Some v \<Rightarrow> map_option (\<lambda>(s, t). (v # s, t)) (json_scan r')))
      else map_option (\<lambda>(s, t). (c # s, t)) (json_scan r))"

definition json_read :: "cstr \<Rightarrow> (cstr \<times> cstr) option" where
  "json_read t = (case t of c # r \<Rightarrow> if c = 34 then json_scan r else None | [] \<Rightarrow> None)"

lemma json_scan_escape:
  "json_scan (escape c @ r) = map_option (\<lambda>(s, t). (c # s, t)) (json_scan r)"
  by (simp add: escape_def escape_piece_def unescape_def bytes_simps)

lemma json_scan_text: "json_scan (concat (map escape s) @ 34 # r) = Some (s, r)"
  by (induction s) (simp_all add: json_scan_escape)

lemma json_read_text: "json_read (json_text s @ r) = Some (s, r)"
  by (simp add: json_read_def json_text_def json_scan_text)

text \<open>
  Unique readability: a text that is a prefix of what follows determines the value and where the
  rest begins.
\<close>

locale prefix_code =
  fixes enc :: "'a \<Rightarrow> cstr"
  assumes enc_prefix: "enc x @ r = enc y @ s \<Longrightarrow> x = y \<and> r = s"
    and enc_start: "\<exists>c t. enc x = c # t \<and> c \<noteq> 93"
begin

lemma join_comma_prefix:
  "join_comma (map enc xs) @ 93 # r = join_comma (map enc ys) @ 93 # s \<Longrightarrow> xs = ys \<and> r = s"
proof (induction xs arbitrary: ys)
  case Nil
  show ?case
  proof (cases ys)
    case (Cons y ys')
    obtain c t where "enc y = c # t" "c \<noteq> 93" using enc_start by blast
    with Nil Cons show ?thesis by (cases ys') auto
  qed (use Nil in simp)
next
  case (Cons x xs)
  obtain c t where x: "enc x = c # t" "c \<noteq> 93" using enc_start by blast
  obtain y ys' where ys: "ys = y # ys'" using Cons.prems x by (cases ys; cases xs) auto
  define tl where "tl zs u = (if zs = [] then 93 # u else 44 # join_comma (map enc zs) @ 93 # u)" for zs u
  have split: "join_comma (map enc (z # zs)) @ 93 # u = enc z @ tl zs u" for z zs u
    by (cases zs) (auto simp: tl_def)
  from Cons.prems have "enc x @ tl xs r = enc y @ tl ys' s" unfolding ys split .
  then have "x = y" and "tl xs r = tl ys' s" using enc_prefix by blast+
  moreover from this(2) have "xs = ys' \<and> r = s"
    using Cons.IH [of ys'] by (cases "xs = []"; cases "ys' = []") (auto simp: tl_def)
  ultimately show ?case by (simp add: ys)
qed

lemma list_text_prefix: "list_text enc xs @ r = list_text enc ys @ s \<Longrightarrow> xs = ys \<and> r = s"
  using join_comma_prefix [of xs r ys s] by (simp add: list_text_def)

end

interpretation json_code: prefix_code json_text
proof
  fix x y r s
  assume "json_text x @ r = json_text y @ s"
  then have "json_read (json_text x @ r) = json_read (json_text y @ s)" by simp
  then show "x = y \<and> r = s" by (simp add: json_read_text)
next
  show "\<exists>c t. json_text x = c # t \<and> c \<noteq> 93" for x by (simp add: json_text_def)
qed

interpretation tag_code: prefix_code "list_text json_text"
proof
  show "list_text json_text x @ r = list_text json_text y @ s \<Longrightarrow> x = y \<and> r = s" for x y r s
    by (rule json_code.list_text_prefix)
  show "\<exists>c t. list_text json_text x = c # t \<and> c \<noteq> 93" for x by (simp add: list_text_def)
qed

section \<open>A string on a cursor\<close>

text \<open>
  \<open>cursor_push_jsonstr\<close> succeeds whenever the text fits in the room left with a byte to spare, and appends
  exactly that text. Which of these texts a JSON parser accepts is the subject of \<open>Json_Gnostr\<close>.
\<close>

lemma jsonstr_pushed:
  assumes "cursor_inv s" and "length (json_text x) < cursor_room s"
  shows "\<exists>s'. cursor_push_jsonstr x s = (True, s') \<and> cursor_inv s' \<and> cursor_frame s s' \<and>
              cursor_data s' = cursor_data s @ json_text x"
proof -
  have "fits (cursor_room s) (json_pieces x)" using assms(2) by (intro fits_if_room) simp
  from cursor_sink.pieces_ok [OF assms(1) this] show ?thesis
    by (auto simp: jsonstr_pieces push_pieces_def)
qed

end
