(* ===== verification/Event.thy ===== *)
theory Event
  imports Json Hex Sha256 Proof_Work
begin

unbundle bit_operations_syntax

text \<open>
  Events of \<^verbatim>\<open>gnostr.c\<close>: the structures, adding tags, the commitment a nostr event id hashes,
  the id itself, mining an id, and printing. The buffers of the source are regions of a memory;
  the static buffer of \<open>generate_event_id\<close> and the stack buffer of \<open>print_event\<close> are at address 0 of a
  memory of their own, whose old contents are shown to be irrelevant. A null content pointer is
  \<open>None\<close>, and reading it is \<open>Abort\<close>. Mining may run for ever, so its loop is a partial function whose
  value \<open>None\<close> means that it never returns.
\<close>

section \<open>The structures\<close>

definition MAX_TAGS :: nat where "MAX_TAGS = 32"
definition MAX_TAG_ELEMS :: nat where "MAX_TAG_ELEMS = 16"

text \<open>
  A tag is the list of its \<open>num_elems\<close> strings and the tags of an event are the first \<open>num_tags\<close>
  entries of its array.
\<close>

type_synonym nostr_tag = "cstr list"

record nostr_event =
  ev_id :: bytes
  ev_pubkey :: bytes
  ev_sig :: bytes
  ev_content :: "cstr option"
  ev_created_at :: u64
  ev_kind :: u32
  ev_explicit_tags :: "cstr option"
  ev_tags :: "nostr_tag list"

definition zero_event :: nostr_event where
  "zero_event = \<lparr>ev_id = replicate 32 0, ev_pubkey = replicate 32 0, ev_sig = replicate 64 0,
     ev_content = None, ev_created_at = 0, ev_kind = 0, ev_explicit_tags = None, ev_tags = []\<rparr>"

definition event_wf :: "nostr_event \<Rightarrow> bool" where
  "event_wf ev \<longleftrightarrow>
     length (ev_id ev) = 32 \<and> length (ev_pubkey ev) = 32 \<and> length (ev_sig ev) = 64 \<and>
     length (ev_tags ev) \<le> MAX_TAGS \<and> list_all (\<lambda>t. length t \<le> MAX_TAG_ELEMS) (ev_tags ev)"

section \<open>Tags\<close>

definition nostr_add_tag_n :: "nostr_event \<Rightarrow> cstr list \<Rightarrow> bool \<times> nostr_event" where
  "nostr_add_tag_n ev ts =
     (if length (ev_tags ev) + 1 > MAX_TAGS then (False, ev)
      else (True, ev\<lparr>ev_tags := ev_tags ev @ [ts]\<rparr>))"

definition nostr_add_tag :: "nostr_event \<Rightarrow> cstr \<Rightarrow> cstr \<Rightarrow> bool \<times> nostr_event" where
  "nostr_add_tag ev t1 t2 = nostr_add_tag_n ev [t1, t2]"

section \<open>The commitment and the id\<close>

definition event_commitment ::
  "nostr_event \<Rightarrow> addr \<Rightarrow> int \<Rightarrow> memory \<Rightarrow> (int \<times> memory) outcome" where
  "event_commitment ev buf buflen m =
     bind_outcome (hex_encode (ev_pubkey ev) 65) (\<lambda>r.
       case r of
         None \<Rightarrow> Abort
       | Some pubkey \<Rightarrow>
           (case ev_content ev of
              None \<Rightarrow> Abort
            | Some content \<Rightarrow>
                let cur = make_cursor buf (buf + buflen);
                    timebuf = snprintf 16 (dec_u (unat (ev_created_at ev)));
                    kindbuf = snprintf 16 (dec_s (sint (ev_kind ev)));
                    (ok, (cur, m)) =
                      and_all
                        [cursor_push_str (str ''[0,'' @ [34]),
                         cursor_push_str pubkey,
                         cursor_push_str (34 # str '',''),
                         cursor_push_str timebuf,
                         cursor_push_str (str '',''),
                         cursor_push_str kindbuf,
                         cursor_push_str (str '',''),
                         cursor_push_tags (ev_explicit_tags ev) (ev_tags ev),
                         cursor_push_str (str '',''),
                         cursor_push_jsonstr content,
                         cursor_push_str (str '']'')] (cur, m)
                in Ret (if \<not> ok then (0, m) else (c_p cur - c_start cur, m))))"

definition generate_event_id :: "nostr_event \<Rightarrow> (bool \<times> nostr_event) outcome" where
  "generate_event_id ev =
     bind_outcome (event_commitment ev 0 102400 (\<lambda>_. 0)) (\<lambda>(len, m).
       if len = 0 then Ret (False, ev)
       else bind_outcome (sha256 (mem_read m 0 (nat len))) (\<lambda>h. Ret (True, ev\<lparr>ev_id := h\<rparr>)))"

section \<open>Mining\<close>

fun find_nonce_tag :: "nostr_tag list \<Rightarrow> nat \<Rightarrow> nat option" where
  "find_nonce_tag [] i = None"
| "find_nonce_tag (t # ts) i =
     (if length t = 2 \<and> t ! 0 = str ''nonce'' then Some i else find_nonce_tag ts (i + 1))"

text \<open>Returns the C result, the index stored through the pointer, and the event.\<close>

definition ensure_nonce_tag :: "nostr_event \<Rightarrow> u32 \<Rightarrow> bool \<times> nat \<times> nostr_event" where
  "ensure_nonce_tag ev target =
     (case find_nonce_tag (ev_tags ev) 0 of
        Some i \<Rightarrow> (True, i, ev)
      | None \<Rightarrow>
          let str_target = snprintf 7 (dec_s (sint target));
              (ok, ev') = nostr_add_tag_n ev [str ''nonce'', str ''0'', str_target]
          in (ok, length (ev_tags ev), ev'))"

definition set_nonce :: "nat \<Rightarrow> u64 \<Rightarrow> nostr_event \<Rightarrow> nostr_event" where
  "set_nonce index nonce ev =
     ev\<lparr>ev_tags := (ev_tags ev)[index := (ev_tags ev ! index)[1 := snprintf 32 (dec_u (unat nonce))]]\<rparr>"

partial_function (option) mine_loop ::
  "nat \<Rightarrow> u32 \<Rightarrow> u64 \<Rightarrow> nostr_event \<Rightarrow> (bool \<times> nostr_event) outcome option" where
  "mine_loop index difficulty nonce ev =
     (let ev = set_nonce index nonce ev
      in case generate_event_id ev of
           Abort \<Rightarrow> Some Abort
         | Ret (ok, ev') \<Rightarrow>
             if \<not> ok then Some (Ret (False, ev'))
             else if count_leading_zero_bits (ev_id ev') \<ge> sint difficulty then Some (Ret (True, ev'))
             else mine_loop index difficulty (nonce + 1) ev')"

declare mine_loop.simps [code]

definition mine_event :: "nostr_event \<Rightarrow> u32 \<Rightarrow> (bool \<times> nostr_event) outcome option" where
  "mine_event ev difficulty =
     (case ensure_nonce_tag ev difficulty of (ok, index, ev) \<Rightarrow>
        if \<not> ok then Some (Ret (False, ev))
        else if \<not> (length (ev_tags ev ! index) = 3 \<and> ev_tags ev ! index ! 0 = str ''nonce'') then Some Abort
        else mine_loop index difficulty 0 ev)"

section \<open>Printing\<close>

text \<open>
  The result and what has been written to the standard output, also when the function gives up
  half way.
\<close>

definition print_head :: "nostr_event \<Rightarrow> bool \<Rightarrow> cstr \<Rightarrow> cstr \<Rightarrow> cstr \<Rightarrow> cstr" where
  "print_head ev envelope id_hex pubkey_hex tags =
     (if envelope then str ''['' @ [34] @ str ''EVENT'' @ [34] @ str '','' else [])
     @ str ''{'' @ [34] @ str ''id'' @ [34] @ str '': '' @ [34] @ id_hex @ [34] @ str '',''
     @ [34] @ str ''pubkey'' @ [34] @ str '': '' @ [34] @ pubkey_hex @ [34] @ str '',''
     @ [34] @ str ''created_at'' @ [34] @ str '': '' @ dec_u (unat (ev_created_at ev)) @ str '',''
     @ [34] @ str ''kind'' @ [34] @ str '': '' @ dec_s (sint (ev_kind ev)) @ str '',''
     @ [34] @ str ''tags'' @ [34] @ str '': '' @ tags @ str '',''"

definition print_tail :: "bool \<Rightarrow> cstr \<Rightarrow> cstr \<Rightarrow> cstr" where
  "print_tail envelope sig_hex content =
     [34] @ str ''content'' @ [34] @ str '': '' @ content @ str '',''
     @ [34] @ str ''sig'' @ [34] @ str '': '' @ [34] @ sig_hex @ [34] @ str ''}''
     @ (if envelope then str '']'' else []) @ [10]"

definition print_event :: "nostr_event \<Rightarrow> bool \<Rightarrow> (bool \<times> cstr) outcome" where
  "print_event ev envelope =
     bind_outcome (hex_encode (ev_id ev) 65) (\<lambda>ri.
     bind_outcome (hex_encode (ev_pubkey ev) 65) (\<lambda>rp.
     bind_outcome (hex_encode (ev_sig ev) 129) (\<lambda>rs.
       case (ri, rp, rs) of
         (Some id_hex, Some pubkey_hex, Some sig_hex) \<Rightarrow>
           (case cursor_push_tags (ev_explicit_tags ev) (ev_tags ev) (make_cursor 0 102400, (\<lambda>_. 0)) of
              (ok, (cur, m)) \<Rightarrow>
                if \<not> ok then Ret (False, [])
                else
                  let out = print_head ev envelope id_hex pubkey_hex
                              (mem_read m (c_start cur) (nat (cursor_len cur)))
                  in (case ev_content ev of
                        None \<Rightarrow> Abort
                      | Some content \<Rightarrow>
                          (case cursor_push_jsonstr content (reset_cursor cur, m) of
                             (ok, (cur, m)) \<Rightarrow>
                               if \<not> ok then Ret (False, out)
                               else Ret (True, out @ print_tail envelope sig_hex
                                           (mem_read m (c_start cur) (nat (cursor_len cur)))))))
       | _ \<Rightarrow> Abort)))"

section \<open>The commitment as a text\<close>

text \<open>The text of NIP-01, with the time and the kind as the source prints them.\<close>

definition commitment_head :: "nostr_event \<Rightarrow> cstr" where
  "commitment_head ev =
     str ''[0,'' @ [34] @ hex_text (ev_pubkey ev) @ [34] @ str '','' @
     snprintf 16 (dec_u (unat (ev_created_at ev))) @ str '','' @ dec_s (sint (ev_kind ev)) @ str '',''"

definition commitment_text :: "nostr_event \<Rightarrow> cstr" where
  "commitment_text ev =
     commitment_head ev @ tags_text (ev_explicit_tags ev) (ev_tags ev) @ str '','' @
     json_text (case ev_content ev of Some c \<Rightarrow> c | None \<Rightarrow> []) @ str '']''"

definition commitment_pieces :: "nostr_event \<Rightarrow> cstr \<Rightarrow> piece list" where
  "commitment_pieces ev content =
     [PStr (str ''[0,'' @ [34]), PStr (hex_text (ev_pubkey ev)), PStr (34 # str '',''),
      PStr (snprintf 16 (dec_u (unat (ev_created_at ev)))), PStr (str '',''),
      PStr (dec_s (sint (ev_kind ev))), PStr (str '','')]
     @ tags_pieces (ev_explicit_tags ev) (ev_tags ev) @ [PStr (str '','')] @ json_pieces content"

lemma commitment_pieces_bytes:
  "ev_content ev = Some content \<Longrightarrow>
   pieces_bytes (commitment_pieces ev content @ [PStr (str '']'')]) = commitment_text ev"
  by (simp add: commitment_pieces_def commitment_text_def commitment_head_def)

lemma kind_fits: "snprintf 16 (dec_s (sint (k :: u32))) = dec_s (sint k)"
  using length_dec_s_int32 [of k] by (intro snprintf_fits) simp

lemma event_commitment_pieces:
  assumes "length (ev_pubkey ev) = 32" and "ev_content ev = Some content"
  shows "event_commitment ev buf buflen m =
     (case push_pieces (commitment_pieces ev content @ [PStr (str '']'')]) (make_cursor buf (buf + buflen), m) of
        (ok, (cur, m)) \<Rightarrow> Ret (if \<not> ok then (0, m) else (c_p cur - c_start cur, m)))"
proof -
  let ?tags = "cursor_push_tags (ev_explicit_tags ev) (ev_tags ev)"
  let ?head = "[cursor_push_str (str ''[0,'' @ [34]), cursor_push_str (hex_text (ev_pubkey ev)),
     cursor_push_str (34 # str '',''),
     cursor_push_str (snprintf 16 (dec_u (unat (ev_created_at ev)))), cursor_push_str (str '',''),
     cursor_push_str (dec_s (sint (ev_kind ev))), cursor_push_str (str '','')]"
  have "and_all (?head @ [?tags] @ [cursor_push_str (str '','')] @ [cursor_push_jsonstr content]
                 @ [cursor_push_str (str '']'')])
        = push_pieces (commitment_pieces ev content @ [PStr (str '']'')])"
    by (simp only: commitment_pieces_def tags_pieces_push jsonstr_pieces push_pieces_def map_append
        list.map push_piece.simps and_all_append and_all_single append.assoc and_then_assoc)
  then show ?thesis
    using assms by (simp add: event_commitment_def hex_encode_spec hex_str_size_def kind_fits
        del: and_all.simps)
qed

lemma cursor_data_read:
  "mem_read m (c_start cur) (nat (cursor_len cur)) = cursor_data (cur, m)"
  by (simp add: cursor_data_def cursor_len_def)

text \<open>What the buffer holds: the text when it fits with a byte to spare, otherwise the result is 0.\<close>

lemma event_commitment_spec:
  assumes "length (ev_pubkey ev) = 32" and "ev_content ev = Some content"
    and "0 \<le> buflen" and "buflen < 2 ^ 31"
  shows "\<exists>m'. event_commitment ev buf buflen m =
             Ret (if int (length (commitment_text ev)) < buflen then int (length (commitment_text ev)) else 0, m') \<and>
           (int (length (commitment_text ev)) < buflen \<longrightarrow>
              mem_read m' buf (length (commitment_text ev)) = commitment_text ev) \<and>
           (\<forall>a. a < buf \<or> buf + buflen \<le> a \<longrightarrow> m' a = m a)"
proof -
  let ?ps = "commitment_pieces ev content @ [PStr (str '']'')]"
  let ?s = "(make_cursor buf (buf + buflen), m)"
  note bytes_eq = commitment_pieces_bytes [OF assms(2)]
  have inv: "cursor_inv ?s" using assms(3,4) by (intro make_cursor_inv) auto
  have len: "length (pieces_bytes (commitment_pieces ev content)) + 1 = length (commitment_text ev)"
    unfolding bytes_eq [symmetric] by simp
  have fit: "fits (cursor_room ?s) ?ps \<longleftrightarrow> int (length (commitment_text ev)) < buflen"
    unfolding fits_snoc_str using len by (auto simp: zless_nat_eq_int_zless)
  show ?thesis
  proof (cases "fits (cursor_room ?s) ?ps")
    case True
    from cursor_sink.pieces_ok [OF inv True] obtain cur m' where
      s': "push_pieces ?ps ?s = (True, (cur, m'))" "cursor_inv (cur, m')" "cursor_frame ?s (cur, m')"
        "cursor_data (cur, m') = commitment_text ev"
      by (auto simp: push_pieces_def commitment_pieces_bytes [OF assms(2), symmetric])
    have "int (length (commitment_text ev)) = cursor_len cur"
      using length_cursor_data [OF s'(2)] s'(4) by simp
    moreover from this s'(4) have "mem_read m' (c_start cur) (length (commitment_text ev)) = commitment_text ev"
      by (metis cursor_data_read nat_int)
    ultimately show ?thesis
      using s' True fit
      by (auto simp: event_commitment_pieces [OF assms(1,2)] cursor_len_def cursor_frame_def make_cursor_def)
  next
    case False
    from cursor_sink.pieces_full [OF inv False] obtain cur m' where
      "push_pieces ?ps ?s = (False, (cur, m'))" "cursor_frame ?s (cur, m')"
      by (auto simp: push_pieces_def)
    with False fit show ?thesis
      by (auto simp: event_commitment_pieces [OF assms(1,2)] cursor_frame_def make_cursor_def)
  qed
qed

lemma commitment_text_nonempty: "0 < length (commitment_text ev)"
  by (simp add: commitment_text_def)

lemma generate_event_id_spec:
  assumes "length (ev_pubkey ev) = 32" and "ev_content ev = Some content"
  shows "generate_event_id ev =
     Ret (if length (commitment_text ev) < 102400 then (True, ev\<lparr>ev_id := fips_sha256 (commitment_text ev)\<rparr>)
          else (False, ev))"
proof -
  obtain m' where "event_commitment ev 0 102400 (\<lambda>_. 0) =
      Ret (if int (length (commitment_text ev)) < 102400 then int (length (commitment_text ev)) else 0, m')"
    "int (length (commitment_text ev)) < 102400 \<longrightarrow>
       mem_read m' 0 (length (commitment_text ev)) = commitment_text ev"
    using event_commitment_spec [OF assms, of 102400 0 "\<lambda>_. 0"] by auto
  then show ?thesis
    using commitment_text_nonempty [of ev] by (auto simp: generate_event_id_def sha256_fips)
qed

section \<open>Tags and well-formed events\<close>

lemma nostr_add_tag_n_wf:
  "event_wf ev \<Longrightarrow> length ts \<le> MAX_TAG_ELEMS \<Longrightarrow> event_wf (snd (nostr_add_tag_n ev ts))"
  by (auto simp: event_wf_def nostr_add_tag_n_def)

lemma nostr_add_tag_wf: "event_wf ev \<Longrightarrow> event_wf (snd (nostr_add_tag ev a b))"
  unfolding nostr_add_tag_def by (rule nostr_add_tag_n_wf) (auto simp: MAX_TAG_ELEMS_def)

section \<open>The printed event\<close>

lemma tags_and_content_fit:
  assumes "length (commitment_text ev) < 102400" and "ev_content ev = Some content"
  shows "fits 102400 (tags_pieces (ev_explicit_tags ev) (ev_tags ev)) \<and> fits 102400 (json_pieces content)"
  using assms by (auto intro!: fits_if_room simp: commitment_text_def)

definition event_text :: "nostr_event \<Rightarrow> bool \<Rightarrow> cstr" where
  "event_text ev envelope =
     print_head ev envelope (hex_text (ev_id ev)) (hex_text (ev_pubkey ev))
       (tags_text (ev_explicit_tags ev) (ev_tags ev))
     @ print_tail envelope (hex_text (ev_sig ev))
         (json_text (case ev_content ev of Some c \<Rightarrow> c | None \<Rightarrow> []))"

lemma reset_cursor_sink:
  assumes "cursor_inv (cur, m)"
  shows "cursor_inv (reset_cursor cur, m') \<and> cursor_data (reset_cursor cur, m') = [] \<and>
         cursor_room (reset_cursor cur, m') = nat (c_end cur - c_start cur)"
  using assms by (auto simp: reset_cursor_def cursor_simps)

lemma print_event_spec:
  assumes "event_wf ev" and "ev_content ev = Some content"
    and "fits 102400 (tags_pieces (ev_explicit_tags ev) (ev_tags ev))" and "fits 102400 (json_pieces content)"
  shows "print_event ev envelope = Ret (True, event_text ev envelope)"
proof -
  let ?s = "(make_cursor 0 102400, (\<lambda>_. 0)) :: cst"
  have inv: "cursor_inv ?s" by (rule make_cursor_inv) simp_all
  from cursor_sink.pieces_ok [OF inv, of "tags_pieces (ev_explicit_tags ev) (ev_tags ev)"] assms(3)
  obtain cur m where s1: "push_pieces (tags_pieces (ev_explicit_tags ev) (ev_tags ev)) ?s = (True, (cur, m))"
    "cursor_inv (cur, m)" "cursor_frame ?s (cur, m)"
    "cursor_data (cur, m) = tags_text (ev_explicit_tags ev) (ev_tags ev)"
    by (auto simp: push_pieces_def)
  then have "cursor_room (reset_cursor cur, m) = 102400"
    using reset_cursor_sink [OF s1(2), of m] by (simp add: cursor_frame_def make_cursor_def)
  with cursor_sink.pieces_ok [of "(reset_cursor cur, m)" "json_pieces content"] assms(4)
    reset_cursor_sink [OF s1(2), of m]
  obtain cur2 m2 where s2: "push_pieces (json_pieces content) (reset_cursor cur, m) = (True, (cur2, m2))"
    "cursor_data (cur2, m2) = json_text content"
    by (auto simp: push_pieces_def)
  from assms(1) have len: "length (ev_id ev) = 32" "length (ev_pubkey ev) = 32" "length (ev_sig ev) = 64"
    by (auto simp: event_wf_def)
  show ?thesis
    by (simp add: print_event_def hex_encode_spec hex_str_size_def len tags_pieces_push jsonstr_pieces
        s1 s2 assms(2) cursor_data_read event_text_def Let_def)
qed

section \<open>What the commitment determines\<close>

lemma sep_split:
  assumes "c \<notin> set xs" and "c \<notin> set ys" and "xs @ c # r = ys @ c # s"
  shows "xs = ys \<and> r = s"
proof -
  have "takeWhile (\<lambda>x. x \<noteq> c) (zs @ c # t) = zs \<and> dropWhile (\<lambda>x. x \<noteq> c) (zs @ c # t) = c # t"
    if "c \<notin> set zs" for zs t
    using that by (induction zs) auto
  with assms show ?thesis by (metis list.inject)
qed

lemma dec_u_no_comma: "44 \<notin> set (dec_u n)" "45 \<notin> set (dec_u n)"
  using dec_u_digits [of n] by auto

lemma dec_s_no_comma: "44 \<notin> set (dec_s i)"
  by (auto simp: dec_s_def chr_def dec_u_no_comma)

lemma dec_s_inject: "dec_s i = dec_s j \<Longrightarrow> i = j"
proof -
  assume eq: "dec_s i = dec_s j"
  have minus: "dec_u n \<noteq> 45 # t" for n t using dec_u_no_comma(2) [of n] by (metis list.set_intros(1))
  show "i = j"
  proof (cases "i < 0"; cases "j < 0")
    assume "i < 0" "j < 0"
    with eq have "nat (- i) = nat (- j)" by (auto simp: dec_s_def intro: dec_u_inject)
    with \<open>i < 0\<close> \<open>j < 0\<close> show ?thesis by linarith
  next
    assume "\<not> i < 0" "\<not> j < 0"
    with eq have "nat i = nat j" by (auto simp: dec_s_def intro: dec_u_inject)
    with \<open>\<not> i < 0\<close> \<open>\<not> j < 0\<close> show ?thesis by linarith
  qed (use eq minus minus [symmetric] in \<open>auto simp: dec_s_def chr_def\<close>)
qed

lemma time_fits: "unat (t :: u64) < 10 ^ 15 \<Longrightarrow> snprintf 16 (dec_u (unat t)) = dec_u (unat t)"
  using length_dec_u_le [of 15 "unat t"] by (intro snprintf_fits) simp

lemma commitment_determines:
  assumes "length (ev_pubkey ev) = 32" and "length (ev_pubkey ev') = 32"
    and "unat (ev_created_at ev) < 10 ^ 15" and "unat (ev_created_at ev') < 10 ^ 15"
    and "ev_explicit_tags ev = None" and "ev_explicit_tags ev' = None"
    and "ev_content ev = Some c" and "ev_content ev' = Some c'"
    and "commitment_text ev = commitment_text ev'"
  shows "ev_pubkey ev = ev_pubkey ev' \<and> ev_created_at ev = ev_created_at ev' \<and>
         ev_kind ev = ev_kind ev' \<and> ev_tags ev = ev_tags ev' \<and> c = c'"
proof -
  let ?rest = "\<lambda>e c. list_text (list_text json_text) (ev_tags e) @ 44 # json_text c @ [93]"
  let ?kind = "\<lambda>e. dec_s (sint (ev_kind e))" and ?time = "\<lambda>e. dec_u (unat (ev_created_at e))"
  have "hex_text (ev_pubkey ev) @ 34 # 44 # ?time ev @ 44 # ?kind ev @ 44 # ?rest ev c
        = hex_text (ev_pubkey ev') @ 34 # 44 # ?time ev' @ 44 # ?kind ev' @ 44 # ?rest ev' c'"
    using assms(9)
    by (simp add: commitment_text_def commitment_head_def tags_text_def time_fits [OF assms(3)]
        time_fits [OF assms(4)] assms(5-8) bytes_simps)
  then have 1: "hex_text (ev_pubkey ev) = hex_text (ev_pubkey ev')"
    "?time ev @ 44 # ?kind ev @ 44 # ?rest ev c = ?time ev' @ 44 # ?kind ev' @ 44 # ?rest ev' c'"
    using assms(1,2) by simp_all
  from sep_split [OF dec_u_no_comma(1) dec_u_no_comma(1) 1(2)]
  have 2: "?time ev = ?time ev'" "?kind ev @ 44 # ?rest ev c = ?kind ev' @ 44 # ?rest ev' c'" by simp_all
  from sep_split [OF dec_s_no_comma dec_s_no_comma 2(2)]
  have 3: "?kind ev = ?kind ev'" "?rest ev c = ?rest ev' c'" by simp_all
  from tag_code.list_text_prefix [OF 3(2)]
  have 4: "ev_tags ev = ev_tags ev'" "json_text c @ [93] = json_text c' @ [93]" by simp_all
  from json_code.enc_prefix [OF 4(2)] have "c = c'" by simp
  moreover have "sint (ev_kind ev) = sint (ev_kind ev')" using 3(1) by (rule dec_s_inject)
  then have "ev_kind ev = ev_kind ev'" by (rule signed_word_eqI)
  moreover have "unat (ev_created_at ev) = unat (ev_created_at ev')" using 2(1) by (rule dec_u_inject)
  then have "ev_created_at ev = ev_created_at ev'" by (simp add: word_unat_eq_iff)
  ultimately show ?thesis using 1(1) 4(1) by (simp add: hex_codec.enc_inject)
qed

text \<open>The serialisation of NIP-01, which prints the whole time.\<close>

definition nip01_text :: "nostr_event \<Rightarrow> cstr" where
  "nip01_text ev =
     str ''[0,'' @ [34] @ hex_text (ev_pubkey ev) @ [34] @ str '','' @
     dec_u (unat (ev_created_at ev)) @ str '','' @ dec_s (sint (ev_kind ev)) @ str '','' @
     tags_text (ev_explicit_tags ev) (ev_tags ev) @ str '','' @
     json_text (case ev_content ev of Some c \<Rightarrow> c | None \<Rightarrow> []) @ str '']''"

lemma commitment_is_nip01:
  "commitment_text ev = nip01_text ev \<longleftrightarrow> unat (ev_created_at ev) < 10 ^ 15"
proof
  assume "unat (ev_created_at ev) < 10 ^ 15"
  then show "commitment_text ev = nip01_text ev"
    by (simp add: commitment_text_def commitment_head_def nip01_text_def time_fits)
next
  assume "commitment_text ev = nip01_text ev"
  then have "snprintf 16 (dec_u (unat (ev_created_at ev))) = dec_u (unat (ev_created_at ev))"
    by (simp add: commitment_text_def commitment_head_def nip01_text_def)
  then have "length (dec_u (unat (ev_created_at ev))) \<le> 15"
    by (metis diff_Suc_1 length_take min.cobounded2 numeral_eq_Suc pred_numeral_simps(2) snprintf_def
        semiring_norm(26) semiring_norm(27) semiring_norm(28))
  then show "unat (ev_created_at ev) < 10 ^ 15"
    using length_dec_u_gt [of 15 "unat (ev_created_at ev)"] by linarith
qed

section \<open>Mining\<close>

text \<open>The event the loop tries at a nonce, and what it needs of the event it starts from.\<close>

definition mined_id :: "nat \<Rightarrow> u64 \<Rightarrow> nostr_event \<Rightarrow> bytes" where
  "mined_id index nonce ev = fips_sha256 (commitment_text (set_nonce index nonce ev))"

definition mine_fits :: "nat \<Rightarrow> u64 \<Rightarrow> nostr_event \<Rightarrow> bool" where
  "mine_fits index nonce ev \<longleftrightarrow> length (commitment_text (set_nonce index nonce ev)) < 102400"

definition mine_hit :: "nat \<Rightarrow> u32 \<Rightarrow> u64 \<Rightarrow> nostr_event \<Rightarrow> bool" where
  "mine_hit index difficulty nonce ev \<longleftrightarrow>
     sint difficulty \<le> count_leading_zero_bits (mined_id index nonce ev)"

definition mineable :: "nat \<Rightarrow> nostr_event \<Rightarrow> bool" where
  "mineable index ev \<longleftrightarrow>
     length (ev_pubkey ev) = 32 \<and> ev_content ev \<noteq> None \<and>
     index < length (ev_tags ev) \<and> length (ev_tags ev ! index) = 3"

lemma commitment_text_id [simp]: "commitment_text (ev\<lparr>ev_id := h\<rparr>) = commitment_text ev"
  by (simp add: commitment_text_def commitment_head_def)

lemma set_nonce_twice:
  "set_nonce index n ((set_nonce index k ev)\<lparr>ev_id := h\<rparr>) = (set_nonce index n ev)\<lparr>ev_id := h\<rparr>"
  by (cases "index < length (ev_tags ev)") (simp_all add: set_nonce_def list_update_beyond)

lemma mine_step_invariants [simp]:
  "mined_id index n ((set_nonce index k ev)\<lparr>ev_id := h\<rparr>) = mined_id index n ev"
  "mine_fits index n ((set_nonce index k ev)\<lparr>ev_id := h\<rparr>) = mine_fits index n ev"
  "mine_hit index d n ((set_nonce index k ev)\<lparr>ev_id := h\<rparr>) = mine_hit index d n ev"
  by (simp_all add: mined_id_def mine_fits_def mine_hit_def set_nonce_twice)

lemma mineable_step: "mineable index ev \<Longrightarrow> mineable index ((set_nonce index k ev)\<lparr>ev_id := h\<rparr>)"
  by (simp add: mineable_def set_nonce_def)

definition mine_body ::
  "(nat \<Rightarrow> u32 \<Rightarrow> u64 \<Rightarrow> nostr_event \<Rightarrow> (bool \<times> nostr_event) outcome option) \<Rightarrow>
   nat \<Rightarrow> u32 \<Rightarrow> u64 \<Rightarrow> nostr_event \<Rightarrow> (bool \<times> nostr_event) outcome option" where
  "mine_body loop index difficulty nonce ev =
     (let ev = set_nonce index nonce ev
      in case generate_event_id ev of
           Abort \<Rightarrow> Some Abort
         | Ret (ok, ev') \<Rightarrow>
             if \<not> ok then Some (Ret (False, ev'))
             else if count_leading_zero_bits (ev_id ev') \<ge> sint difficulty then Some (Ret (True, ev'))
             else loop index difficulty (nonce + 1) ev')"

lemma mine_body_spec:
  assumes "mineable index ev"
  shows "mine_body loop index d n ev =
     (if \<not> mine_fits index n ev then Some (Ret (False, set_nonce index n ev))
      else if mine_hit index d n ev then Some (Ret (True, (set_nonce index n ev)\<lparr>ev_id := mined_id index n ev\<rparr>))
      else loop index d (n + 1) ((set_nonce index n ev)\<lparr>ev_id := mined_id index n ev\<rparr>))"
proof -
  from assms obtain c where "length (ev_pubkey (set_nonce index n ev)) = 32"
    "ev_content (set_nonce index n ev) = Some c"
    by (auto simp: mineable_def set_nonce_def)
  note g = generate_event_id_spec [OF this]
  show ?thesis by (simp add: mine_body_def g mine_fits_def mine_hit_def mined_id_def Let_def)
qed

lemma mine_loop_unfold: "mineable index ev \<Longrightarrow> mine_loop index d n ev =
     (if \<not> mine_fits index n ev then Some (Ret (False, set_nonce index n ev))
      else if mine_hit index d n ev then Some (Ret (True, (set_nonce index n ev)\<lparr>ev_id := mined_id index n ev\<rparr>))
      else mine_loop index d (n + 1) ((set_nonce index n ev)\<lparr>ev_id := mined_id index n ev\<rparr>))"
  using mine_body_spec [of index ev mine_loop d n] mine_loop.simps [of index d n ev]
  by (simp add: mine_body_def)

text \<open>The loop reaches the first nonce that hits.\<close>

lemma mine_loop_reaches:
  assumes "mineable index ev" and "\<And>i. i \<le> j \<Longrightarrow> mine_fits index (k + of_nat i) ev"
    and "\<And>i. i < j \<Longrightarrow> \<not> mine_hit index d (k + of_nat i) ev" and "mine_hit index d (k + of_nat j) ev"
  shows "mine_loop index d k ev =
     Some (Ret (True, (set_nonce index (k + of_nat j) ev)\<lparr>ev_id := mined_id index (k + of_nat j) ev\<rparr>))"
  using assms
proof (induction j arbitrary: k ev)
  case 0
  from 0(1) 0(2) [of 0] 0(4) show ?case by (simp add: mine_loop_unfold)
next
  case (Suc j)
  let ?ev = "(set_nonce index k ev)\<lparr>ev_id := mined_id index k ev\<rparr>"
  have shift: "k + 1 + of_nat i = k + of_nat (Suc i)" for i by simp
  have "mine_loop index d (k + 1) ?ev =
     Some (Ret (True, (set_nonce index (k + 1 + of_nat j) ?ev)\<lparr>ev_id := mined_id index (k + 1 + of_nat j) ?ev\<rparr>))"
  proof (rule Suc.IH)
    show "mineable index ?ev" using Suc.prems(1) by (rule mineable_step)
    show "mine_fits index (k + 1 + of_nat i) ?ev" if "i \<le> j" for i
      unfolding shift mine_step_invariants using that by (intro Suc.prems(2)) simp
    show "\<not> mine_hit index d (k + 1 + of_nat i) ?ev" if "i < j" for i
      unfolding shift mine_step_invariants using that by (intro Suc.prems(3)) simp
    show "mine_hit index d (k + 1 + of_nat j) ?ev"
      unfolding shift mine_step_invariants by (rule Suc.prems(4))
  qed
  moreover have "mine_fits index k ev" "\<not> mine_hit index d k ev"
    using Suc.prems(2) [of 0] Suc.prems(3) [of 0] by simp_all
  ultimately show ?case
    unfolding shift using Suc.prems(1) by (simp add: mine_loop_unfold [of index ev d k] set_nonce_twice)
qed

text \<open>A result of the loop comes from some nonce.\<close>

definition mine_outcome :: "nat \<Rightarrow> u32 \<Rightarrow> nostr_event \<Rightarrow> (bool \<times> nostr_event) outcome \<Rightarrow> bool" where
  "mine_outcome index d ev r \<longleftrightarrow>
     (\<exists>k. mine_fits index k ev \<and> mine_hit index d k ev \<and>
          r = Ret (True, (set_nonce index k ev)\<lparr>ev_id := mined_id index k ev\<rparr>)) \<or>
     (\<exists>k h. \<not> mine_fits index k ev \<and> r = Ret (False, (set_nonce index k ev)\<lparr>ev_id := h\<rparr>))"

lemma mine_outcome_step:
  "mine_outcome index d ((set_nonce index n ev)\<lparr>ev_id := h\<rparr>) r \<Longrightarrow> mine_outcome index d ev r"
  unfolding mine_outcome_def mine_step_invariants set_nonce_twice by auto

lemma mine_body_result:
  assumes "mine_body loop index d n ev = Some r" and m: "mineable index ev"
    and IH: "\<And>ev'. loop index d (n + 1) ev' = Some r \<Longrightarrow> mineable index ev' \<Longrightarrow> mine_outcome index d ev' r"
  shows "mine_outcome index d ev r"
proof (cases "mine_fits index n ev")
  case False
  then have "r = Ret (False, (set_nonce index n ev)\<lparr>ev_id := ev_id (set_nonce index n ev)\<rparr>)"
    using assms(1) by (simp add: mine_body_spec [OF m])
  with False show ?thesis unfolding mine_outcome_def by blast
next
  case fits: True
  show ?thesis
  proof (cases "mine_hit index d n ev")
    case True
    with fits assms(1) show ?thesis by (auto simp: mine_body_spec [OF m] mine_outcome_def)
  next
    case False
    with fits assms(1) show ?thesis
      by (intro mine_outcome_step [OF IH [OF _ mineable_step [OF m]]]) (simp add: mine_body_spec [OF m])
  qed
qed

lemma mine_loop_result:
  assumes "mine_loop index d n ev = Some r" and "mineable index ev"
  shows "mine_outcome index d ev r"
proof -
  have "mineable index ev \<longrightarrow> mine_outcome index d ev r"
    by (rule mine_loop.raw_induct [where P = "\<lambda>index d n ev r. mineable index ev \<longrightarrow> mine_outcome index d ev r",
          OF _ assms(1)], fold mine_body_def, blast intro: mine_body_result)
  with assms(2) show ?thesis by blast
qed

lemma nonce_text: "snprintf 32 (dec_u (unat (n :: u64))) = dec_u (unat n)"
proof -
  have "unat n < 2 ^ LENGTH(64)" by (rule unsigned_less)
  then have "unat n < 10 ^ 20" by simp
  from length_dec_u_le [OF _ this] show ?thesis by (intro snprintf_fits) simp
qed

lemma find_nonce_tag_None:
  "find_nonce_tag ts i = None \<longleftrightarrow> (\<forall>t \<in> set ts. \<not> (length t = 2 \<and> t ! 0 = str ''nonce''))"
  by (induction ts i rule: find_nonce_tag.induct) auto

lemma find_nonce_tag_Some:
  "find_nonce_tag ts i = Some j \<Longrightarrow> i \<le> j \<and> j - i < length ts \<and> length (ts ! (j - i)) = 2"
  by (induction ts i rule: find_nonce_tag.induct) (auto simp: nth_Cons' Suc_diff_le split: if_splits)

definition nonce_tag :: "u64 \<Rightarrow> u32 \<Rightarrow> nostr_tag" where
  "nonce_tag n target = [str ''nonce'', dec_u (unat n), snprintf 7 (dec_s (sint target))]"

text \<open>The event with its nonce tag added, at nonce \<open>n\<close>.\<close>

definition with_nonce :: "nostr_event \<Rightarrow> u32 \<Rightarrow> u64 \<Rightarrow> nostr_event" where
  "with_nonce ev target n = ev\<lparr>ev_tags := ev_tags ev @ [nonce_tag n target]\<rparr>"

definition nonce_added :: "nostr_event \<Rightarrow> u32 \<Rightarrow> nostr_event" where
  "nonce_added ev target =
     ev\<lparr>ev_tags := ev_tags ev @ [[str ''nonce'', str ''0'', snprintf 7 (dec_s (sint target))]]\<rparr>"

lemma set_nonce_added: "set_nonce (length (ev_tags ev)) n (nonce_added ev d) = with_nonce ev d n"
  by (simp add: set_nonce_def nonce_added_def with_nonce_def nonce_tag_def nonce_text)

lemma mine_event_loop:
  assumes "find_nonce_tag (ev_tags ev) 0 = None" and "length (ev_tags ev) < MAX_TAGS"
  shows "mine_event ev d = mine_loop (length (ev_tags ev)) d 0 (nonce_added ev d)"
  using assms
  by (simp add: mine_event_def ensure_nonce_tag_def nostr_add_tag_n_def Let_def nonce_added_def)

lemma mineable_added:
  "length (ev_pubkey ev) = 32 \<Longrightarrow> ev_content ev = Some c \<Longrightarrow>
   mineable (length (ev_tags ev)) (nonce_added ev d)"
  by (simp add: mineable_def nonce_added_def)

lemma mine_event_True:
  assumes "mine_event ev d = Some (Ret (True, ev'))"
  shows "find_nonce_tag (ev_tags ev) 0 = None \<and> length (ev_tags ev) < MAX_TAGS"
proof -
  have "find_nonce_tag (ev_tags ev) 0 = None"
  proof (rule ccontr)
    assume "\<not> ?thesis"
    then obtain i where i: "find_nonce_tag (ev_tags ev) 0 = Some i" by auto
    from assms find_nonce_tag_Some [OF i] show False
      by (simp add: mine_event_def ensure_nonce_tag_def i)
  qed
  moreover from this assms have "length (ev_tags ev) < MAX_TAGS"
    by (auto simp: mine_event_def ensure_nonce_tag_def nostr_add_tag_n_def Let_def split: if_splits)
  ultimately show ?thesis by blast
qed

lemmas mine_views = mined_id_def mine_fits_def mine_hit_def set_nonce_added

section \<open>Properties\<close>

text \<open>
  C4. The commitment: with a content and a 32-byte public key, \<open>event_commitment\<close> never fails its
  assertion and never writes outside the buffer; when the serialised event is shorter than the
  buffer it stores exactly that text and returns its length, otherwise it returns 0.
\<close>

theorem commitment_correct:
  assumes "length (ev_pubkey ev) = 32" and "ev_content ev = Some content"
    and "0 \<le> buflen" and "buflen < 2 ^ 31"
  shows "\<exists>m'. event_commitment ev buf buflen m =
             Ret (if int (length (commitment_text ev)) < buflen then int (length (commitment_text ev)) else 0, m') \<and>
           (int (length (commitment_text ev)) < buflen \<longrightarrow>
              mem_read m' buf (length (commitment_text ev)) = commitment_text ev) \<and>
           (\<forall>a. a < buf \<or> buf + buflen \<le> a \<longrightarrow> m' a = m a)"
  by (rule event_commitment_spec [OF assms])

theorem commitment_correct_witness:
  "\<exists>m'. event_commitment (zero_event\<lparr>ev_content := Some [65]\<rparr>) 100 10 (\<lambda>_. 7) = Ret (0, m') \<and> m' 110 = 7"
proof -
  let ?ev = "zero_event\<lparr>ev_content := Some [65]\<rparr>"
  have "length (ev_pubkey ?ev) = 32" "ev_content ?ev = Some [65]" by (simp_all add: zero_event_def)
  from commitment_correct [OF this, of 10 100 "\<lambda>_. 7"] show ?thesis
    by (auto simp: commitment_text_def commitment_head_def zero_event_def)
qed

text \<open>
  C5. The event id: \<open>generate_event_id\<close> stores the SHA-256 hash of the commitment, as FIPS 180-4
  defines it, exactly when the commitment is shorter than its buffer; the commitment is the
  serialisation of NIP-01 exactly for times below \<open>10\<^sup>1\<^sup>5\<close>, since the time is cut to 15 digits.
\<close>

theorem event_id_correct:
  assumes "length (ev_pubkey ev) = 32" and "ev_content ev = Some content"
  shows "generate_event_id ev =
     Ret (if length (commitment_text ev) < 102400 then (True, ev\<lparr>ev_id := fips_sha256 (commitment_text ev)\<rparr>)
          else (False, ev)) \<and>
     (commitment_text ev = nip01_text ev \<longleftrightarrow> unat (ev_created_at ev) < 10 ^ 15)"
  using generate_event_id_spec [OF assms] commitment_is_nip01 by blast

theorem event_id_correct_witness:
  "commitment_text (zero_event\<lparr>ev_content := Some [65]\<rparr>) = nip01_text (zero_event\<lparr>ev_content := Some [65]\<rparr>)"
proof -
  let ?ev = "zero_event\<lparr>ev_content := Some [65]\<rparr>"
  have "length (ev_pubkey ?ev) = 32" "ev_content ?ev = Some [65]" "unat (ev_created_at ?ev) < 10 ^ 15"
    by (simp_all add: zero_event_def)
  with event_id_correct [OF this(1,2)] show ?thesis by blast
qed

text \<open>The bytes a successful call of \<open>event_commitment\<close> leaves in the buffer.\<close>

lemma event_commitment_stored:
  assumes "length (ev_pubkey ev) = 32" and "ev_content ev = Some content"
    and "0 \<le> buflen" and "buflen < 2 ^ 31"
    and "event_commitment ev buf buflen m = Ret (len, m')" and "len \<noteq> 0"
  shows "mem_read m' buf (nat len) = commitment_text ev"
  using event_commitment_spec [OF assms(1-4), of buf m] assms(5,6) by (auto split: if_splits)

text \<open>
  C20. An id commits to everything it should: when two calls of \<open>event_commitment\<close>, for events without
  explicit tags and with times below \<open>10\<^sup>1\<^sup>5\<close> (the time is cut to 15 digits, and explicit tags are copied
  as they are), succeed and leave the same bytes in their buffers, then the events have the same public
  key, time, kind, tags and content. So no field can be moved into another by quotes, commas or
  brackets in the user's text.
\<close>

theorem commitment_injective:
  assumes "length (ev_pubkey ev) = 32" and "length (ev_pubkey ev') = 32"
    and "unat (ev_created_at ev) < 10 ^ 15" and "unat (ev_created_at ev') < 10 ^ 15"
    and "ev_explicit_tags ev = None" and "ev_explicit_tags ev' = None"
    and "ev_content ev = Some c" and "ev_content ev' = Some c'"
    and "0 \<le> buflen" and "buflen < 2 ^ 31" and "0 \<le> buflen'" and "buflen' < 2 ^ 31"
    and "event_commitment ev buf buflen m = Ret (len, m1)" and "len \<noteq> 0"
    and "event_commitment ev' buf' buflen' m' = Ret (len', m1')" and "len' \<noteq> 0"
    and "mem_read m1 buf (nat len) = mem_read m1' buf' (nat len')"
  shows "ev_pubkey ev = ev_pubkey ev' \<and> ev_created_at ev = ev_created_at ev' \<and>
         ev_kind ev = ev_kind ev' \<and> ev_tags ev = ev_tags ev' \<and> c = c'"
proof -
  have "commitment_text ev = commitment_text ev'"
    using event_commitment_stored [OF assms(1,7,9,10,13,14)] event_commitment_stored [OF assms(2,8,11,12,15,16)]
      assms(17) by simp
  then show ?thesis by (rule commitment_determines [OF assms(1-8)])
qed

theorem commitment_injective_witness:
  "\<exists>m1 m2. event_commitment (zero_event\<lparr>ev_content := Some []\<rparr>) 0 200 (\<lambda>_. 0) = Ret (80, m1) \<and>
     event_commitment (zero_event\<lparr>ev_content := Some [], ev_kind := 1\<rparr>) 500 300 (\<lambda>_. 7) = Ret (80, m2) \<and>
     mem_read m1 0 80 \<noteq> mem_read m2 500 80"
proof -
  let ?e1 = "zero_event\<lparr>ev_content := Some []\<rparr>" and ?e2 = "zero_event\<lparr>ev_content := Some [], ev_kind := 1\<rparr>"
  have len: "length (commitment_text ?e1) = 80" "length (commitment_text ?e2) = 80"
    by (simp_all add: commitment_text_def commitment_head_def zero_event_def tags_text_def list_text_def
        json_text_def escape_def snprintf_def dec_s_def dec_u.simps bytes_simps)
  have ev: "length (ev_pubkey ?e1) = 32" "length (ev_pubkey ?e2) = 32" "unat (ev_created_at ?e1) < 10 ^ 15"
    "unat (ev_created_at ?e2) < 10 ^ 15" "ev_explicit_tags ?e1 = None" "ev_explicit_tags ?e2 = None"
    "ev_content ?e1 = Some []" "ev_content ?e2 = Some []" by (simp_all add: zero_event_def)
  obtain m1 m2 where r: "event_commitment ?e1 0 200 (\<lambda>_. 0) = Ret (80, m1)"
    "event_commitment ?e2 500 300 (\<lambda>_. 7) = Ret (80, m2)"
    using event_commitment_spec [OF ev(1,7), of 200 0 "\<lambda>_. 0"]
      event_commitment_spec [OF ev(2,8), of 300 500 "\<lambda>_. 7"] len by auto
  have "ev_kind ?e1 \<noteq> ev_kind ?e2" by (simp add: zero_event_def)
  with commitment_injective [OF ev _ _ _ _ r(1) _ r(2)] have "mem_read m1 0 80 \<noteq> mem_read m2 500 80" by auto
  with r show ?thesis by blast
qed

text \<open>
  C21. What mining delivers: when \<open>mine_event\<close> succeeds, the id is the hash of the commitment of the
  event it leaves behind, has at least the requested number of leading zero bits, and the event is
  the one given plus one tag that names the nonce and the difficulty.
\<close>

theorem mine_event_sound:
  assumes "length (ev_pubkey ev) = 32" and "ev_content ev = Some c"
    and "mine_event ev d = Some (Ret (True, ev'))"
  shows "\<exists>n. ev' = (with_nonce ev d n)\<lparr>ev_id := ev_id ev'\<rparr> \<and> ev_id ev' = fips_sha256 (commitment_text ev') \<and>
             sint d \<le> count_leading_zero_bits (ev_id ev')"
proof -
  note found = mine_event_True [OF assms(3)]
  have "mine_outcome (length (ev_tags ev)) d (nonce_added ev d) (Ret (True, ev'))"
    using assms(3) found
    by (intro mine_loop_result [OF _ mineable_added [OF assms(1,2)]]) (simp add: mine_event_loop)
  then obtain n where "mine_hit (length (ev_tags ev)) d n (nonce_added ev d)"
    "ev' = (with_nonce ev d n)\<lparr>ev_id := mined_id (length (ev_tags ev)) n (nonce_added ev d)\<rparr>"
    by (auto simp: mine_outcome_def set_nonce_added)
  then show ?thesis by (intro exI [of _ n]) (simp add: mine_views)
qed

theorem mine_event_sound_witness:
  "\<exists>ev'. mine_event (zero_event\<lparr>ev_content := Some []\<rparr>) 0 = Some (Ret (True, ev')) \<and>
         ev_id ev' = fips_sha256 (commitment_text ev')"
proof -
  let ?ev = "zero_event\<lparr>ev_content := Some []\<rparr>"
  have ev: "length (ev_pubkey ?ev) = 32" "ev_content ?ev = Some []" by (simp_all add: zero_event_def)
  have "mine_fits 0 0 (nonce_added ?ev 0)"
    by (simp add: mine_fits_def set_nonce_def nonce_added_def zero_event_def commitment_text_def
        commitment_head_def tags_text_def list_text_def json_text_def escape_def escape_piece_def
        dec_s_def dec_u.simps snprintf_def bytes_simps)
  moreover have "mine_hit 0 0 0 (nonce_added ?ev 0)"
    by (simp add: mine_hit_def mined_id_def count_spec)
  ultimately have "mine_event ?ev 0 = Some (Ret (True,
      (set_nonce 0 0 (nonce_added ?ev 0))\<lparr>ev_id := mined_id 0 0 (nonce_added ?ev 0)\<rparr>))"
    using mine_event_loop [of ?ev 0] mine_loop_unfold [OF mineable_added [OF ev, of 0], of 0 0]
    by (simp add: zero_event_def MAX_TAGS_def)
  with mine_event_sound [OF ev this] show ?thesis by blast
qed

text \<open>
  C22. When mining stops: if some nonce gives an id that is good enough and the commitments up to it
  fit the buffer, \<open>mine_event\<close> returns with the first such nonce; if every commitment fits and no
  nonce of the \<open>2\<^sup>6\<^sup>4\<close> is good enough, it never returns.
\<close>

theorem mine_event_returns:
  assumes "length (ev_pubkey ev) = 32" and "ev_content ev = Some c"
    and "find_nonce_tag (ev_tags ev) 0 = None" and "length (ev_tags ev) < MAX_TAGS"
    and "\<forall>n. length (commitment_text (with_nonce ev d n)) < 102400"
  shows "(sint d \<le> count_leading_zero_bits (fips_sha256 (commitment_text (with_nonce ev d (of_nat j)))) \<and>
          (\<forall>i < j. count_leading_zero_bits (fips_sha256 (commitment_text (with_nonce ev d (of_nat i)))) < sint d)
          \<longrightarrow> mine_event ev d = Some (Ret (True, (with_nonce ev d (of_nat j))
                \<lparr>ev_id := fips_sha256 (commitment_text (with_nonce ev d (of_nat j)))\<rparr>))) \<and>
         ((\<forall>n. count_leading_zero_bits (fips_sha256 (commitment_text (with_nonce ev d n))) < sint d)
          \<longrightarrow> mine_event ev d = None)"
proof (intro conjI impI)
  note m = mineable_added [OF assms(1,2), of d]
  assume "sint d \<le> count_leading_zero_bits (fips_sha256 (commitment_text (with_nonce ev d (of_nat j)))) \<and>
    (\<forall>i < j. count_leading_zero_bits (fips_sha256 (commitment_text (with_nonce ev d (of_nat i)))) < sint d)"
  then show "mine_event ev d = Some (Ret (True, (with_nonce ev d (of_nat j))
                \<lparr>ev_id := fips_sha256 (commitment_text (with_nonce ev d (of_nat j)))\<rparr>))"
    using mine_loop_reaches [OF m, of j 0 d] assms(5)
    by (simp add: mine_event_loop [OF assms(3,4)] mine_views not_le)
next
  assume none: "\<forall>n. count_leading_zero_bits (fips_sha256 (commitment_text (with_nonce ev d n))) < sint d"
  show "mine_event ev d = None"
  proof (rule ccontr)
    assume "mine_event ev d \<noteq> None"
    then obtain r where "mine_loop (length (ev_tags ev)) d 0 (nonce_added ev d) = Some r"
      by (auto simp: mine_event_loop [OF assms(3,4)])
    from mine_loop_result [OF this mineable_added [OF assms(1,2)]] none assms(5) show False
      by (auto simp: mine_outcome_def mine_views not_le [symmetric])
  qed
qed

theorem mine_event_returns_witness:
  "mine_event (zero_event\<lparr>ev_content := Some []\<rparr>) 0 =
     Some (Ret (True, (with_nonce (zero_event\<lparr>ev_content := Some []\<rparr>) 0 0)
        \<lparr>ev_id := fips_sha256 (commitment_text (with_nonce (zero_event\<lparr>ev_content := Some []\<rparr>) 0 0))\<rparr>))"
proof -
  let ?ev = "zero_event\<lparr>ev_content := Some []\<rparr>"
  have "length (commitment_text (with_nonce ?ev 0 n)) < 102400" for n
  proof -
    have "unat n < 2 ^ LENGTH(64)" by (rule unsigned_less)
    then have "unat n < 10 ^ 20" by simp
    from length_dec_u_le [OF _ this] json_text_length [of "dec_u (unat n)"]
    have "length (json_text (dec_u (unat n))) \<le> 42" by simp
    moreover have "length (json_text [110, 111, 110, 99, 101]) \<le> 12"
      by (rule order_trans [OF json_text_length]) simp
    ultimately show ?thesis
      by (simp add: with_nonce_def nonce_tag_def zero_event_def commitment_text_def commitment_head_def
          tags_text_def list_text_def json_text_def [of "[]"] escape_def
          escape_piece_def dec_s_def dec_u.simps [of 0] snprintf_def bytes_simps json_text_def [of "[a]" for a])
  qed
  then have "\<forall>n. length (commitment_text (with_nonce ?ev 0 n)) < 102400" by blast
  from mine_event_returns [of ?ev "[]" 0 0, OF _ _ _ _ this] show ?thesis
    by (simp add: zero_event_def MAX_TAGS_def count_spec)
qed

text \<open>
  A two-element nonce tag of the user's stops mining: \<open>ensure_nonce_tag\<close> accepts it, and the
  assertion in \<open>mine_event\<close> that the tag has three elements then fails.
\<close>

theorem user_nonce_tag_aborts:
  assumes "[str ''nonce'', v] \<in> set (ev_tags ev)"
  shows "mine_event ev d = Some Abort"
proof -
  have "find_nonce_tag (ev_tags ev) 0 \<noteq> None"
    using assms unfolding find_nonce_tag_None by force
  then obtain i where i: "find_nonce_tag (ev_tags ev) 0 = Some i" by auto
  from find_nonce_tag_Some [OF i] show ?thesis by (simp add: mine_event_def ensure_nonce_tag_def i)
qed

theorem user_nonce_tag_aborts_witness:
  "mine_event (zero_event\<lparr>ev_tags := [[str ''nonce'', str ''x'']]\<rparr>) 8 = Some Abort"
  by (rule user_nonce_tag_aborts [of "str ''x''"]) simp

end
