(* ===== verification/Keys.thy ===== *)
theory Keys
  imports Hex Proof_Work Event
begin

unbundle bit_operations_syntax

text \<open>
  Keys, randomness and signatures: \<^verbatim>\<open>include/random.h\<close> and the key functions of
  \<^verbatim>\<open>gnostr.c\<close>. The library secp256k1 and the operating system are outside the repository's
  own code: they are the records \<open>secp256k1\<close> and \<open>sys\<close>, whose fields are the functions the code
  calls. Opaque library objects (keypairs and parsed public keys) are byte strings. A library
  function that returns 0 is \<open>None\<close>. What the code relies on is the named hypothesis \<open>secp_laws\<close>.
\<close>

section \<open>What the code calls\<close>

record secp256k1 =
  context_randomize :: "bytes \<Rightarrow> bool"
  keypair_create :: "bytes \<Rightarrow> bytes option"
  keypair_xonly_pub :: "bytes \<Rightarrow> bytes option"
  xonly_pubkey_serialize :: "bytes \<Rightarrow> bytes option"
  schnorrsig_sign32 :: "bytes \<Rightarrow> bytes \<Rightarrow> bytes \<Rightarrow> bytes option"
  ec_seckey_verify :: "bytes \<Rightarrow> bool"
  ec_pubkey_parse :: "bytes \<Rightarrow> bytes option"
  ecdh :: "bytes \<Rightarrow> bytes \<Rightarrow> (bytes \<Rightarrow> bytes \<Rightarrow> bytes option) \<Rightarrow> bytes option"

text \<open>
  \<open>getrandom n size\<close> is what the \<open>n\<close>th call of \<^verbatim>\<open>getrandom\<close> delivers, \<open>None\<close> when it
  fails; \<open>time_now\<close> is the result of \<^verbatim>\<open>time(NULL)\<close>; \<open>execvp prog argv\<close> says whether the program
  is found and replaces the process; \<open>errno0\<close> is \<^verbatim>\<open>errno\<close> when the arguments are parsed;
  \<open>stat_mode\<close> and \<open>access_x\<close> are \<^verbatim>\<open>stat\<close> and \<^verbatim>\<open>access(..., X_OK)\<close>.
\<close>

record sys =
  getrandom :: "nat \<Rightarrow> nat \<Rightarrow> bytes option"
  time_now :: u64
  execvp :: "cstr \<Rightarrow> cstr list \<Rightarrow> bool"
  errno0 :: nat
  stat_mode :: "cstr \<Rightarrow> u32 option"
  access_x :: "cstr \<Rightarrow> bool"

text \<open>
  Documented behaviour: a serialised x-only key has 32 bytes and a signature 64, and a signature by a
  keypair verifies under the serialised x-only public key of that keypair.
\<close>

definition secp_laws :: "secp256k1 \<Rightarrow> (bytes \<Rightarrow> bytes \<Rightarrow> bytes \<Rightarrow> bool) \<Rightarrow> bool" where
  "secp_laws lib verify \<longleftrightarrow>
     (\<forall>x pk. xonly_pubkey_serialize lib x = Some pk \<longrightarrow> length pk = 32) \<and>
     (\<forall>msg pair aux sig. schnorrsig_sign32 lib msg pair aux = Some sig \<longrightarrow> length sig = 64) \<and>
     (\<forall>msg pair aux sig x pk. schnorrsig_sign32 lib msg pair aux = Some sig \<longrightarrow>
        keypair_xonly_pub lib pair = Some x \<longrightarrow> xonly_pubkey_serialize lib x = Some pk \<longrightarrow>
        verify sig msg pk)"

section \<open>Randomness\<close>

text \<open>The second argument counts the calls made so far; the result is paired with the new count.\<close>

definition fill_random :: "sys \<Rightarrow> nat \<Rightarrow> nat \<Rightarrow> bytes option \<times> nat" where
  "fill_random os n sz =
     (case getrandom os n sz of
        None \<Rightarrow> (None, n + 1)
      | Some data \<Rightarrow> if length data \<noteq> sz then (None, n + 1) else (Some data, n + 1))"

definition print_hex :: "bytes \<Rightarrow> cstr" where
  "print_hex data = concat (map hex2 data) @ [10]"

section \<open>Keys\<close>

record key =
  k_pair :: bytes
  k_secret :: bytes
  k_pubkey :: bytes

definition make_sig :: "secp256k1 \<Rightarrow> sys \<Rightarrow> nat \<Rightarrow> key \<Rightarrow> bytes \<Rightarrow> bytes option \<times> nat" where
  "make_sig lib os n key msg =
     (case fill_random os n 32 of
        (None, n) \<Rightarrow> (None, n)
      | (Some aux, n) \<Rightarrow> (schnorrsig_sign32 lib msg (k_pair key) aux, n))"

definition create_key :: "secp256k1 \<Rightarrow> key \<Rightarrow> bool \<times> key" where
  "create_key lib key =
     (case keypair_create lib (k_secret key) of
        None \<Rightarrow> (False, key)
      | Some pair \<Rightarrow>
          let key = key\<lparr>k_pair := pair\<rparr>
          in (case keypair_xonly_pub lib pair of
                None \<Rightarrow> (False, key)
              | Some pubkey \<Rightarrow>
                  (case xonly_pubkey_serialize lib pubkey of
                     None \<Rightarrow> (False, key)
                   | Some out \<Rightarrow> (True, key\<lparr>k_pubkey := out\<rparr>))))"

definition decode_key :: "secp256k1 \<Rightarrow> cstr \<Rightarrow> key \<Rightarrow> bool \<times> key" where
  "decode_key lib secstr key =
     (case hex_decode secstr 32 of
        (ok, bs) \<Rightarrow>
          let key = key\<lparr>k_secret := bs @ drop (length bs) (k_secret key)\<rparr>
          in if \<not> ok then (False, key) else create_key lib key)"

definition xor_mix :: "bytes \<Rightarrow> bytes \<Rightarrow> nat \<Rightarrow> bytes" where
  "xor_mix a b sz = map (\<lambda>i. a ! i XOR b ! i) [0..<sz]"

text \<open>The loop that mines a public key may run for ever: \<open>None\<close>.\<close>

partial_function (option) mine_key_loop :: "secp256k1 \<Rightarrow> u32 \<Rightarrow> key \<Rightarrow> (bool \<times> key) option" where
  "mine_key_loop lib difficulty key =
     (case create_key lib key of
        (ok, key') \<Rightarrow>
          if \<not> ok then Some (False, key')
          else if count_leading_zero_bits (k_pubkey key') \<ge> sint difficulty then Some (True, key')
          else mine_key_loop lib difficulty
                 (key'\<lparr>k_secret := xor_mix (k_secret key') (k_pubkey key') 32\<rparr>))"

declare mine_key_loop.simps [code]

definition generate_key ::
  "secp256k1 \<Rightarrow> sys \<Rightarrow> nat \<Rightarrow> key \<Rightarrow> u32 option \<Rightarrow> (bool \<times> key \<times> nat) option" where
  "generate_key lib os n key difficulty =
     (case fill_random os n 32 of
        (None, n) \<Rightarrow> Some (False, key, n)
      | (Some secret, n) \<Rightarrow>
          let key = key\<lparr>k_secret := secret\<rparr>
          in (case difficulty of
                None \<Rightarrow> (case create_key lib key of (ok, key) \<Rightarrow> Some (ok, key, n))
              | Some d \<Rightarrow> map_option (\<lambda>(ok, key). (ok, key, n)) (mine_key_loop lib d key)))"

definition init_secp_context :: "secp256k1 \<Rightarrow> sys \<Rightarrow> nat \<Rightarrow> bool \<times> nat" where
  "init_secp_context lib os n =
     (case fill_random os n 32 of
        (None, n) \<Rightarrow> (False, n)
      | (Some randomize, n) \<Rightarrow> (context_randomize lib randomize, n))"

definition sign_event :: "secp256k1 \<Rightarrow> sys \<Rightarrow> nat \<Rightarrow> key \<Rightarrow> nostr_event \<Rightarrow> bool \<times> nostr_event \<times> nat" where
  "sign_event lib os n key ev =
     (case make_sig lib os n key (ev_id ev) of
        (None, n) \<Rightarrow> (False, ev, n)
      | (Some sig, n) \<Rightarrow> (True, ev\<lparr>ev_sig := sig\<rparr>, n))"

section \<open>What a key is good for\<close>

text \<open>A key whose parts belong together, as \<open>create_key\<close> leaves it.\<close>

definition key_ok :: "secp256k1 \<Rightarrow> key \<Rightarrow> bool" where
  "key_ok lib key \<longleftrightarrow>
     keypair_create lib (k_secret key) = Some (k_pair key) \<and>
     (\<exists>x. keypair_xonly_pub lib (k_pair key) = Some x \<and> xonly_pubkey_serialize lib x = Some (k_pubkey key))"

lemma create_key_ok: "create_key lib key = (True, key') \<Longrightarrow> key_ok lib key' \<and> k_secret key' = k_secret key"
  by (auto simp: create_key_def key_ok_def Let_def split: option.splits)

lemma decode_key_ok:
  assumes "decode_key lib secstr key = (True, key')" and "length (k_secret key) = 32"
  shows "key_ok lib key' \<and> hex_decode secstr 32 = (True, k_secret key')"
proof -
  obtain bs where bs: "hex_decode secstr 32 = (True, bs)"
    "create_key lib (key\<lparr>k_secret := bs @ drop (length bs) (k_secret key)\<rparr>) = (True, key')"
    using assms(1) by (auto simp: decode_key_def Let_def split: prod.splits if_splits)
  moreover have "length bs = 32"
    using hex_decode_loop_True [of secstr 32 "[]" bs] bs(1) by (auto simp: hex_decode_def)
  ultimately show ?thesis using create_key_ok [OF bs(2)] assms(2) by simp
qed

lemma mine_key_loop_ok:
  assumes "mine_key_loop lib d key = Some (True, key')"
  shows "key_ok lib key' \<and> sint d \<le> count_leading_zero_bits (k_pubkey key')"
proof -
  have "\<forall>key'. r = (True, key') \<longrightarrow> key_ok lib key' \<and> sint d \<le> count_leading_zero_bits (k_pubkey key')"
    if "mine_key_loop lib d key = Some r" for r
    by (rule mine_key_loop.raw_induct [where P = "\<lambda>lib d key r. \<forall>key'. r = (True, key') \<longrightarrow>
          key_ok lib key' \<and> sint d \<le> count_leading_zero_bits (k_pubkey key')", OF _ that])
       (auto dest: create_key_ok split: prod.splits if_splits)
  with assms show ?thesis by blast
qed

lemma generate_key_ok:
  "generate_key lib os n key d = Some (True, key', n') \<Longrightarrow>
   key_ok lib key' \<and> (\<forall>v. d = Some v \<longrightarrow> sint v \<le> count_leading_zero_bits (k_pubkey key'))"
  by (auto simp: generate_key_def Let_def dest: create_key_ok mine_key_loop_ok
      split: prod.splits option.splits)

lemma sign_event_verifies:
  assumes "secp_laws lib verify" and "key_ok lib key" and "sign_event lib os n key ev = (True, ev', n')"
  shows "verify (ev_sig ev') (ev_id ev) (k_pubkey key) \<and> length (ev_sig ev') = 64 \<and>
         length (k_pubkey key) = 32 \<and> ev' = ev\<lparr>ev_sig := ev_sig ev'\<rparr>"
proof -
  obtain aux sig where "schnorrsig_sign32 lib (ev_id ev) (k_pair key) aux = Some sig" "ev' = ev\<lparr>ev_sig := sig\<rparr>"
    using assms(3) by (auto simp: sign_event_def make_sig_def split: prod.splits option.splits)
  with assms(1,2) show ?thesis by (auto simp: secp_laws_def key_ok_def)
qed

text \<open>A small library that obeys the laws, for evaluating the definitions.\<close>

definition toy_secp :: secp256k1 where
  "toy_secp = \<lparr>context_randomize = (\<lambda>_. True), keypair_create = Some, keypair_xonly_pub = Some,
     xonly_pubkey_serialize = (\<lambda>x. Some (take 32 (x @ replicate 32 0))),
     schnorrsig_sign32 = (\<lambda>msg pair aux. Some (take 32 (pair @ replicate 32 0) @ take 32 (msg @ replicate 32 0))),
     ec_seckey_verify = (\<lambda>_. True), ec_pubkey_parse = Some,
     ecdh = (\<lambda>pk sk f. f (take 32 (pk @ replicate 32 0)) (replicate 32 0))\<rparr>"

definition toy_verify :: "bytes \<Rightarrow> bytes \<Rightarrow> bytes \<Rightarrow> bool" where
  "toy_verify sig msg pk \<longleftrightarrow> sig = pk @ take 32 (msg @ replicate 32 0)"

definition toy_sys :: sys where
  "toy_sys = \<lparr>getrandom = (\<lambda>n sz. Some (replicate sz 1)), time_now = 1000, execvp = (\<lambda>_ _. False),
     errno0 = 0, stat_mode = (\<lambda>_. None), access_x = (\<lambda>_. False)\<rparr>"

lemma toy_laws: "secp_laws toy_secp toy_verify"
  by (auto simp: secp_laws_def toy_secp_def toy_verify_def min_def)

section \<open>Properties\<close>

text \<open>
  C23. Keys: a key that \<open>generate_key\<close> returns has a public key that belongs to its secret, with at
  least the requested number of leading zero bits when one was asked for; and what \<open>sign_event\<close>
  signs with it verifies under that public key, provided the library keeps its contract.
\<close>

theorem generated_key_signs:
  assumes "secp_laws lib verify" and "generate_key lib os n key0 d = Some (True, key, n')"
    and "sign_event lib os n' key ev = (True, ev', n'')"
  shows "verify (ev_sig ev') (ev_id ev) (k_pubkey key) \<and>
         keypair_create lib (k_secret key) = Some (k_pair key) \<and>
         (\<forall>v. d = Some v \<longrightarrow> sint v \<le> count_leading_zero_bits (k_pubkey key))"
  using sign_event_verifies [OF assms(1) _ assms(3)] generate_key_ok [OF assms(2)]
  by (auto simp: key_ok_def)

theorem generated_key_signs_witness:
  "\<exists>key n' ev' n''.
     generate_key toy_secp toy_sys 0 \<lparr>k_pair = [], k_secret = [], k_pubkey = []\<rparr> None = Some (True, key, n') \<and>
     sign_event toy_secp toy_sys n' key zero_event = (True, ev', n'') \<and>
     toy_verify (ev_sig ev') (ev_id zero_event) (k_pubkey key)"
proof -
  let ?k0 = "\<lparr>k_pair = [], k_secret = [], k_pubkey = []\<rparr>"
  obtain key n' where g: "generate_key toy_secp toy_sys 0 ?k0 None = Some (True, key, n')"
    by (simp add: generate_key_def fill_random_def toy_sys_def create_key_def toy_secp_def)
  obtain ev' n'' where sgn: "sign_event toy_secp toy_sys n' key zero_event = (True, ev', n'')"
    by (simp add: sign_event_def make_sig_def fill_random_def toy_sys_def toy_secp_def)
  from generated_key_signs [OF toy_laws g sgn] g sgn show ?thesis by blast
qed

text \<open>
  A secret key from the command line: \<open>decode_key\<close> accepts only 64 hexadecimal digits, the secret
  it stores is the one they denote, and the public key belongs to that secret.
\<close>

theorem decode_key_sound:
  assumes "length (k_secret key) = 32" and "decode_key lib secstr key = (True, key')"
  shows "length secstr = 64 \<and> hex_encode (k_secret key') 65 = Ret (Some (map hex_lower secstr)) \<and>
         keypair_create lib (k_secret key') = Some (k_pair key')"
  using decode_key_ok [OF assms(2,1)] hex_decode_loop_True [of secstr 32 "[]" "k_secret key'"]
  by (auto simp: hex_decode_def hex_encode_spec hex_str_size_def key_ok_def)

theorem decode_key_sound_witness:
  "\<exists>key'. decode_key toy_secp (concat (replicate 32 (str ''Ab''))) \<lparr>k_pair = [], k_secret = replicate 32 0, k_pubkey = []\<rparr>
            = (True, key') \<and> hex_encode (k_secret key') 65 = Ret (Some (concat (replicate 32 (str ''ab''))))"
proof -
  let ?key = "\<lparr>k_pair = [], k_secret = replicate 32 0, k_pubkey = []\<rparr>"
  let ?s = "concat (replicate 32 (str ''Ab''))"
  have "fst (hex_decode ?s 32)" by code_simp
  then obtain bs where bs: "hex_decode ?s 32 = (True, bs)" by (cases "hex_decode ?s 32") auto
  then obtain key' where "decode_key toy_secp ?s ?key = (True, key')"
    by (simp add: decode_key_def create_key_def toy_secp_def Let_def)
  moreover have "map hex_lower ?s = concat (replicate 32 (str ''ab''))" by code_simp
  ultimately show ?thesis using decode_key_sound [of ?key toy_secp ?s] by auto
qed

end
