(* ===== verification/Dm.thy ===== *)
theory Dm
  imports Aes Base64 Event Keys "HOL-Library.Signed_Division"
begin

unbundle bit_operations_syntax

text \<open>
  Encrypted direct messages of \<^verbatim>\<open>gnostr.c\<close>: PKCS 7 padding and AES-CBC encryption in place,
  and \<open>make_encrypted_dm\<close>, which replaces the content of an event by the base64 of the ciphertext and
  of the initialisation vector and adds the recipient as a \<^verbatim>\<open>p\<close> tag. The array \<open>encbuf\<close> has the
  size the source computes for it; an encryption that would write past its end is undefined
  behaviour, and the model stops with \<open>Abort\<close> there. The two sizes are computed with \<^verbatim>\<open>int\<close>s from the
  length of the content: a length is converted by \<open>c_int\<close>, and a result that is no \<^verbatim>\<open>int\<close>, or an array
  with no element, is \<open>Abort\<close> as well.
\<close>

section \<open>The functions\<close>

text \<open>The number of padding bytes, between 1 and 16.\<close>

definition aes_padding :: "nat \<Rightarrow> nat" where
  "aes_padding buflen = 16 - buflen mod 16"

definition aes_encrypt :: "bytes \<Rightarrow> bytes \<Rightarrow> addr \<Rightarrow> nat \<Rightarrow> memory \<Rightarrow> (nat \<times> memory) outcome" where
  "aes_encrypt key iv buf buflen m =
     (let padding = aes_padding buflen;
          cur = make_cursor buf (buf + int buflen + int padding);
          cur = cur\<lparr>c_p := c_p cur + int buflen\<rparr>
      in case and_all (replicate padding (cursor_push_byte (of_nat padding))) (cur, m) of
           (ok, (cur, m)) \<Rightarrow>
             if \<not> ok then Ret (0, m)
             else if c_p cur \<noteq> c_end cur then Abort
             else if (c_p cur - c_start cur) mod 16 \<noteq> 0 then Abort
             else
               let ctx = AES_init_ctx_iv \<lparr>RoundKey = [], Iv = []\<rparr> key iv;
                   n = nat (c_p cur - c_start cur)
               in (case AES_CBC_encrypt_buffer ctx (mem_read m (c_start cur) n) n of
                     None \<Rightarrow> Abort
                   | Some (ctx, out) \<Rightarrow> Ret (n, mem_write m (c_start cur) out)))"

definition copyx :: "bytes \<Rightarrow> bytes \<Rightarrow> bytes option" where
  "copyx x32 y32 = Some (take 32 x32)"

text \<open>The C string at an address inside an object of \<open>n\<close> bytes.\<close>

definition c_string :: "memory \<Rightarrow> addr \<Rightarrow> nat \<Rightarrow> cstr" where
  "c_string m a n = takeWhile (\<lambda>b. b \<noteq> 0) (mem_read m a n)"

text \<open>\<^verbatim>\<open>content_len + (content_len % 16) + 1\<close>; the remainder of C has the sign of the dividend.\<close>

definition encbuf_size :: "nat \<Rightarrow> int" where
  "encbuf_size inl = (let content_len = c_int (int inl) in content_len + content_len smod 16 + 1)"

definition dm_buflen :: "nat \<Rightarrow> int" where
  "dm_buflen inl = (let enclen = c_int (int inl + 16) in enclen * 3 + 65 * 10)"

definition is_int :: "int \<Rightarrow> bool" where
  "is_int x \<longleftrightarrow> - (2 ^ 31) \<le> x \<and> x < 2 ^ 31"

definition dm_sizes_ok :: "nat \<Rightarrow> bool" where
  "dm_sizes_ok inl \<longleftrightarrow> is_int (dm_buflen inl) \<and> is_int (encbuf_size inl) \<and> 0 < encbuf_size inl"

text \<open>
  \<open>seq_ok x ev f\<close> is \<^verbatim>\<open>if (!x) return 0;\<close> followed by \<open>f\<close>; \<open>push_b64\<close> is a call of
  \<^verbatim>\<open>base64_encode\<close> into the rest of the cursor and the advance of its position.
\<close>

definition seq_ok ::
  "(bool \<times> 's) outcome \<Rightarrow> 'r \<Rightarrow> ('s \<Rightarrow> (bool \<times> 'r) outcome) \<Rightarrow> (bool \<times> 'r) outcome" where
  "seq_ok x r f = bind_outcome x (\<lambda>(ok, s). if \<not> ok then Ret (False, r) else f s)"

definition push_b64 :: "bytes \<Rightarrow> cst \<Rightarrow> (bool \<times> cst) outcome" where
  "push_b64 src s = (case s of (cur, m) \<Rightarrow>
     bind_outcome (base64_encode (nat (c_end cur - c_p cur)) src) (\<lambda>r.
       case r of
         Inl e \<Rightarrow> Ret (False, (cur, m))
       | Inr (enclen, dest) \<Rightarrow> Ret (True, (cur\<lparr>c_p := c_p cur + int enclen\<rparr>, mem_write m (c_p cur) dest))))"

text \<open>Ciphertext, separator, initialisation vector and NUL go to the buffer, then the recipient.\<close>

definition dm_text ::
  "bytes \<Rightarrow> bytes \<Rightarrow> nat \<Rightarrow> nostr_event \<Rightarrow> bytes \<Rightarrow> u32 \<Rightarrow> (bool \<times> nostr_event) outcome" where
  "dm_text enc iv buflen ev nostr_pubkey kind =
     seq_ok (push_b64 enc (make_cursor 0 (int buflen), (\<lambda>_. 0))) ev (\<lambda>s.
     seq_ok (Ret (cursor_push_str (str ''?iv='') s)) ev (\<lambda>s.
     seq_ok (push_b64 iv s) ev (\<lambda>s.
     seq_ok (Ret (cursor_push_byte 0 s)) ev (\<lambda>(cur, m).
       bind_outcome (hex_encode nostr_pubkey (nat (c_end cur - c_p cur))) (\<lambda>r.
         case r of
           None \<Rightarrow> Ret (False, ev\<lparr>ev_content := Some (c_string m (c_start cur) buflen), ev_kind := kind\<rparr>)
         | Some hex \<Rightarrow>
             (let m = mem_write m (c_p cur) (hex @ [0]);
                  ev = ev\<lparr>ev_content := Some (c_string m (c_start cur) buflen), ev_kind := kind\<rparr>
              in Ret (nostr_add_tag ev (str ''p'') (c_string m (c_p cur) 65))))))))"

definition make_encrypted_dm ::
  "secp256k1 \<Rightarrow> sys \<Rightarrow> nat \<Rightarrow> key \<Rightarrow> nostr_event \<Rightarrow> bytes \<Rightarrow> u32 \<Rightarrow> (bool \<times> nostr_event \<times> nat) outcome" where
  "make_encrypted_dm lib os n key ev nostr_pubkey kind =
     (case ev_content ev of
        None \<Rightarrow> Abort
      | Some content \<Rightarrow>
          let inl = length content;
              buflen = size_of_int (dm_buflen inl)
          in if \<not> dm_sizes_ok inl then Abort
             else if \<not> ec_seckey_verify lib (k_secret key) then Ret (False, ev, n)
             else (case ec_pubkey_parse lib (2 # take 32 nostr_pubkey) of
                     None \<Rightarrow> Ret (False, ev, n)
                   | Some pubkey \<Rightarrow>
                       (case ecdh lib pubkey (k_secret key) copyx of
                          None \<Rightarrow> Ret (False, ev, n)
                        | Some shared_secret \<Rightarrow>
                            (case fill_random os n 16 of
                               (None, n) \<Rightarrow> Ret (False, ev, n)
                             | (Some iv, n) \<Rightarrow>
                                 if int (inl + aes_padding inl) > encbuf_size inl then Abort
                                 else bind_outcome
                                   (aes_encrypt shared_secret iv 0 inl (mem_write (\<lambda>_. 0) 0 content)) (\<lambda>(enclen, m).
                                     if enclen = 0 then Ret (False, ev, n)
                                     else bind_outcome
                                       (dm_text (mem_read m 0 enclen) iv buflen ev nostr_pubkey kind) (\<lambda>(ok, ev).
                                         Ret (ok, ev, n)))))))"

section \<open>Padding and encryption\<close>

lemma aes_padding_bounds: "0 < aes_padding n" "aes_padding n \<le> 16"
  by (simp_all add: aes_padding_def)

lemma aes_padding_blocks: "16 dvd n + aes_padding n"
  unfolding aes_padding_def by presburger

definition pkcs7_pad :: "bytes \<Rightarrow> bytes" where
  "pkcs7_pad msg = msg @ replicate (aes_padding (length msg)) (of_nat (aes_padding (length msg)))"

definition pkcs7_unpad :: "bytes \<Rightarrow> bytes" where
  "pkcs7_unpad xs = take (length xs - unat (last xs)) xs"

lemma length_pkcs7_pad [simp]: "length (pkcs7_pad msg) = length msg + aes_padding (length msg)"
  by (simp add: pkcs7_pad_def)

lemma pkcs7_unpad_pad: "pkcs7_unpad (pkcs7_pad msg) = msg"
proof -
  let ?p = "aes_padding (length msg)"
  have "last (pkcs7_pad msg) = of_nat ?p" "unat (of_nat ?p :: u8) = ?p"
    using aes_padding_bounds [of "length msg"] by (simp_all add: pkcs7_pad_def unat_u8_of_nat)
  then have "length (pkcs7_pad msg) - unat (last (pkcs7_pad msg)) = length msg" by simp
  then show ?thesis unfolding pkcs7_unpad_def by (simp only:) (simp add: pkcs7_pad_def)
qed

lemma fits_bytes: "fits r (replicate k (PByte b)) \<longleftrightarrow> k \<le> r"
proof (induction k arbitrary: r)
  case (Suc k)
  then show ?case by (cases r) simp_all
qed simp

lemma pieces_bytes_replicate: "pieces_bytes (replicate k (PByte b)) = replicate k b"
  by (induction k) auto

lemma make_cursor_p: "c_p (make_cursor a b) = a"
  by (simp add: make_cursor_def)

text \<open>The padding loop on the cursor of \<open>aes_encrypt\<close>.\<close>

lemma push_padding:
  assumes "int buflen + 16 < 2 ^ 63"
  shows "\<exists>cur m'. and_all (replicate (aes_padding buflen) (cursor_push_byte b))
            ((make_cursor buf (buf + int buflen + int (aes_padding buflen)))\<lparr>c_p := buf + int buflen\<rparr>, m)
              = (True, (cur, m')) \<and>
          c_start cur = buf \<and> c_p cur = buf + int (buflen + aes_padding buflen) \<and> c_end cur = c_p cur \<and>
          mem_read m' buf (buflen + aes_padding buflen) = mem_read m buf buflen @ replicate (aes_padding buflen) b \<and>
          (\<forall>a. a < buf \<or> buf + int (buflen + aes_padding buflen) \<le> a \<longrightarrow> m' a = m a)"
proof -
  let ?p = "aes_padding buflen"
  define cur0 where "cur0 = (make_cursor buf (buf + int buflen + int ?p))\<lparr>c_p := buf + int buflen\<rparr>"
  note p = aes_padding_bounds [of buflen]
  have inv: "cursor_inv (cur0, m)"
    using assms p by (auto simp: cur0_def make_cursor_def cursor_simps)
  have room: "cursor_room (cur0, m) = ?p" by (simp add: cur0_def cursor_room_def make_cursor_def)
  have data: "cursor_data (cur0, m) = mem_read m buf buflen"
    by (simp add: cur0_def cursor_data_def make_cursor_def)
  from cursor_sink.pieces_ok [OF inv, of "replicate ?p (PByte b)"] obtain cur m' where
    s: "and_all (replicate ?p (cursor_push_byte b)) (cur0, m) = (True, (cur, m'))"
    "cursor_inv (cur, m')" "cursor_frame (cur0, m) (cur, m')"
    "cursor_data (cur, m') = mem_read m buf buflen @ replicate ?p b" "cursor_room (cur, m') = 0"
    by (auto simp: room data fits_bytes pieces_bytes_replicate)
  have c: "c_start cur = buf" "c_p cur = buf + int (buflen + ?p)" "c_end cur = c_p cur"
    using s(2,3,5) by (auto simp: cur0_def make_cursor_def cursor_simps)
  moreover have "mem_read m' buf (buflen + ?p) = mem_read m buf buflen @ replicate ?p b"
  proof -
    have "nat (c_p cur - c_start cur) = buflen + ?p" using c by (simp add: nat_add_distrib)
    with s(4) c(1) show ?thesis by (simp add: cursor_data_def)
  qed
  moreover have "\<forall>a. a < buf \<or> buf + int (buflen + ?p) \<le> a \<longrightarrow> m' a = m a"
    using s(3) by (auto simp: cur0_def cursor_frame_def make_cursor_def)
  ultimately show ?thesis using s(1) unfolding cur0_def by blast
qed

lemma aes_encrypt_spec:
  assumes "int buflen + 16 < 2 ^ 63" and "length iv = 16"
  shows "\<exists>ctx out m'. AES_CBC_encrypt_buffer \<lparr>RoundKey = KeyExpansion key, Iv = iv\<rparr>
             (pkcs7_pad (mem_read m buf buflen)) (buflen + aes_padding buflen) = Some (ctx, out) \<and>
           AES_CBC_decrypt_buffer \<lparr>RoundKey = KeyExpansion key, Iv = iv\<rparr> out (buflen + aes_padding buflen)
             = Some (ctx, pkcs7_pad (mem_read m buf buflen)) \<and>
           length out = buflen + aes_padding buflen \<and>
           aes_encrypt key iv buf buflen m = Ret (buflen + aes_padding buflen, m') \<and>
           mem_read m' buf (buflen + aes_padding buflen) = out \<and>
           (\<forall>a. a < buf \<or> buf + int (buflen + aes_padding buflen) \<le> a \<longrightarrow> m' a = m a)"
proof -
  let ?n = "buflen + aes_padding buflen" and ?ctx = "\<lparr>RoundKey = KeyExpansion key, Iv = iv\<rparr>"
  let ?b = "of_nat (aes_padding buflen) :: u8"
  have pad: "mem_read m buf buflen @ replicate (aes_padding buflen) ?b = pkcs7_pad (mem_read m buf buflen)"
    by (simp add: pkcs7_pad_def)
  from push_padding [OF assms(1), of ?b buf m] obtain cur m1 where
    s: "and_all (replicate (aes_padding buflen) (cursor_push_byte ?b))
          ((make_cursor buf (buf + int buflen + int (aes_padding buflen)))\<lparr>c_p := buf + int buflen\<rparr>, m)
          = (True, (cur, m1))"
    "c_start cur = buf" "c_p cur = buf + int ?n" "c_end cur = c_p cur"
    "mem_read m1 buf ?n = pkcs7_pad (mem_read m buf buflen)"
    "\<forall>a. a < buf \<or> buf + int ?n \<le> a \<longrightarrow> m1 a = m a"
    unfolding pad by blast
  have "length (Iv ?ctx) = 16" "16 dvd ?n" "?n \<le> length (pkcs7_pad (mem_read m buf buflen))"
    using assms(2) aes_padding_blocks [of buflen] by simp_all
  from CBC_decrypt_encrypt [OF this] obtain ctx' out where
    e: "AES_CBC_encrypt_buffer ?ctx (pkcs7_pad (mem_read m buf buflen)) ?n = Some (ctx', out)"
      "length out = ?n" "AES_CBC_decrypt_buffer ?ctx out ?n = Some (ctx', pkcs7_pad (mem_read m buf buflen))"
    by auto
  have diff: "c_p cur - buf = int ?n" using s(3) by simp
  have "int ?n mod 16 = int (?n mod 16)" by (simp only: zmod_int of_nat_numeral)
  also have "?n mod 16 = 0" by (rule dvd_imp_mod_0 [OF aes_padding_blocks])
  finally have "int ?n mod 16 = 0" by simp
  moreover have "AES_init_ctx_iv \<lparr>RoundKey = [], Iv = []\<rparr> key iv = ?ctx"
    using assms(2) by (simp add: AES_init_ctx_iv_def AES_BLOCKLEN_def)
  moreover have "nat (int ?n) = ?n" by (rule nat_int)
  ultimately have "aes_encrypt key iv buf buflen m = Ret (?n, mem_write m1 buf out)"
    unfolding aes_encrypt_def Let_def make_cursor_p
    by (simp only: s(1) prod.case diff s(4) e(1) s(2,5) option.case simp_thms if_False if_True)
  moreover have "mem_read (mem_write m1 buf out) buf ?n = out" using e(2) by (metis mem_read_write_same)
  moreover have "mem_write m1 buf out a = m a" if "a < buf \<or> buf + int ?n \<le> a" for a
    using that s(6) e(2) by (auto simp: mem_write_def)
  ultimately show ?thesis using e by blast
qed

section \<open>The text of a message\<close>

abbreviation b64 :: "bytes \<Rightarrow> cstr" where
  "b64 \<equiv> b64_text base64_maps_rfc4648"

lemma b64_length: "length (b64 xs) = base64_encoded_length (length xs)"
  by (rule length_b64_text)

lemma base64_encode_spec:
  "base64_encoded_length (length src) \<le> n \<Longrightarrow>
   base64_encode n src = Ret (Inr (length (b64 src), b64 src @ replicate (n - length (b64 src)) 0))"
  by (simp add: base64_encode_def encode_spec b64_length)

lemma c_string_eq:
  assumes "length t < n" and "mem_read m a (length t) = t" and "m (a + int (length t)) = 0" and "0 \<notin> set t"
  shows "c_string m a n = t"
proof -
  have "mem_read m a n = mem_read m a (length t) @ mem_read m (a + int (length t)) (Suc (n - Suc (length t)))"
    using assms(1) mem_read_add [of m a "length t" "n - length t"] by (simp add: Suc_diff_Suc)
  also have "mem_read m (a + int (length t)) (Suc (n - Suc (length t)))
             = 0 # mem_read m (a + int (length t) + 1) (n - Suc (length t))"
    using mem_read_add [of m "a + int (length t)" 1 "n - Suc (length t)"] assms(3)
    by (simp add: mem_read_def)
  finally have "mem_read m a n = t @ 0 # mem_read m (a + int (length t) + 1) (n - Suc (length t))"
    using assms(2) by simp
  moreover have "takeWhile (\<lambda>b. b \<noteq> 0) (t @ 0 # r) = t" for r
    using assms(4) by (induction t) auto
  ultimately show ?thesis by (simp add: c_string_def)
qed

lemma mem_read_write_prefix: "mem_read (mem_write m a (xs @ ys)) a (length xs) = xs"
  by (rule nth_equalityI) (simp_all add: mem_write_def nth_append)

lemma cursor_push_str_moves:
  "c_p c + int (length xs) < c_end c \<Longrightarrow> length xs < 2 ^ 64 \<Longrightarrow>
   cursor_push_str xs (c, m) = (True, (c\<lparr>c_p := c_p c + int (length xs)\<rparr>, mem_write m (c_p c) xs))"
  by (simp add: cursor_push_str_def cursor_push_def)

lemma push_b64_moves:
  assumes "c_end c = c_p c + int r" and "length (b64 src) \<le> r"
  shows "push_b64 src (c, m) = Ret (True, (c\<lparr>c_p := c_p c + int (length (b64 src))\<rparr>,
           mem_write m (c_p c) (b64 src @ replicate (r - length (b64 src)) 0)))"
  using assms by (simp add: push_b64_def base64_encode_spec b64_length)

lemma seq_ok_True [simp]: "seq_ok (Ret (True, s)) r f = f s"
  by (simp add: seq_ok_def)

lemma hex_text_no_nul: "0 \<notin> set (hex_text bs)"
  by (rule hex_text_nonzero)

lemma dm_memory:
  fixes A B H :: cstr
  assumes len: "length A + length S + length B + 1 + length H + 1 \<le> n"
    and nul: "0 \<notin> set A" "0 \<notin> set S" "0 \<notin> set B" "0 \<notin> set H"
    and m: "m = mem_write (mem_write (mem_write (mem_write (mem_write (\<lambda>_. 0) 0
          (A @ replicate (n - length A) 0)) (int (length A)) S)
          (int (length (A @ S))) (B @ replicate (n - length (A @ S) - length B) 0))
          (int (length (A @ S @ B))) [0]) (int (length (A @ S @ B)) + 1) (H @ [0])"
  shows "c_string m 0 n = A @ S @ B \<and> c_string m (int (length (A @ S @ B)) + 1) (Suc (length H)) = H"
proof
  let ?T = "A @ S @ B"
  have "mem_read m 0 (length A + (length S + length B)) = ?T"
    unfolding m mem_read_add
    by (simp add: mem_read_write_after mem_read_write_prefix)
  then have rd: "mem_read m 0 (length ?T) = ?T" by (simp add: add.assoc)
  have z: "m (0 + int (length ?T)) = 0" unfolding m by (simp add: mem_write_def)
  show "c_string m 0 n = ?T"
    using len nul by (intro c_string_eq [OF _ rd z]) auto
  show "c_string m (int (length ?T) + 1) (Suc (length H)) = H"
  proof (rule c_string_eq)
    have "mem_read m (int (length ?T) + 1) (length (H @ [0])) = H @ [0]"
      unfolding m by (rule mem_read_write_same)
    then have "mem_read m (int (length ?T) + 1) (length H) @ mem_read m (int (length ?T) + 1 + int (length H)) 1 = H @ [0]"
      using mem_read_add [of m "int (length ?T) + 1" "length H" 1] by simp
    then show "mem_read m (int (length ?T) + 1) (length H) = H" "m (int (length ?T) + 1 + int (length H)) = 0"
      by (simp_all add: mem_read_def [of _ _ "Suc 0"])
  qed (use nul in auto)
qed

definition dm_content :: "bytes \<Rightarrow> bytes \<Rightarrow> cstr" where
  "dm_content enc iv = b64 enc @ str ''?iv='' @ b64 iv"

lemma dm_text_spec:
  assumes "length iv = 16" and "length pk = 32"
    and "base64_encoded_length (length enc) + 94 \<le> n"
  shows "dm_text enc iv n ev pk kind =
     Ret (nostr_add_tag (ev\<lparr>ev_content := Some (dm_content enc iv), ev_kind := kind\<rparr>) (str ''p'') (hex_text pk))"
proof -
  let ?A = "b64 enc" and ?S = "str ''?iv=''" and ?B = "b64 iv" and ?H = "hex_text pk"
  let ?m1 = "mem_write (\<lambda>_. 0) 0 (?A @ replicate (n - length ?A) 0)"
  let ?m2 = "mem_write ?m1 (int (length ?A)) ?S"
  let ?m3 = "mem_write ?m2 (int (length (?A @ ?S))) (?B @ replicate (n - length (?A @ ?S) - length ?B) 0)"
  let ?m4 = "mem_write ?m3 (int (length (?A @ ?S @ ?B))) [0]"
  let ?m5 = "mem_write ?m4 (int (length (?A @ ?S @ ?B)) + 1) (?H @ [0])"
  have iv: "base64_encoded_length 16 = 24" by (simp add: base64_encoded_length_def)
  have lens: "length ?A = base64_encoded_length (length enc)" "length ?B = 24" "length ?S = 4" "length ?H = 64"
    using assms(1,2) iv by (simp_all add: b64_length)
  have len: "length ?A + length ?S + length ?B + 1 + length ?H + 1 \<le> n"
    using assms(3) lens by simp
  have nul: "0 \<notin> set ?A" "0 \<notin> set ?S" "0 \<notin> set ?B" "0 \<notin> set ?H"
    using b64_codec.enc_nul_free hex_text_no_nul by (simp_all add: bytes_simps)
  have strs: "c_string ?m5 0 n = dm_content enc iv"
    "c_string ?m5 (int (length (?A @ ?S @ ?B)) + 1) 65 = ?H"
    using dm_memory [OF len nul refl] lens(4) by (simp_all add: dm_content_def)
  let ?c = "\<lambda>k. \<lparr>c_start = 0, c_p = int k, c_end = int n\<rparr>"
  have "push_b64 enc (?c 0, (\<lambda>_. 0)) = Ret (True, (?c (length ?A), ?m1))"
    using len by (subst push_b64_moves [where r = n]) simp_all
  moreover have "cursor_push_str ?S (?c (length ?A), ?m1) = (True, (?c (length (?A @ ?S)), ?m2))"
    using len lens by (subst cursor_push_str_moves) simp_all
  moreover have "push_b64 iv (?c (length (?A @ ?S)), ?m2) = Ret (True, (?c (length (?A @ ?S @ ?B)), ?m3))"
    using len lens by (subst push_b64_moves [where r = "n - length (?A @ ?S)"]) simp_all
  moreover have "cursor_push_byte 0 (?c (length (?A @ ?S @ ?B)), ?m3)
      = (True, (?c (length (?A @ ?S @ ?B) + 1), ?m4))"
    using len lens by (simp add: cursor_push_byte_def)
  moreover have "hex_encode pk (nat (int n - int (length (?A @ ?S @ ?B) + 1))) = Ret (Some ?H)"
    using len lens assms(2) by (simp add: hex_encode_spec hex_str_size_def nat_diff_distrib)
  moreover have "make_cursor 0 (int n) = ?c 0" by (simp add: make_cursor_def)
  moreover have "int (length (?A @ ?S @ ?B) + 1) = int (length (?A @ ?S @ ?B)) + 1" by simp
  ultimately show ?thesis
    unfolding dm_text_def
    by (simp only: seq_ok_True prod.case bind_outcome.simps option.case cursor.simps Let_def strs)
qed

text \<open>The buffer is always large enough for the text.\<close>

text \<open>
  The first length for which \<^verbatim>\<open>enclen * 3 + 65 * 10\<close> is no \<^verbatim>\<open>int\<close>. Below it the sizes are what they
  look like; from it on, either a size overflows or the array is too small for the wrapped length.
\<close>

definition dm_limit :: nat where
  "dm_limit = 715827650"

lemma dm_sizes:
  assumes "k < dm_limit"
  shows "dm_buflen k = (int k + 16) * 3 + 650" "encbuf_size k = int k + int k mod 16 + 1" "dm_sizes_ok k"
proof -
  have "c_int (int k) = int k" "c_int (int k + 16) = int k + 16"
    using assms by (simp_all add: c_int_id dm_limit_def)
  moreover have "int k smod 16 = int k mod 16" by (simp add: smod_int_alt_def sgn_if)
  ultimately show "dm_buflen k = (int k + 16) * 3 + 650" "encbuf_size k = int k + int k mod 16 + 1"
    by (simp_all add: dm_buflen_def encbuf_size_def Let_def)
  moreover have "0 \<le> int k mod 16" "int k mod 16 < 16" by simp_all
  ultimately show "dm_sizes_ok k"
    using assms unfolding dm_sizes_ok_def is_int_def dm_limit_def by auto
qed

lemma c_int_bounds: "- (2 ^ 31) \<le> c_int x" "c_int x < 2 ^ 31"
  using sint_greater_eq [of "word_of_int x :: u32"] sint_less [of "word_of_int x :: u32"]
  by (simp_all add: c_int_def)

lemma c_int_wraps: "2 ^ 31 \<le> x \<Longrightarrow> c_int x \<le> x - 2 ^ 32"
proof -
  assume x: "2 ^ 31 \<le> x"
  have "word_of_int (c_int x) = (word_of_int x :: u32)" by (simp add: c_int_def)
  then have "(x - c_int x) mod 2 ^ 32 = 0"
    by (simp add: word_of_int_eq_iff take_bit_eq_mod mod_eq_dvd_iff dvd_diff_commute mod_eq_0_iff_dvd)
  then obtain q where q: "x - c_int x = 2 ^ 32 * q" by (auto simp: mod_eq_0_iff_dvd elim: dvdE)
  moreover have "0 < x - c_int x" using c_int_bounds(2) [of x] x by linarith
  ultimately have "0 < q" by (simp add: zero_less_mult_iff)
  then have "2 ^ 32 * 1 \<le> 2 ^ 32 * q" by (intro mult_left_mono) simp_all
  with q show ?thesis by simp
qed

lemma dm_sizes_bad:
  assumes "dm_limit \<le> k" and "dm_sizes_ok k"
  shows "encbuf_size k < int (k + aes_padding k)"
proof (cases "int k < 2 ^ 31")
  case True
  have "\<not> is_int (dm_buflen k)"
  proof (cases "int k + 16 < 2 ^ 31")
    case True
    then have "c_int (int k + 16) = int k + 16" by (simp add: c_int_id)
    with assms(1) show ?thesis by (simp add: dm_buflen_def is_int_def dm_limit_def)
  next
    case False
    then have "c_int (int k + 16) \<le> int k + 16 - 2 ^ 32" by (intro c_int_wraps) simp
    with True show ?thesis by (simp add: dm_buflen_def is_int_def)
  qed
  with assms(2) show ?thesis by (simp add: dm_sizes_ok_def)
next
  case False
  then have "c_int (int k) \<le> int k - 2 ^ 32" by (intro c_int_wraps) simp
  moreover have "c_int (int k) smod 16 \<le> 15"
    using smod_int_range [where a = "c_int (int k)" and b = 16] by simp
  ultimately show ?thesis by (simp add: encbuf_size_def Let_def)
qed

lemma dm_buflen_enough:
  assumes "k < dm_limit"
  shows "base64_encoded_length (k + aes_padding k) + 94 \<le> size_of_int (dm_buflen k)"
proof -
  have "size_of_int (dm_buflen k) = (k + 16) * 3 + 650"
    using assms by (simp add: dm_sizes size_of_int_pos dm_limit_def nat_add_distrib nat_mult_distrib)
  moreover
  have "(k + aes_padding k + 2) div 3 \<le> (k + 18) div 3"
    using aes_padding_bounds [of k] by (intro div_le_mono) simp
  moreover have "(k + 18) div 3 * 3 \<le> k + 18" by (rule div_times_less_eq_dividend)
  ultimately show ?thesis by (simp add: base64_encoded_length_def)
qed

lemma overrun_iff: "k < dm_limit \<Longrightarrow> encbuf_size k < int (k + aes_padding k) \<longleftrightarrow> k mod 16 < 8"
proof -
  assume "k < dm_limit"
  moreover have "int k mod 16 = int (k mod 16)" by (simp add: zmod_int)
  ultimately show ?thesis by (auto simp: aes_padding_def dm_sizes)
qed

text \<open>The calls of the library before the encryption succeed, with the given results.\<close>

definition dm_setup ::
  "secp256k1 \<Rightarrow> sys \<Rightarrow> nat \<Rightarrow> key \<Rightarrow> bytes \<Rightarrow> bytes \<Rightarrow> bytes \<Rightarrow> bool" where
  "dm_setup lib os n key nostr_pubkey shared_secret iv \<longleftrightarrow>
     ec_seckey_verify lib (k_secret key) \<and>
     (\<exists>pubkey. ec_pubkey_parse lib (2 # take 32 nostr_pubkey) = Some pubkey \<and>
               ecdh lib pubkey (k_secret key) copyx = Some shared_secret) \<and>
     getrandom os n 16 = Some iv \<and> length iv = 16"

lemma make_encrypted_dm_spec:
  assumes su: "dm_setup lib os n key pk shared_secret iv" and c: "ev_content ev = Some content"
    and pk: "length pk = 32" and len: "length content < dm_limit" and safe: "8 \<le> length content mod 16"
  shows "\<exists>ctx out. AES_CBC_decrypt_buffer \<lparr>RoundKey = KeyExpansion shared_secret, Iv = iv\<rparr> out (length out)
               = Some (ctx, pkcs7_pad content) \<and>
           make_encrypted_dm lib os n key ev pk kind =
             (case nostr_add_tag (ev\<lparr>ev_content := Some (dm_content out iv), ev_kind := kind\<rparr>) (str ''p'') (hex_text pk)
              of (ok, ev') \<Rightarrow> Ret (ok, ev', n + 1))"
proof -
  let ?m = "mem_write (\<lambda>_. 0) 0 content" and ?l = "length content"
  from su have iv: "length iv = 16" by (simp add: dm_setup_def)
  have msg: "mem_read ?m 0 ?l = content" by simp
  have "int ?l + 16 < 2 ^ 63" using len by (simp add: dm_limit_def)
  from aes_encrypt_spec [OF this iv, of shared_secret ?m 0] obtain ctx out m' where
    e: "AES_CBC_decrypt_buffer \<lparr>RoundKey = KeyExpansion shared_secret, Iv = iv\<rparr> out (?l + aes_padding ?l)
          = Some (ctx, pkcs7_pad content)" "length out = ?l + aes_padding ?l"
       "aes_encrypt shared_secret iv 0 ?l ?m = Ret (?l + aes_padding ?l, m')"
       "mem_read m' 0 (?l + aes_padding ?l) = out"
    unfolding msg by blast
  have "dm_text out iv (size_of_int (dm_buflen ?l)) ev pk kind =
     Ret (nostr_add_tag (ev\<lparr>ev_content := Some (dm_content out iv), ev_kind := kind\<rparr>) (str ''p'') (hex_text pk))"
    using dm_buflen_enough [OF len] e(2) by (intro dm_text_spec iv pk) simp
  moreover have "\<not> encbuf_size ?l < int (?l + aes_padding ?l)" using overrun_iff [OF len] safe by simp
  moreover have "dm_sizes_ok ?l" by (rule dm_sizes(3) [OF len])
  moreover have "?l + aes_padding ?l \<noteq> 0" using aes_padding_bounds [of ?l] by simp
  ultimately have "make_encrypted_dm lib os n key ev pk kind =
             (case nostr_add_tag (ev\<lparr>ev_content := Some (dm_content out iv), ev_kind := kind\<rparr>) (str ''p'') (hex_text pk)
              of (ok, ev') \<Rightarrow> Ret (ok, ev', n + 1))"
    using su e(3,4)
    by (auto simp: make_encrypted_dm_def c Let_def dm_setup_def fill_random_def split: prod.splits)
  with e(1) show ?thesis unfolding e(2) [symmetric] by blast
qed

text \<open>When the call returns at all, the sizes were right: every other length is undefined behaviour.\<close>

lemma make_encrypted_dm_setup:
  assumes "make_encrypted_dm lib os n key ev pk kind = Ret (True, ev', n')" and "ev_content ev = Some content"
  obtains ss iv where "dm_setup lib os n key pk ss iv" "length content < dm_limit" "8 \<le> length content mod 16"
proof -
  from assms obtain ss iv where su: "dm_setup lib os n key pk ss iv"
    and ok: "dm_sizes_ok (length content)"
      "\<not> encbuf_size (length content) < int (length content + aes_padding (length content))"
    by (auto simp: make_encrypted_dm_def Let_def dm_setup_def fill_random_def
        split: option.splits if_splits prod.splits)
  then have lim: "length content < dm_limit" using dm_sizes_bad [OF _ ok(1)] by force
  then show thesis using that [OF su] ok(2) overrun_iff [OF lim] by simp
qed

lemma make_encrypted_dm_abort:
  assumes "make_encrypted_dm lib os n key ev pk kind = Abort" and "ev_content ev = Some content" and "length pk = 32"
  shows "length content mod 16 < 8 \<or> dm_limit \<le> length content"
proof (rule ccontr)
  assume safe: "\<not> (length content mod 16 < 8 \<or> dm_limit \<le> length content)"
  then have "dm_sizes_ok (length content)" by (intro dm_sizes(3)) simp
  with assms(1,2) obtain ss iv where "dm_setup lib os n key pk ss iv"
    by (auto simp: make_encrypted_dm_def Let_def dm_setup_def fill_random_def
        split: option.splits if_splits prod.splits)
  from make_encrypted_dm_spec [OF this assms(2,3), of kind] safe assms(1) show False
    by (auto split: prod.splits)
qed

lemma make_encrypted_dm_aborts:
  assumes "dm_setup lib os n key pk shared_secret iv" and "ev_content ev = Some content"
    and bad: "length content mod 16 < 8 \<or> dm_limit \<le> length content"
  shows "make_encrypted_dm lib os n key ev pk kind = Abort"
proof -
  have "\<not> dm_sizes_ok (length content) \<or>
      encbuf_size (length content) < int (length content + aes_padding (length content))"
    using bad dm_sizes_bad [of "length content"] overrun_iff [of "length content"] by fastforce
  with assms(1,2) show ?thesis
    by (auto simp: make_encrypted_dm_def Let_def dm_setup_def fill_random_def split: prod.splits)
qed

text \<open>
  A message sealed for a recipient: the new content is the base64 of a ciphertext and of a vector, and
  the ciphertext decrypts to the padded message under the secret shared by the sender and that recipient.
\<close>

definition dm_sealed :: "secp256k1 \<Rightarrow> bytes \<Rightarrow> bytes \<Rightarrow> cstr \<Rightarrow> cstr \<Rightarrow> bool" where
  "dm_sealed lib secret recipient msg sealed \<longleftrightarrow>
     (\<exists>pubkey ss iv out ctx.
        ec_pubkey_parse lib (2 # take 32 recipient) = Some pubkey \<and> ecdh lib pubkey secret copyx = Some ss \<and>
        length iv = 16 \<and> sealed = dm_content out iv \<and>
        AES_CBC_decrypt_buffer \<lparr>RoundKey = KeyExpansion ss, Iv = iv\<rparr> out (length out) = Some (ctx, pkcs7_pad msg))"

lemma make_encrypted_dm_sealed:
  assumes "make_encrypted_dm lib os n key ev pk kind = Ret (True, ev', n')" and "ev_content ev = Some content"
    and "length pk = 32"
  shows "\<exists>c. dm_sealed lib (k_secret key) pk content c \<and> length (ev_tags ev) < MAX_TAGS \<and>
           ev' = ev\<lparr>ev_content := Some c, ev_kind := kind, ev_tags := ev_tags ev @ [[str ''p'', hex_text pk]]\<rparr>"
proof -
  obtain ss iv where su: "dm_setup lib os n key pk ss iv"
    and ok: "length content < dm_limit" "8 \<le> length content mod 16"
    by (rule make_encrypted_dm_setup [OF assms(1,2)])
  from make_encrypted_dm_spec [OF su assms(2,3) ok, of kind] obtain ctx out where
    d: "AES_CBC_decrypt_buffer \<lparr>RoundKey = KeyExpansion ss, Iv = iv\<rparr> out (length out) = Some (ctx, pkcs7_pad content)"
    and c: "make_encrypted_dm lib os n key ev pk kind =
             (case nostr_add_tag (ev\<lparr>ev_content := Some (dm_content out iv), ev_kind := kind\<rparr>) (str ''p'') (hex_text pk)
              of (ok, ev') \<Rightarrow> Ret (ok, ev', n + 1))" by blast
  have r: "nostr_add_tag (ev\<lparr>ev_content := Some (dm_content out iv), ev_kind := kind\<rparr>) (str ''p'') (hex_text pk)
              = (True, ev')"
    using c assms(1) by (simp split: prod.splits)
  have "dm_sealed lib (k_secret key) pk content (dm_content out iv)"
    using su d unfolding dm_sealed_def dm_setup_def by blast
  with r show ?thesis
    by (intro exI [of _ "dm_content out iv"])
       (auto simp: nostr_add_tag_def nostr_add_tag_n_def split: if_splits)
qed

text \<open>The toy library and generator make the setup of the witnesses.\<close>

lemma toy_dm_setup:
  "dm_setup toy_secp toy_sys 0 \<lparr>k_pair = [], k_secret = [], k_pubkey = []\<rparr> (replicate 32 5)
     (2 # replicate 31 5) (replicate 16 1)"
  by (simp add: dm_setup_def toy_secp_def toy_sys_def copyx_def)

section \<open>Properties\<close>

text \<open>
  Padding and encryption: \<open>aes_encrypt\<close> never fails an assertion, pads the message in place to the
  next multiple of 16, writes nothing outside those bytes, and CBC decryption followed by removing
  the padding gives the message back.
\<close>

theorem aes_encrypt_invertible:
  assumes "int buflen + 16 < 2 ^ 63" and "length iv = 16"
  shows "\<exists>ctx padded m'.
     aes_encrypt key iv buf buflen m = Ret (buflen + (16 - buflen mod 16), m') \<and>
     AES_CBC_decrypt_buffer \<lparr>RoundKey = KeyExpansion key, Iv = iv\<rparr>
       (mem_read m' buf (buflen + (16 - buflen mod 16))) (buflen + (16 - buflen mod 16)) = Some (ctx, padded) \<and>
     pkcs7_unpad padded = mem_read m buf buflen \<and>
     (\<forall>a. a < buf \<or> buf + int (buflen + (16 - buflen mod 16)) \<le> a \<longrightarrow> m' a = m a)"
  using aes_encrypt_spec [OF assms, of key m buf] pkcs7_unpad_pad unfolding aes_padding_def by blast

theorem aes_encrypt_invertible_witness:
  "\<exists>m'. aes_encrypt (replicate 32 1) (replicate 16 2) 0 3 (\<lambda>_. 7) = Ret (16, m') \<and> m' 16 = 7"
  using aes_encrypt_invertible [of 3 "replicate 16 2" "replicate 32 1" 0 "\<lambda>_. 7"] by auto

text \<open>
  C24. Direct messages: when the library calls succeed, the length of the content is at least 8 modulo
  16 and below the limit of the \<^verbatim>\<open>int\<close>s (for every other length the code overruns its array, the next
  property), and there is room for a tag, the new content is the base64 of a ciphertext, \<open>?iv=\<close> and the
  base64 of the initialisation vector; for a reader who knows the shared secret, decoding, decrypting
  with it and removing the padding gives the original content; the kind is set and the recipient's key
  is added as a \<open>p\<close> tag.
\<close>

theorem dm_readable:
  assumes "dm_setup lib os n key pk shared_secret iv" and "ev_content ev = Some content"
    and "length pk = 32" and "length content < dm_limit"
    and "8 \<le> length content mod 16" and "length (ev_tags ev) < MAX_TAGS"
  shows "\<exists>ev' ct_text iv_text ct ctx padded.
     make_encrypted_dm lib os n key ev pk kind = Ret (True, ev', n + 1) \<and>
     ev_content ev' = Some (ct_text @ str ''?iv='' @ iv_text) \<and>
     b64_dec ct_text = Some ct \<and> b64_dec iv_text = Some iv \<and>
     AES_CBC_decrypt_buffer \<lparr>RoundKey = KeyExpansion shared_secret, Iv = iv\<rparr> ct (length ct) = Some (ctx, padded) \<and>
     pkcs7_unpad padded = content \<and>
     ev_kind ev' = kind \<and> ev_tags ev' = ev_tags ev @ [[str ''p'', hex_text pk]]"
proof -
  from make_encrypted_dm_spec [OF assms(1-5), of kind] obtain ctx out where
    "AES_CBC_decrypt_buffer \<lparr>RoundKey = KeyExpansion shared_secret, Iv = iv\<rparr> out (length out)
       = Some (ctx, pkcs7_pad content)"
    "make_encrypted_dm lib os n key ev pk kind =
       (case nostr_add_tag (ev\<lparr>ev_content := Some (dm_content out iv), ev_kind := kind\<rparr>) (str ''p'') (hex_text pk)
        of (ok, ev') \<Rightarrow> Ret (ok, ev', n + 1))" by blast
  moreover have "b64_dec (b64 out) = Some out" "b64_dec (b64 iv) = Some iv"
    by (rule b64_codec.dec_enc)+
  ultimately show ?thesis
    using assms(6) pkcs7_unpad_pad [of content]
    by (intro exI [of _ "ev\<lparr>ev_content := Some (dm_content out iv), ev_kind := kind,
          ev_tags := ev_tags ev @ [[str ''p'', hex_text pk]]\<rparr>"] exI [of _ "b64 out"] exI [of _ "b64 iv"]
          exI [of _ out] exI [of _ ctx] exI [of _ "pkcs7_pad content"])
       (simp add: nostr_add_tag_def nostr_add_tag_n_def dm_content_def)
qed

theorem dm_readable_witness:
  "\<exists>ev' ct_text iv_text ct ctx padded.
     make_encrypted_dm toy_secp toy_sys 0 \<lparr>k_pair = [], k_secret = [], k_pubkey = []\<rparr>
       (zero_event\<lparr>ev_content := Some (replicate 8 65)\<rparr>) (replicate 32 5) 4 = Ret (True, ev', 1) \<and>
     ev_content ev' = Some (ct_text @ str ''?iv='' @ iv_text) \<and>
     b64_dec ct_text = Some ct \<and> b64_dec iv_text = Some (replicate 16 1) \<and>
     AES_CBC_decrypt_buffer \<lparr>RoundKey = KeyExpansion (2 # replicate 31 5), Iv = replicate 16 1\<rparr> ct (length ct)
       = Some (ctx, padded) \<and>
     pkcs7_unpad padded = replicate 8 65 \<and>
     ev_kind ev' = 4 \<and> ev_tags ev' = [[str ''p'', hex_text (replicate 32 5)]]"
proof -
  let ?ev = "zero_event\<lparr>ev_content := Some (replicate 8 65)\<rparr>"
  have "ev_content ?ev = Some (replicate 8 65)" "length (replicate 32 (5 :: u8)) = 32"
    "length (replicate 8 (65 :: u8)) < dm_limit" "8 \<le> length (replicate 8 (65 :: u8)) mod 16"
    "length (ev_tags ?ev) < MAX_TAGS"
    by (simp_all add: zero_event_def MAX_TAGS_def dm_limit_def)
  moreover have "ev_tags ?ev = []" by (simp add: zero_event_def)
  ultimately show ?thesis using dm_readable [OF toy_dm_setup, of ?ev "replicate 8 65" 4]
    by (simp only: append_Nil add_0)
qed

text \<open>
  C25. The overrun of \<open>encbuf\<close>: once the library calls have succeeded, the call has undefined behaviour
  exactly when the length of the content is below 8 modulo 16, or so large (715827650 bytes and more)
  that the sizes computed with \<^verbatim>\<open>int\<close>s are wrong. In the first case the array is too small for the padded
  message, and only then: an empty message already needs 16 bytes of an array of one.
\<close>

theorem dm_overruns_encbuf:
  assumes "dm_setup lib os n key pk shared_secret iv" and "ev_content ev = Some content" and "length pk = 32"
  shows "(make_encrypted_dm lib os n key ev pk kind = Abort \<longleftrightarrow>
            length content mod 16 < 8 \<or> 715827650 \<le> length content) \<and>
         (length content < 715827650 \<longrightarrow>
            (encbuf_size (length content) < int (length content + (16 - length content mod 16)) \<longleftrightarrow>
             length content mod 16 < 8))"
  using make_encrypted_dm_abort [OF _ assms(2,3), of lib os n key kind] make_encrypted_dm_aborts [OF assms(1,2)]
    overrun_iff [of "length content"]
  by (auto simp: dm_limit_def aes_padding_def)

theorem dm_overruns_encbuf_witness:
  "make_encrypted_dm toy_secp toy_sys 0 \<lparr>k_pair = [], k_secret = [], k_pubkey = []\<rparr>
     (zero_event\<lparr>ev_content := Some (str ''hello'')\<rparr>) (replicate 32 5) 4 = Abort \<and>
   make_encrypted_dm toy_secp toy_sys 0 \<lparr>k_pair = [], k_secret = [], k_pubkey = []\<rparr>
     (zero_event\<lparr>ev_content := Some (str ''hello, world'')\<rparr>) (replicate 32 5) 4 \<noteq> Abort"
  using dm_overruns_encbuf [OF toy_dm_setup, of "zero_event\<lparr>ev_content := Some (str ''hello'')\<rparr>" "str ''hello''" 4]
    dm_overruns_encbuf [OF toy_dm_setup, of "zero_event\<lparr>ev_content := Some (str ''hello, world'')\<rparr>" "str ''hello, world''" 4]
  by simp

end
