(* ===== verification/Args.thy ===== *)
theory Args
  imports Event
begin

unbundle bit_operations_syntax

text \<open>
  The command line of \<^verbatim>\<open>gnostr.c\<close>: the option flags and \<^verbatim>\<open>struct args\<close>, the texts that
  end the program, \<^verbatim>\<open>include/openssl_hash.h\<close>, \<^verbatim>\<open>strtol\<close> as the C library specifies it, and
  \<open>parse_args\<close>. One iteration of the loop of \<open>parse_args\<close> past the options that end the program is
  \<open>parse_option\<close>; it returns \<open>None\<close> where the source returns 0. The invariant \<open>parse_inv\<close> of the loop
  says what the rest of the program may rely on.
\<close>

section \<open>Flags and arguments\<close>

definition HAS_CREATED_AT :: u32 where "HAS_CREATED_AT = push_bit 1 1"
definition HAS_KIND :: u32 where "HAS_KIND = push_bit 2 1"
definition HAS_ENVELOPE :: u32 where "HAS_ENVELOPE = push_bit 3 1"
definition HAS_ENCRYPT :: u32 where "HAS_ENCRYPT = push_bit 4 1"
definition HAS_DIFFICULTY :: u32 where "HAS_DIFFICULTY = push_bit 5 1"
definition HAS_MINE_PUBKEY :: u32 where "HAS_MINE_PUBKEY = push_bit 6 1"

lemmas flag_defs =
  HAS_CREATED_AT_def HAS_KIND_def HAS_ENVELOPE_def HAS_ENCRYPT_def HAS_DIFFICULTY_def HAS_MINE_PUBKEY_def

record args =
  a_flags :: u32
  a_kind :: u32
  a_difficulty :: u32
  a_encrypt_to :: bytes
  a_sec :: "cstr option"
  a_hash :: "cstr option"
  a_arg1 :: "cstr option"
  a_arg2 :: "cstr option"
  a_xor_result :: "cstr option"
  a_tags :: "cstr option"
  a_content :: "cstr option"
  a_created_at :: u64

definition zero_args :: args where
  "zero_args = \<lparr>a_flags = 0, a_kind = 0, a_difficulty = 0, a_encrypt_to = replicate 32 0, a_sec = None,
     a_hash = None, a_arg1 = None, a_arg2 = None, a_xor_result = None, a_tags = None, a_content = None,
     a_created_at = 0\<rparr>"

definition has_flag :: "args \<Rightarrow> u32 \<Rightarrow> bool" where
  "has_flag args f \<longleftrightarrow> a_flags args AND f \<noteq> 0"

definition set_flag :: "u32 \<Rightarrow> args \<Rightarrow> args" where
  "set_flag f args = args\<lparr>a_flags := a_flags args OR f\<rparr>"

section \<open>Texts that end the program\<close>

definition usage_lines :: "cstr list" where
  "usage_lines =
   [str ''usage: gnostr [OPTIONS]'',
    [],
    str ''  GIT OPTIONS'',
    [],
    [],
    str ''  RELAY OPTIONS'',
    [],
    [],
    str ''  NOSTR OPTIONS'',
    [],
    str ''      --content <string>              the content of the note'',
    str ''      --dm <hex pubkey>               make an encrypted dm to said pubkey. sets kind and tags.'',
    str ''      --envelope                      wrap in ['' @ [34] @ str ''EVENT'' @ [34] @ str '',...] for easy relaying'',
    str ''      --kind <number>                 set kind'',
    str ''      --created-at <unix timestamp>   set a specific created-at time'',
    str ''      --sec <hex seckey>              set the secret key for signing, otherwise one will be randomly generated'',
    str ''      --pow <difficulty>              number of leading 0 bits of the id to mine'',
    str ''      --mine-pubkey                   mine a pubkey instead of id'',
    str ''      --tag <key> <value>             add a tag'',
    [],
    str ''      --hash <value>                  return sha256 of <value>'',
    [],
    str ''      -e <event_id>                   shorthand for --tag e <event_id>'',
    str ''      -p <pubkey>                     shorthand for --tag p <pubkey>'',
    str ''      -t <hashtag>                    shorthand for --tag t <hashtag>'']"

definition usage :: cstr where
  "usage = concat (map (\<lambda>l. l @ [10]) usage_lines)"

definition version :: cstr where
  "version = str ''0.0.0'' @ [10]"

definition about :: cstr where
  "about = str ''gnostr: a git nostr command line utility.'' @ [10]"

text \<open>How \<open>parse_args\<close> can end.\<close>

datatype 'a parse_result = PPrint cstr | PSystem cstr | PCrash | PFail | POk 'a

text \<open>
  \<open>openssl_hash\<close> builds a shell command in an array of 128 bytes; a longer one is written past its
  end. 39 is the single quote.
\<close>

definition hash_pipe :: cstr where
  "hash_pipe = str ''openssl dgst -sha256 | sed '' @ [39] @ str ''s/SHA2-256(stdin)= //g'' @ [39]"

definition hash_command :: "cstr option \<Rightarrow> cstr" where
  "hash_command arg =
     (case arg of
        Some h \<Rightarrow> str ''echo'' @ str '' '' @ h @ str ''|'' @ hash_pipe
      | None \<Rightarrow> str ''0>/dev/null|'' @ hash_pipe)"

definition openssl_hash :: "cstr option \<Rightarrow> 'a parse_result" where
  "openssl_hash arg =
     (if length (hash_command arg) + 1 > 128 then PCrash else PSystem (hash_command arg))"

section \<open>Numbers\<close>

definition EINVAL_errno :: nat where "EINVAL_errno = 22"
definition ERANGE_errno :: nat where "ERANGE_errno = 34"

definition isspace :: "u8 \<Rightarrow> bool" where
  "isspace c \<longleftrightarrow> c = 32 \<or> c = 9 \<or> c = 10 \<or> c = 11 \<or> c = 12 \<or> c = 13"

definition isdigit :: "u8 \<Rightarrow> bool" where
  "isdigit c \<longleftrightarrow> 48 \<le> c \<and> c \<le> 57"

text \<open>
  \<^verbatim>\<open>strtol(s, NULL, 10)\<close>: white space, an optional sign, digits; out of range the nearest
  \<^verbatim>\<open>long\<close> and ERANGE; no digits give 0 and leave \<^verbatim>\<open>errno\<close> alone.
\<close>

definition clamp_long :: "int \<Rightarrow> nat \<Rightarrow> int \<times> nat" where
  "clamp_long v errno =
     (if v < - (2 ^ 63) then (- (2 ^ 63), ERANGE_errno)
      else if v \<ge> 2 ^ 63 then (2 ^ 63 - 1, ERANGE_errno)
      else (v, errno))"

definition strtol10 :: "cstr \<Rightarrow> nat \<Rightarrow> int \<times> nat" where
  "strtol10 s errno =
     (let s = dropWhile isspace s
      in case s of
           [] \<Rightarrow> (0, errno)
         | c # r \<Rightarrow>
             if c = chr CHR ''-'' then clamp_long (- int (dec_val (takeWhile isdigit r))) errno
             else if c = chr CHR ''+'' then clamp_long (int (dec_val (takeWhile isdigit r))) errno
             else clamp_long (int (dec_val (takeWhile isdigit s))) errno)"

text \<open>The C result, the number, and \<^verbatim>\<open>errno\<close> afterwards.\<close>

definition parse_num :: "cstr \<Rightarrow> nat \<Rightarrow> bool \<times> u64 \<times> nat" where
  "parse_num arg errno =
     (case strtol10 arg errno of (v, errno) \<Rightarrow> (errno \<noteq> EINVAL_errno, word_of_int v, errno))"

section \<open>parse_args\<close>

record pstate =
  p_args :: args
  p_ev :: nostr_event
  p_added :: bool
  p_errno :: nat

definition add_tag_option :: "cstr \<Rightarrow> cstr \<Rightarrow> pstate \<Rightarrow> pstate option" where
  "add_tag_option t v st =
     (case nostr_add_tag (p_ev st) t v of
        (ok, ev) \<Rightarrow> if ok then Some (st\<lparr>p_ev := ev, p_added := True\<rparr>) else None)"

text \<open>
  One option: \<open>arg\<close> is the option, \<open>v\<close> the argument after it and \<open>rest\<close> what follows \<open>v\<close>. The result
  is the new state and the arguments not yet consumed.
\<close>

definition parse_option ::
  "cstr \<Rightarrow> cstr \<Rightarrow> cstr list \<Rightarrow> pstate \<Rightarrow> (pstate \<times> cstr list) option" where
  "parse_option arg v rest st =
     (let args = p_args st
      in if arg = str ''--sec'' \<or> arg = str ''-s'' then
           Some (st\<lparr>p_args := args\<lparr>a_sec := Some v\<rparr>\<rparr>, rest)
         else if arg = str ''--created-at'' then
           (case parse_num v (p_errno st) of (ok, n, errno) \<Rightarrow>
              if \<not> ok then None
              else Some (st\<lparr>p_args := set_flag HAS_CREATED_AT (args\<lparr>a_created_at := n\<rparr>), p_errno := errno\<rparr>, rest))
         else if arg = str ''--kind'' then
           (case parse_num v (p_errno st) of (ok, n, errno) \<Rightarrow>
              if \<not> ok then None
              else Some (st\<lparr>p_args := set_flag HAS_KIND (args\<lparr>a_kind := ucast n\<rparr>), p_errno := errno\<rparr>, rest))
         else if arg = str ''--envelope'' then
           Some (st\<lparr>p_args := set_flag HAS_ENVELOPE args\<rparr>, v # rest)
         else if arg = str ''--tags'' then
           if has_flag args HAS_DIFFICULTY then None
           else if p_added st then None
           else Some (st\<lparr>p_args := args\<lparr>a_tags := Some v\<rparr>\<rparr>, rest)
         else if arg = str ''-e'' then map_option (\<lambda>st. (st, rest)) (add_tag_option (str ''e'') v st)
         else if arg = str ''-p'' then map_option (\<lambda>st. (st, rest)) (add_tag_option (str ''p'') v st)
         else if arg = str ''-t'' then map_option (\<lambda>st. (st, rest)) (add_tag_option (str ''t'') v st)
         else if arg = str ''--tag'' then
           if a_tags args \<noteq> None then None
           else (case rest of
                   [] \<Rightarrow> None
                 | v2 # rest \<Rightarrow> map_option (\<lambda>st. (st, rest)) (add_tag_option v v2 st))
         else if arg = str ''--mine-pubkey'' then
           Some (st\<lparr>p_args := set_flag HAS_MINE_PUBKEY args\<rparr>, v # rest)
         else if arg = str ''--pow'' then
           if a_tags args \<noteq> None then None
           else (case parse_num v (p_errno st) of (ok, n, errno) \<Rightarrow>
                   if \<not> ok then None
                   else Some (st\<lparr>p_args := set_flag HAS_DIFFICULTY (args\<lparr>a_difficulty := ucast n\<rparr>),
                                 p_errno := errno\<rparr>, rest))
         else if arg = str ''--dm'' then
           (case hex_decode v 32 of (ok, bs) \<Rightarrow>
              if \<not> ok then None
              else Some (st\<lparr>p_args := set_flag HAS_ENCRYPT (args\<lparr>a_encrypt_to := bs\<rparr>)\<rparr>, rest))
         else if arg = str ''--content'' then
           Some (st\<lparr>p_args := args\<lparr>a_content := Some v\<rparr>\<rparr>, rest)
         else None)"

lemma parse_option_consumes:
  "parse_option arg v rest st = Some (st', r) \<Longrightarrow> length r \<le> Suc (length rest)"
  by (auto simp: parse_option_def Let_def split: if_splits prod.splits list.splits)

function parse_loop :: "cstr list \<Rightarrow> pstate \<Rightarrow> pstate parse_result" where
  "parse_loop argv st =
     (case argv of
        [] \<Rightarrow> POk st
      | arg # later \<Rightarrow>
          if arg = str ''--help'' \<or> arg = str ''-h'' then PPrint usage
          else if arg = str ''--version'' \<or> arg = str ''-v'' then PPrint version
          else if arg = str ''--about'' \<or> arg = str ''-a'' then PPrint about
          else if arg = str ''--hash'' then
            openssl_hash (case later of [] \<Rightarrow> None | h # _ \<Rightarrow> Some h)
          else (case later of
                  [] \<Rightarrow> PFail
                | v # rest \<Rightarrow>
                    (case parse_option arg v rest st of
                       None \<Rightarrow> PFail
                     | Some (st', r) \<Rightarrow> parse_loop r st')))"
  by pat_completeness auto
termination
  by (relation "measure (\<lambda>(argv, st). length argv)") (auto dest: parse_option_consumes)

declare parse_loop.simps [simp del]

definition parse_args :: "cstr list \<Rightarrow> nat \<Rightarrow> (args \<times> nostr_event) parse_result" where
  "parse_args argv errno =
     (case parse_loop (tl argv) \<lparr>p_args = zero_args, p_ev = zero_event, p_added = False, p_errno = errno\<rparr> of
        PPrint out \<Rightarrow> PPrint out
      | PSystem cmd \<Rightarrow> PSystem cmd
      | PCrash \<Rightarrow> PCrash
      | PFail \<Rightarrow> PFail
      | POk st \<Rightarrow>
          let args = p_args st
          in POk (if a_content args = None then args\<lparr>a_content := Some []\<rparr> else args, p_ev st))"

section \<open>The invariant of the loop\<close>

lemma has_flag_set: "has_flag (set_flag f args) g \<longleftrightarrow> has_flag args g \<or> f AND g \<noteq> 0"
proof -
  have "(a_flags args OR f) AND g = (a_flags args AND g) OR (f AND g)" by (rule and.commute [THEN trans])
    (simp add: bit.conj_disj_distrib and.commute)
  then show ?thesis by (simp add: has_flag_def set_flag_def or_eq_0_iff)
qed

lemma set_flag_fields [simp]:
  "a_tags (set_flag f args) = a_tags args" "a_encrypt_to (set_flag f args) = a_encrypt_to args"
  "a_content (set_flag f args) = a_content args" "a_kind (set_flag f args) = a_kind args"
  "a_difficulty (set_flag f args) = a_difficulty args" "a_sec (set_flag f args) = a_sec args"
  by (simp_all add: set_flag_def)

lemma has_flag_fields [simp]:
  "has_flag (args\<lparr>a_sec := s\<rparr>) f = has_flag args f" "has_flag (args\<lparr>a_created_at := t\<rparr>) f = has_flag args f"
  "has_flag (args\<lparr>a_kind := k\<rparr>) f = has_flag args f" "has_flag (args\<lparr>a_tags := ts\<rparr>) f = has_flag args f"
  "has_flag (args\<lparr>a_difficulty := d\<rparr>) f = has_flag args f" "has_flag (args\<lparr>a_encrypt_to := b\<rparr>) f = has_flag args f"
  "has_flag (args\<lparr>a_content := c\<rparr>) f = has_flag args f"
  by (simp_all add: has_flag_def)

definition parse_inv :: "pstate \<Rightarrow> bool" where
  "parse_inv st \<longleftrightarrow>
     (\<exists>ts. p_ev st = zero_event\<lparr>ev_tags := ts\<rparr> \<and> length ts \<le> MAX_TAGS \<and> list_all (\<lambda>t. length t = 2) ts) \<and>
     length (a_encrypt_to (p_args st)) = 32 \<and>
     \<not> (a_tags (p_args st) \<noteq> None \<and> has_flag (p_args st) HAS_DIFFICULTY)"

lemma parse_inv_args:
  "parse_inv st \<Longrightarrow> length (a_encrypt_to args) = 32 \<Longrightarrow>
   \<not> (a_tags args \<noteq> None \<and> has_flag args HAS_DIFFICULTY) \<Longrightarrow> parse_inv (st\<lparr>p_args := args\<rparr>)"
  by (simp add: parse_inv_def)

lemma parse_inv_errno [simp]: "parse_inv (st\<lparr>p_errno := e\<rparr>) = parse_inv st"
  by (simp add: parse_inv_def)

lemma parse_inv_args_errno:
  "parse_inv st \<Longrightarrow> length (a_encrypt_to args) = 32 \<Longrightarrow>
   \<not> (a_tags args \<noteq> None \<and> has_flag args HAS_DIFFICULTY) \<Longrightarrow> parse_inv (st\<lparr>p_args := args, p_errno := e\<rparr>)"
  by (simp add: parse_inv_def)

lemma add_tag_option_inv:
  assumes "parse_inv st" and "add_tag_option t v st = Some st'"
  shows "parse_inv st' \<and> p_args st' = p_args st"
proof -
  from assms(1) obtain ts where ts: "p_ev st = zero_event\<lparr>ev_tags := ts\<rparr>" "length ts \<le> MAX_TAGS"
    "list_all (\<lambda>t. length t = 2) ts" by (auto simp: parse_inv_def)
  have "zero_event\<lparr>ev_tags := ts, ev_tags := ts @ [[t, v]]\<rparr> = zero_event\<lparr>ev_tags := ts @ [[t, v]]\<rparr>" by simp
  with assms ts show ?thesis
    by (auto simp: parse_inv_def add_tag_option_def nostr_add_tag_def nostr_add_tag_n_def zero_event_def
        split: if_splits)
qed

lemma hex_decode_32: "hex_decode v 32 = (True, bs) \<Longrightarrow> length bs = 32"
  using hex_decode_loop_True [of v 32 "[]" bs] by (auto simp: hex_decode_def)

lemma flag_meets:
  "HAS_CREATED_AT AND HAS_DIFFICULTY = 0" "HAS_KIND AND HAS_DIFFICULTY = 0"
  "HAS_ENVELOPE AND HAS_DIFFICULTY = 0" "HAS_ENCRYPT AND HAS_DIFFICULTY = 0"
  "HAS_MINE_PUBKEY AND HAS_DIFFICULTY = 0"
  by (simp_all add: flag_defs)

lemma parse_invD:
  "parse_inv st \<Longrightarrow> length (a_encrypt_to (p_args st)) = 32"
  "parse_inv st \<Longrightarrow> a_tags (p_args st) \<noteq> None \<Longrightarrow> \<not> has_flag (p_args st) HAS_DIFFICULTY"
  by (auto simp: parse_inv_def)

lemma parse_option_inv:
  assumes "parse_inv st" and "parse_option arg v rest st = Some (st', r)"
  shows "parse_inv st'"
  using assms(2) parse_invD [OF assms(1)] unfolding parse_option_def Let_def
  by (auto simp: has_flag_set flag_meets hex_decode_32 dest: add_tag_option_inv [OF assms(1)]
      intro!: parse_inv_args [OF assms(1)] parse_inv_args_errno [OF assms(1)]
      split: if_splits prod.splits list.splits)

lemma parse_loop_inv: "parse_loop argv st = POk st' \<Longrightarrow> parse_inv st \<Longrightarrow> parse_inv st'"
proof (induction argv st rule: parse_loop.induct)
  case (1 argv st)
  from 1(2,3) show ?case
    unfolding parse_loop.simps [of argv st]
    by (auto simp: openssl_hash_def dest: parse_option_inv intro: 1(1)
        split: list.splits if_splits option.splits prod.splits)
qed

lemma parse_inv_init:
  "parse_inv \<lparr>p_args = zero_args, p_ev = zero_event, p_added = False, p_errno = e\<rparr>"
proof -
  have "zero_event = zero_event\<lparr>ev_tags := []\<rparr>" by (simp add: zero_event_def)
  then show ?thesis unfolding parse_inv_def by (intro conjI exI [of _ "[]"]) (simp_all add: zero_args_def)
qed

lemma parse_args_inv:
  assumes "parse_args argv e = POk (args, ev)"
  shows "\<exists>ts. ev = zero_event\<lparr>ev_tags := ts\<rparr> \<and> length ts \<le> MAX_TAGS \<and> list_all (\<lambda>t. length t = 2) ts \<and>
              a_content args \<noteq> None \<and> length (a_encrypt_to args) = 32 \<and>
              \<not> (a_tags args \<noteq> None \<and> has_flag args HAS_DIFFICULTY)"
proof -
  obtain st where st: "parse_loop (tl argv) \<lparr>p_args = zero_args, p_ev = zero_event, p_added = False, p_errno = e\<rparr> = POk st"
    "ev = p_ev st" "args = (if a_content (p_args st) = None then (p_args st)\<lparr>a_content := Some []\<rparr> else p_args st)"
    using assms by (auto simp: parse_args_def Let_def split: parse_result.splits)
  from parse_loop_inv [OF st(1) parse_inv_init] st(2,3) show ?thesis
    by (auto simp: parse_inv_def)
qed

section \<open>Numbers as text\<close>

lemma isdigit_unat: "isdigit c \<longleftrightarrow> 48 \<le> unat c \<and> unat c \<le> 57"
  by (simp add: isdigit_def word_le_nat_alt)

lemma dec_u_isdigit: "list_all isdigit (dec_u n)"
  using dec_u_digits [of n] by (simp add: list_all_iff isdigit_unat)

lemma takeWhile_digits [simp]: "takeWhile isdigit (dec_u n) = dec_u n"
  using dec_u_isdigit [of n] by (simp add: list_all_iff)

lemma strtol10_dec_s:
  assumes "- (2 ^ 63) \<le> i" and "i < 2 ^ 63"
  shows "strtol10 (dec_s i) e = (i, e)"
proof (cases "i < 0")
  case True
  then show ?thesis using assms by (auto simp: strtol10_def dec_s_def clamp_long_def isspace_def chr_def)
next
  case False
  obtain c r where c: "dec_u (nat i) = c # r" by (cases "dec_u (nat i)") auto
  with dec_u_isdigit [of "nat i"] have d: "48 \<le> unat c \<and> unat c \<le> 57" by (simp add: isdigit_unat)
  then have "\<not> isspace c" "c \<noteq> 45" "c \<noteq> 43" by (auto simp: isspace_def)
  with False assms c show ?thesis
    using takeWhile_digits [of "nat i"] dec_val_dec_u [of "nat i"]
    by (simp add: strtol10_def dec_s_def clamp_long_def chr_def)
qed

lemma parse_num_dec_s:
  fixes k :: u32
  assumes "e \<noteq> EINVAL_errno"
  shows "parse_num (dec_s (sint k)) e = (True, word_of_int (sint k), e)"
proof -
  have "- (2 ^ 31) \<le> sint k" "sint k < 2 ^ 31" using sint_ge [of k] sint_lt [of k] by simp_all
  then have "strtol10 (dec_s (sint k)) e = (sint k, e)" by (intro strtol10_dec_s) simp_all
  with assms show ?thesis by (simp add: parse_num_def)
qed

section \<open>Properties\<close>

text \<open>
  C31. What a successful parse guarantees: the event is zero but for at most 32 tags of two strings
  each, a content is always set, the recipient has 32 bytes, and a literal tag list is never combined
  with proof of work.
\<close>

theorem parse_args_invariant:
  assumes "parse_args argv e = POk (args, ev)"
  shows "event_wf ev \<and> ev = zero_event\<lparr>ev_tags := ev_tags ev\<rparr> \<and> list_all (\<lambda>t. length t = 2) (ev_tags ev) \<and>
         a_content args \<noteq> None \<and> length (a_encrypt_to args) = 32 \<and>
         \<not> (a_tags args \<noteq> None \<and> has_flag args HAS_DIFFICULTY)"
  using parse_args_inv [OF assms]
  by (auto simp: event_wf_def zero_event_def MAX_TAG_ELEMS_def list_all_iff)

theorem parse_args_invariant_witness:
  "\<exists>args ev. parse_args [str ''gnostr'', str ''-t'', str ''x'', str ''--pow'', str ''8''] 0 = POk (args, ev) \<and>
             a_tags args = None \<and> event_wf ev"
proof -
  have "\<exists>args ev. parse_args [str ''gnostr'', str ''-t'', str ''x'', str ''--pow'', str ''8''] 0 = POk (args, ev)
          \<and> a_tags args = None"
    by (simp add: parse_args_def parse_loop.simps parse_option_def add_tag_option_def nostr_add_tag_def
        nostr_add_tag_n_def zero_event_def zero_args_def MAX_TAGS_def parse_num_def strtol10_def
        clamp_long_def EINVAL_errno_def ERANGE_errno_def isspace_def Let_def bytes_simps split: prod.splits)
  then show ?thesis using parse_args_invariant by blast
qed

text \<open>
  Numeric options: the decimal text of any 32-bit kind given to \<open>--kind\<close> is parsed back to that
  kind, provided \<^verbatim>\<open>errno\<close> does not hold EINVAL from an earlier call.
\<close>

theorem kind_option_roundtrip:
  assumes "e \<noteq> EINVAL_errno"
  shows "\<exists>args. parse_args [prog, str ''--kind'', dec_s (sint k)] e = POk (args, zero_event) \<and>
                a_kind args = k \<and> has_flag args HAS_KIND"
proof -
  have "ucast (word_of_int (sint k) :: u64) = k"
  proof (rule bit_word_eqI)
    fix n assume "n < LENGTH(32)"
    then show "bit (ucast (word_of_int (sint k) :: u64) :: u32) n = bit k n"
      by (cases "n = 31") (auto simp: bit_simps min_def)
  qed
  then show ?thesis
    by (simp add: parse_args_def parse_loop.simps parse_option_def parse_num_dec_s [OF assms] Let_def
        has_flag_set zero_args_def) (simp add: flag_defs str_def)
qed

theorem kind_option_roundtrip_witness:
  "\<exists>args. parse_args [str ''gnostr'', str ''--kind'', dec_s (sint (42 :: u32))] 0 = POk (args, zero_event) \<and>
          a_kind args = 42"
  using kind_option_roundtrip [of 0 "str ''gnostr''" 42] by (auto simp: EINVAL_errno_def)

text \<open>
  Text that is no number is accepted as 0: the only test is for EINVAL, which
  \<^verbatim>\<open>strtol\<close> does not set for it.
\<close>

theorem parse_num_accepts_text:
  assumes "\<not> isspace c" and "\<not> isdigit c" and "c \<noteq> chr CHR ''-''" and "c \<noteq> chr CHR ''+''"
    and "e \<noteq> EINVAL_errno"
  shows "parse_num (c # r) e = (True, 0, e)"
  using assms by (simp add: parse_num_def strtol10_def clamp_long_def dec_val_def)

theorem parse_num_accepts_text_witness: "parse_num (str ''abc'') 0 = (True, 0, 0)"
  using parse_num_accepts_text [of "chr CHR ''a''" 0 "str ''bc''"]
  by (simp add: isspace_def isdigit_def EINVAL_errno_def bytes_simps)

text \<open>
  Every option needs something after it, even those that take no argument: a command line whose
  last word is \<open>--envelope\<close> or \<open>--mine-pubkey\<close>, after any content, is refused.
\<close>

theorem last_flag_refused:
  "parse_args [prog, str ''--content'', c, str ''--envelope''] e = PFail \<and>
   parse_args [prog, str ''--content'', c, str ''--mine-pubkey''] e = PFail \<and>
   (\<exists>r. parse_args [prog, str ''--envelope'', str ''--content'', c] e = POk r)"
  by (simp add: parse_args_def parse_loop.simps parse_option_def Let_def str_def)

text \<open>
  \<open>--tags\<close> excludes \<open>--tag\<close> in both orders, but the shorthand \<open>-e\<close> after \<open>--tags\<close> is accepted; the
  literal list then wins and the tag of \<open>-e\<close> never reaches the event id.
\<close>

theorem tags_conflicts:
  "parse_args [prog, str ''--tags'', t, str ''--tag'', a, b] e = PFail \<and>
   parse_args [prog, str ''--tag'', a, b, str ''--tags'', t] e = PFail \<and>
   (\<exists>args ev. parse_args [prog, str ''--tags'', t, str ''-e'', a] e = POk (args, ev) \<and>
      a_tags args = Some t \<and> ev_tags ev = [[str ''e'', a]] \<and>
      commitment_text (ev\<lparr>ev_explicit_tags := a_tags args\<rparr>)
        = commitment_text (zero_event\<lparr>ev_explicit_tags := Some t\<rparr>))"
proof (intro conjI)
  show "parse_args [prog, str ''--tags'', t, str ''--tag'', a, b] e = PFail"
    by (simp add: parse_args_def parse_loop.simps parse_option_def Let_def zero_args_def has_flag_def str_def)
  show "parse_args [prog, str ''--tag'', a, b, str ''--tags'', t] e = PFail"
    by (simp add: parse_args_def parse_loop.simps parse_option_def Let_def zero_args_def has_flag_def
        add_tag_option_def nostr_add_tag_def nostr_add_tag_n_def zero_event_def MAX_TAGS_def str_def)
  show "\<exists>args ev. parse_args [prog, str ''--tags'', t, str ''-e'', a] e = POk (args, ev) \<and>
      a_tags args = Some t \<and> ev_tags ev = [[str ''e'', a]] \<and>
      commitment_text (ev\<lparr>ev_explicit_tags := a_tags args\<rparr>)
        = commitment_text (zero_event\<lparr>ev_explicit_tags := Some t\<rparr>)"
    by (simp add: parse_args_def parse_loop.simps parse_option_def Let_def zero_args_def has_flag_def
        add_tag_option_def nostr_add_tag_def nostr_add_tag_n_def zero_event_def MAX_TAGS_def str_def
        commitment_text_def commitment_head_def tags_text_def)
qed

text \<open>
  \<open>--hash\<close> copies its argument into a fixed array: the command is run exactly when the argument
  is short enough, and a longer one overruns the array.
\<close>

theorem hash_argument_bound:
  "openssl_hash (Some h) =
     (if 70 < length h then PCrash else PSystem (str ''echo '' @ h @ str ''|'' @ hash_pipe))"
  by (simp add: openssl_hash_def hash_command_def hash_pipe_def str_def)

end
