(* ===== verification/To_Base.thy ===== *)
theory To_Base
  imports Keys
begin

unbundle bit_operations_syntax

text \<open>
  The small helpers at the top of \<^verbatim>\<open>gnostr.c\<close>: printing an unsigned number in any base up to
  36, the demonstration that uses it, and the test for an executable file.
\<close>

section \<open>The functions\<close>

definition TO_BASE_N :: nat where "TO_BASE_N = 4 * 8 + 1"

definition base_digits :: cstr where
  "base_digits = str ''0123456789ABCDEFGHIJKLMNOPQRSTUVWXYZ''"

text \<open>
  The loop writes digits downwards from the end of the buffer: \<open>pos\<close> is the index of \<open>s\<close> and \<open>acc\<close>
  the string from there on. Moving below the start of the buffer is \<open>Abort\<close>.
\<close>

function to_base_loop :: "nat \<Rightarrow> u32 \<Rightarrow> u32 \<Rightarrow> cstr \<Rightarrow> cstr outcome" where
  "to_base_loop pos i base acc =
     (if pos = 0 then Abort
      else let acc = base_digits ! unat (i mod base) # acc;
               i = i div base
           in if i \<noteq> 0 then to_base_loop (pos - 1) i base acc else Ret acc)"
  by pat_completeness auto
termination
  by (relation "measure (\<lambda>(pos, i, base, acc). pos)") auto

declare to_base_loop.simps [simp del]

definition my_to_base :: "u32 \<Rightarrow> int \<Rightarrow> cstr outcome" where
  "my_to_base i base =
     (if base \<ge> 2 \<and> base \<le> 36 then to_base_loop (TO_BASE_N - 1) i (word_of_int base) [] else Abort)"

text \<open>The text \<open>print_base\<close> prints.\<close>

definition base_pair :: "u32 \<Rightarrow> u32 \<Rightarrow> int \<Rightarrow> cstr outcome" where
  "base_pair a b base =
     bind_outcome (my_to_base a base) (\<lambda>x.
     bind_outcome (my_to_base b base) (\<lambda>y. Ret (x @ str '' '' @ y @ [10])))"

definition base_line :: "u32 \<Rightarrow> int \<Rightarrow> cstr outcome" where
  "base_line a base = bind_outcome (my_to_base a base) (\<lambda>x. Ret (x @ [10]))"

definition print_base :: "u32 \<Rightarrow> cstr outcome" where
  "print_base input =
     (let ip1 = 0x01020304; ip2 = 0x05060708
      in bind_outcome
           (map_outcome (\<lambda>x. x)
              [base_pair ip1 ip2 16, base_pair ip1 ip2 2, base_line ip1 8, base_line ip1 36,
               base_pair input input 16, base_pair input input 2, base_line input 8, base_line input 36])
           (\<lambda>ls. Ret (concat ls)))"

definition is_executable_file :: "sys \<Rightarrow> cstr \<Rightarrow> bool" where
  "is_executable_file os file_path \<longleftrightarrow>
     (case stat_mode os file_path of
        None \<Rightarrow> False
      | Some mode \<Rightarrow> mode AND 0xF000 = 0x8000 \<and> access_x os file_path)"

section \<open>The digits denote the number\<close>

definition digit_value :: "u8 \<Rightarrow> nat" where
  "digit_value c = (if unat c < 58 then unat c - 48 else unat c - 55)"

definition base_value :: "nat \<Rightarrow> cstr \<Rightarrow> nat" where
  "base_value b s = foldl (\<lambda>n c. b * n + digit_value c) 0 s"

lemma base_digit_value: "d < 36 \<Longrightarrow> digit_value (base_digits ! d) = d"
  by (rule all_below [where n = 36 and P = "\<lambda>d. digit_value (base_digits ! d) = d"]) code_simp

lemma foldl_base:
  "foldl (\<lambda>n c. b * n + digit_value c) k s = k * b ^ length s + base_value b s"
proof (induction s arbitrary: k)
  case Nil
  then show ?case by (simp add: base_value_def)
next
  case (Cons c s)
  show ?case
    unfolding base_value_def using Cons [of "b * k + digit_value c"] Cons [of "digit_value c"]
    by (simp add: algebra_simps)
qed

lemma base_value_Cons: "base_value b (c # s) = digit_value c * b ^ length s + base_value b s"
  using foldl_base [of b "digit_value c" s] by (simp add: base_value_def)

lemma to_base_loop_spec:
  assumes "2 \<le> unat base" and "unat base \<le> 36" and "unat i < 2 ^ pos" and "0 < pos"
  shows "\<exists>s. to_base_loop pos i base acc = Ret (s @ acc) \<and> length s \<le> pos \<and> base_value (unat base) s = unat i"
  using assms
proof (induction pos i base acc rule: to_base_loop.induct)
  case (1 pos i base acc)
  let ?b = "unat base" and ?c = "base_digits ! unat (i mod base)" and ?q = "i div base"
  have um: "unat (i mod base) = unat i mod ?b" by (rule unat_mod)
  have ud: "unat ?q = unat i div ?b" by (rule unat_div)
  have "unat i mod ?b < ?b" using 1(2) by simp
  then have dv: "digit_value ?c = unat i mod ?b" using 1(3) by (simp add: um base_digit_value)
  show ?case
  proof (cases "?q = 0")
    case True
    then have "unat i div ?b = 0" using ud by simp
    then have "unat i mod ?b = unat i" by (metis add_0 mult_0 div_mult_mod_eq)
    with True 1(5) dv show ?thesis
      by (intro exI [of _ "[?c]"]) (simp add: to_base_loop.simps [of pos] Let_def base_value_def)
  next
    case False
    have half: "unat ?q \<le> unat i div 2" unfolding ud using 1(2) by (intro div_le_mono2) auto
    have "unat ?q \<noteq> 0" using False by (simp add: word_unat_eq_iff)
    then have two: "2 \<le> unat i" using half by linarith
    have "pos \<noteq> 1" using two 1(4) by auto
    then have "pos - 1 \<noteq> 0" using 1(5) by linarith
    moreover have "unat ?q < 2 ^ (pos - 1)"
      using half 1(4,5) by (cases pos) (auto simp: less_mult_imp_div_less)
    ultimately obtain s where s: "to_base_loop (pos - 1) ?q base (?c # acc) = Ret (s @ ?c # acc)"
      "length s \<le> pos - 1" "base_value ?b s = unat ?q"
      using 1(1) [of "?c # acc" ?q] 1(2,3,5) False by auto
    have "base_value ?b (s @ [?c]) = ?b * unat ?q + unat i mod ?b"
      using s(3) dv by (simp add: base_value_def)
    also have "\<dots> = unat i" by (simp add: ud)
    finally have "base_value ?b (s @ [?c]) = unat i" .
    with s False 1(5) show ?thesis
      by (intro exI [of _ "s @ [?c]"]) (simp add: to_base_loop.simps [of pos] Let_def)
  qed
qed

section \<open>Properties\<close>

text \<open>
  \<open>my_to_base\<close> prints every 32-bit number in every base from 2 to 36: the buffer of 33 bytes is
  always large enough and the digits denote the number; any other base fails the assertion.
\<close>

theorem my_to_base_correct:
  "my_to_base i base = Abort \<and> \<not> (2 \<le> base \<and> base \<le> 36) \<or>
   2 \<le> base \<and> base \<le> 36 \<and>
   (\<exists>s. my_to_base i base = Ret s \<and> length s \<le> 32 \<and> base_value (nat base) s = unat i)"
proof (cases "2 \<le> base \<and> base \<le> 36")
  case True
  then have b: "unat (word_of_int base :: u32) = nat base"
    by (simp add: unsigned_of_int take_bit_int_eq_self)
  have "unat i < 2 ^ LENGTH(32)" by (rule unsigned_less)
  with to_base_loop_spec [of "word_of_int base" i 32 "[]"] True b show ?thesis
    by (auto simp: my_to_base_def TO_BASE_N_def)
next
  case False
  then show ?thesis by (auto simp: my_to_base_def)
qed

end
