(* ===== verification/Gnostr.thy ===== *)
theory Gnostr
  imports Args Keys Dm
begin

unbundle bit_operations_syntax

text \<open>
  The program \<^verbatim>\<open>gnostr\<close>: \<open>make_event_from_args\<close>, \<open>try_subcommand\<close> and \<open>main\<close> of
  \<^verbatim>\<open>gnostr.c\<close>, composed of the key, direct message, mining, signing and printing operations of
  the other theories. A run ends with an exit code and the text on the standard output, with a shell
  command, with another program in place of this one, or in a crash (a failed assertion or a write
  past the end of an array). \<open>None\<close> is a run that never ends, because it mines for ever.
\<close>

section \<open>How a run ends\<close>

datatype run = RExit int cstr | RSystem cstr | RExec cstr "cstr list" | RCrash

text \<open>A stage of \<open>main\<close> either ends the program or hands its result to the next stage.\<close>

type_synonym 'a stage = "run + 'a"

section \<open>Helpers of main\<close>

definition make_event_from_args :: "sys \<Rightarrow> args \<Rightarrow> nostr_event \<Rightarrow> nostr_event" where
  "make_event_from_args os args ev =
     ev\<lparr>ev_created_at := (if has_flag args HAS_CREATED_AT then a_created_at args else time_now os),
        ev_content := a_content args,
        ev_kind := (if has_flag args HAS_KIND then a_kind args else 1)\<rparr>"

text \<open>The program \<open>execvp\<close> starts, when there is one.\<close>

definition try_subcommand :: "sys \<Rightarrow> cstr list \<Rightarrow> (cstr \<times> cstr list) option" where
  "try_subcommand os argv =
     (let sub = argv ! 1
      in if length sub \<ge> 1 \<and> sub ! 0 \<noteq> chr CHR ''-'' then
           let buf = snprintf 127 (str ''gnostr-'' @ sub)
           in if execvp os buf (tl argv) then Some (buf, tl argv) else None
         else None)"

section \<open>The stages of main\<close>

text \<open>The key lives on the stack; every field is stored before it is read.\<close>

definition stack_key :: key where
  "stack_key = \<lparr>k_pair = [], k_secret = replicate 32 0, k_pubkey = replicate 32 0\<rparr>"

definition main_key :: "secp256k1 \<Rightarrow> sys \<Rightarrow> nat \<Rightarrow> args \<Rightarrow> (key \<times> nat) stage option" where
  "main_key lib os n args =
     (case a_sec args of
        Some sec \<Rightarrow>
          (case decode_key lib sec stack_key of (ok, key) \<Rightarrow>
             Some (if \<not> ok then Inl (RExit 8 []) else Inr (key, n)))
      | None \<Rightarrow>
          let difficulty =
                (if has_flag args HAS_DIFFICULTY \<and> has_flag args HAS_MINE_PUBKEY
                 then Some (a_difficulty args) else None)
          in (case generate_key lib os n stack_key difficulty of
                None \<Rightarrow> None
              | Some (ok, key, n) \<Rightarrow> Some (if \<not> ok then Inl (RExit 4 []) else Inr (key, n))))"

definition main_dm ::
  "secp256k1 \<Rightarrow> sys \<Rightarrow> nat \<Rightarrow> args \<Rightarrow> key \<Rightarrow> nostr_event \<Rightarrow> (nostr_event \<times> nat) stage" where
  "main_dm lib os n args key ev =
     (if has_flag args HAS_ENCRYPT then
        let kind = (if has_flag args HAS_KIND then a_kind args else 4)
        in (case make_encrypted_dm lib os n key ev (a_encrypt_to args) kind of
              Abort \<Rightarrow> Inl RCrash
            | Ret (ok, ev, n) \<Rightarrow> if \<not> ok then Inl (RExit 0 []) else Inr (ev, n))
      else Inr (ev, n))"

definition main_id :: "args \<Rightarrow> nostr_event \<Rightarrow> nostr_event stage option" where
  "main_id args ev =
     (if has_flag args HAS_DIFFICULTY \<and> \<not> has_flag args HAS_MINE_PUBKEY then
        (case mine_event ev (a_difficulty args) of
           None \<Rightarrow> None
         | Some Abort \<Rightarrow> Some (Inl RCrash)
         | Some (Ret (ok, ev)) \<Rightarrow> Some (if \<not> ok then Inl (RExit 22 []) else Inr ev))
      else
        (case generate_event_id ev of
           Abort \<Rightarrow> Some (Inl RCrash)
         | Ret (ok, ev) \<Rightarrow> Some (if \<not> ok then Inl (RExit 5 []) else Inr ev)))"

definition main_publish :: "secp256k1 \<Rightarrow> sys \<Rightarrow> nat \<Rightarrow> args \<Rightarrow> key \<Rightarrow> nostr_event \<Rightarrow> run" where
  "main_publish lib os n args key ev =
     (case sign_event lib os n key ev of (ok, ev, n) \<Rightarrow>
        if \<not> ok then RExit 6 []
        else (case print_event ev (has_flag args HAS_ENVELOPE) of
                Abort \<Rightarrow> RCrash
              | Ret (ok, out) \<Rightarrow> if \<not> ok then RExit 88 out else RExit 0 out))"

definition main_event :: "secp256k1 \<Rightarrow> sys \<Rightarrow> nat \<Rightarrow> args \<Rightarrow> nostr_event \<Rightarrow> run option" where
  "main_event lib os n args ev =
     (case main_key lib os n args of
        None \<Rightarrow> None
      | Some (Inl r) \<Rightarrow> Some r
      | Some (Inr (key, n)) \<Rightarrow>
          (case main_dm lib os n args key ev of
             Inl r \<Rightarrow> Some r
           | Inr (ev, n) \<Rightarrow>
               (case main_id args (ev\<lparr>ev_pubkey := k_pubkey key\<rparr>) of
                  None \<Rightarrow> None
                | Some (Inl r) \<Rightarrow> Some r
                | Some (Inr ev) \<Rightarrow> Some (main_publish lib os n args key ev))))"

text \<open>
  \<open>usage\<close> ends the program with code 0, so the \<^verbatim>\<open>return 10\<close> after a failed parse is dead code.
\<close>

definition gnostr_main :: "secp256k1 \<Rightarrow> sys \<Rightarrow> cstr list \<Rightarrow> run option" where
  "gnostr_main lib os argv =
     (if length argv < 2 then Some (RExit 0 usage)
      else (case init_secp_context lib os 0 of (ok, n) \<Rightarrow>
        if \<not> ok then Some (RExit 2 [])
        else (case try_subcommand os argv of
                Some (prog, av) \<Rightarrow> Some (RExec prog av)
              | None \<Rightarrow>
                  (case parse_args argv (errno0 os) of
                     PPrint out \<Rightarrow> Some (RExit 0 out)
                   | PSystem cmd \<Rightarrow> Some (RSystem cmd)
                   | PCrash \<Rightarrow> Some RCrash
                   | PFail \<Rightarrow> Some (RExit 0 usage)
                   | POk (args, ev) \<Rightarrow>
                       let ev = (if a_tags args \<noteq> None then ev\<lparr>ev_explicit_tags := a_tags args\<rparr> else ev)
                       in main_event lib os n args (make_event_from_args os args ev)))))"

section \<open>What each stage delivers\<close>

lemma main_key_ok:
  assumes "main_key lib os n args = Some (Inr (key, n'))"
  shows "key_ok lib key \<and> (\<forall>sec. a_sec args = Some sec \<longrightarrow> hex_decode sec 32 = (True, k_secret key)) \<and>
         (a_sec args = None \<and> has_flag args HAS_DIFFICULTY \<and> has_flag args HAS_MINE_PUBKEY \<longrightarrow>
            sint (a_difficulty args) \<le> count_leading_zero_bits (k_pubkey key))"
proof (cases "a_sec args")
  case None
  with assms show ?thesis
    by (fastforce simp: main_key_def Let_def dest: generate_key_ok split: option.splits if_splits)
next
  case (Some sec)
  then have "decode_key lib sec stack_key = (True, key)"
    using assms by (auto simp: main_key_def split: prod.splits if_splits)
  with Some show ?thesis using decode_key_ok [of lib sec stack_key key] by (simp add: stack_key_def)
qed

lemma main_key_exit: "main_key lib os n args = Some (Inl r) \<Longrightarrow> r = RExit 8 [] \<or> r = RExit 4 []"
  by (auto simp: main_key_def Let_def split: option.splits if_splits prod.splits)

lemma nostr_add_tag_True:
  "nostr_add_tag ev a b = (True, ev') \<longleftrightarrow>
   length (ev_tags ev) < MAX_TAGS \<and> ev' = ev\<lparr>ev_tags := ev_tags ev @ [[a, b]]\<rparr>"
  by (auto simp: nostr_add_tag_def nostr_add_tag_n_def)

lemma seq_ok_TrueE:
  assumes "seq_ok x r f = Ret (True, z)"
  obtains s where "f s = Ret (True, z)"
  using assms by (cases x) (auto simp: seq_ok_def split: if_splits prod.splits)

lemma bind_RetE:
  assumes "bind_outcome x f = Ret r"
  obtains y where "x = Ret y" and "f y = Ret r"
  using assms by (cases x) auto

lemma dm_text_event:
  assumes "dm_text enc iv buflen ev pk kind = Ret (True, ev')"
  shows "\<exists>c t. ev' = ev\<lparr>ev_content := Some c, ev_kind := kind, ev_tags := ev_tags ev @ [[str ''p'', t]]\<rparr> \<and>
               length (ev_tags ev) < MAX_TAGS"
proof -
  obtain c t where "nostr_add_tag (ev\<lparr>ev_content := Some c, ev_kind := kind\<rparr>) (str ''p'') t = (True, ev')"
    using assms unfolding dm_text_def
    by (elim seq_ok_TrueE, clarsimp elim!: bind_RetE split: option.splits prod.splits simp: Let_def)
  then show ?thesis by (auto simp: nostr_add_tag_True)
qed

lemma make_encrypted_dm_event:
  assumes "make_encrypted_dm lib os n key ev pk kind = Ret (True, ev', n')"
  shows "\<exists>c t. ev' = ev\<lparr>ev_content := Some c, ev_kind := kind, ev_tags := ev_tags ev @ [[str ''p'', t]]\<rparr> \<and>
               length (ev_tags ev) < MAX_TAGS"
proof -
  from assms obtain enc iv buflen where "dm_text enc iv buflen ev pk kind = Ret (True, ev')"
    by (auto simp: make_encrypted_dm_def Let_def elim!: bind_RetE split: option.splits if_splits prod.splits)
  then show ?thesis by (rule dm_text_event)
qed

lemma main_dm_ok:
  assumes "main_dm lib os n args key ev = Inr (ev', n')" and "event_wf ev" and "ev_content ev \<noteq> None"
  shows "event_wf ev' \<and> ev_content ev' \<noteq> None \<and> ev_created_at ev' = ev_created_at ev \<and>
         ev_explicit_tags ev' = ev_explicit_tags ev \<and>
         (\<not> has_flag args HAS_ENCRYPT \<longrightarrow> ev' = ev) \<and>
         (has_flag args HAS_ENCRYPT \<longrightarrow>
            (\<exists>t. ev_tags ev' = ev_tags ev @ [[str ''p'', t]]) \<and>
            ev_kind ev' = (if has_flag args HAS_KIND then a_kind args else 4))"
proof (cases "has_flag args HAS_ENCRYPT")
  case True
  with assms(1) have "make_encrypted_dm lib os n key ev (a_encrypt_to args)
      (if has_flag args HAS_KIND then a_kind args else 4) = Ret (True, ev', n')"
    by (auto simp: main_dm_def Let_def split: outcome.splits prod.splits if_splits)
  from make_encrypted_dm_event [OF this] True assms(2) show ?thesis
    by (auto simp: event_wf_def MAX_TAG_ELEMS_def)
next
  case False
  with assms show ?thesis by (simp add: main_dm_def)
qed

text \<open>With a recipient from the command line, the message is sealed for it and tagged with its key.\<close>

lemma main_dm_sealed:
  assumes "main_dm lib os n args key ev = Inr (ev', n')" and "ev_content ev = Some c"
    and "length (a_encrypt_to args) = 32" and "has_flag args HAS_ENCRYPT"
  shows "\<exists>c'. ev_content ev' = Some c' \<and> dm_sealed lib (k_secret key) (a_encrypt_to args) c c' \<and>
             ev_tags ev' = ev_tags ev @ [[str ''p'', hex_text (a_encrypt_to args)]]"
proof -
  from assms(1,4) have "make_encrypted_dm lib os n key ev (a_encrypt_to args)
      (if has_flag args HAS_KIND then a_kind args else 4) = Ret (True, ev', n')"
    by (auto simp: main_dm_def Let_def split: outcome.splits prod.splits if_splits)
  from make_encrypted_dm_sealed [OF this assms(2,3)] show ?thesis by auto
qed

lemma main_dm_exit: "main_dm lib os n args key ev = Inl r \<Longrightarrow> r = RExit 0 [] \<or> r = RCrash"
  by (auto simp: main_dm_def Let_def split: outcome.splits prod.splits if_splits)

lemma with_nonce_fields [simp]:
  "ev_pubkey (with_nonce ev d n) = ev_pubkey ev" "ev_content (with_nonce ev d n) = ev_content ev"
  "ev_created_at (with_nonce ev d n) = ev_created_at ev" "ev_kind (with_nonce ev d n) = ev_kind ev"
  "ev_explicit_tags (with_nonce ev d n) = ev_explicit_tags ev" "ev_sig (with_nonce ev d n) = ev_sig ev"
  "ev_tags (with_nonce ev d n) = ev_tags ev @ [nonce_tag n d]"
  by (simp_all add: with_nonce_def)

lemma mine_event_wf:
  assumes "event_wf ev" and "ev_content ev = Some c" and "mine_event ev d = Some (Ret (True, ev'))"
  shows "\<exists>k. ev' = (with_nonce ev d k)\<lparr>ev_id := fips_sha256 (commitment_text ev')\<rparr> \<and> event_wf ev' \<and>
             length (commitment_text ev') < 102400 \<and> sint d \<le> count_leading_zero_bits (ev_id ev')"
proof -
  note found = mine_event_True [OF assms(3)]
  from assms(1) have pk: "length (ev_pubkey ev) = 32" by (simp add: event_wf_def)
  have "mine_outcome (length (ev_tags ev)) d (nonce_added ev d) (Ret (True, ev'))"
    using assms(3) found
    by (intro mine_loop_result [OF _ mineable_added [OF pk assms(2)]]) (simp add: mine_event_loop)
  then obtain k where k: "mine_hit (length (ev_tags ev)) d k (nonce_added ev d)"
    "mine_fits (length (ev_tags ev)) k (nonce_added ev d)"
    "ev' = (with_nonce ev d k)\<lparr>ev_id := mined_id (length (ev_tags ev)) k (nonce_added ev d)\<rparr>"
    by (auto simp: mine_outcome_def set_nonce_added)
  have "length (fips_sha256 x) = 32" for x by simp
  with k found assms(1) show ?thesis
    by (intro exI [of _ k]) (auto simp: mine_views event_wf_def nonce_tag_def MAX_TAG_ELEMS_def)
qed

definition mines_id :: "args \<Rightarrow> bool" where
  "mines_id args \<longleftrightarrow> has_flag args HAS_DIFFICULTY \<and> \<not> has_flag args HAS_MINE_PUBKEY"

lemma main_id_ok:
  assumes "main_id args ev = Some (Inr ev')" and "event_wf ev" and "ev_content ev = Some c"
  shows "event_wf ev' \<and> ev_id ev' = fips_sha256 (commitment_text ev') \<and> length (commitment_text ev') < 102400 \<and>
         ev_pubkey ev' = ev_pubkey ev \<and> ev_content ev' = ev_content ev \<and>
         ev_created_at ev' = ev_created_at ev \<and> ev_kind ev' = ev_kind ev \<and>
         ev_explicit_tags ev' = ev_explicit_tags ev \<and>
         (mines_id args \<longrightarrow> sint (a_difficulty args) \<le> count_leading_zero_bits (ev_id ev') \<and>
            (\<exists>k. ev_tags ev' = ev_tags ev @ [nonce_tag k (a_difficulty args)])) \<and>
         (\<not> mines_id args \<longrightarrow> ev_tags ev' = ev_tags ev)"
proof (cases "mines_id args")
  case True
  then have "mine_event ev (a_difficulty args) = Some (Ret (True, ev'))"
    using assms(1) by (auto simp: main_id_def mines_id_def split: option.splits outcome.splits if_splits)
  from mine_event_wf [OF assms(2,3) this] obtain k where
    k: "ev' = (with_nonce ev (a_difficulty args) k)\<lparr>ev_id := fips_sha256 (commitment_text ev')\<rparr>" "event_wf ev'"
      "length (commitment_text ev') < 102400" "sint (a_difficulty args) \<le> count_leading_zero_bits (ev_id ev')"
    by blast
  have "ev_pubkey ev' = ev_pubkey ev" "ev_content ev' = ev_content ev" "ev_created_at ev' = ev_created_at ev"
    "ev_kind ev' = ev_kind ev" "ev_explicit_tags ev' = ev_explicit_tags ev"
    "ev_id ev' = fips_sha256 (commitment_text ev')"
    "ev_tags ev' = ev_tags ev @ [nonce_tag k (a_difficulty args)]"
    by (subst k(1), simp)+
  with k True show ?thesis by blast
next
  case False
  with assms generate_event_id_spec [of ev c] show ?thesis
    by (auto simp: main_id_def mines_id_def event_wf_def split: if_splits)
qed

lemma main_id_stops:
  assumes "main_id args ev = Some (Inl r)" and "event_wf ev" and "ev_content ev = Some c"
  shows "r = RExit 22 [] \<or> r = RExit 5 [] \<or>
         r = RCrash \<and> mines_id args \<and> (\<exists>v. [str ''nonce'', v] \<in> set (ev_tags ev))"
proof (cases "mine_event ev (a_difficulty args) = Some Abort \<and> mines_id args")
  case True
  have "find_nonce_tag (ev_tags ev) 0 \<noteq> None"
  proof
    assume none: "find_nonce_tag (ev_tags ev) 0 = None"
    have "length (ev_tags ev) < MAX_TAGS"
      using True none by (auto simp: mine_event_def ensure_nonce_tag_def nostr_add_tag_n_def Let_def
          split: if_splits)
    then have "mine_loop (length (ev_tags ev)) (a_difficulty args) 0 (nonce_added ev (a_difficulty args)) = Some Abort"
      using True none by (simp add: mine_event_loop)
    moreover have "mineable (length (ev_tags ev)) (nonce_added ev (a_difficulty args))"
      using assms(2,3) by (intro mineable_added) (simp_all add: event_wf_def)
    ultimately show False using mine_loop_result by (fastforce simp: mine_outcome_def)
  qed
  then obtain t where t: "t \<in> set (ev_tags ev)" "length t = 2" "t ! 0 = str ''nonce''"
    unfolding find_nonce_tag_None by blast
  then have "t = [str ''nonce'', t ! 1]" by (auto simp: length_Suc_conv numeral_2_eq_2)
  with t(1) have "[str ''nonce'', t ! 1] \<in> set (ev_tags ev)" by metis
  with True assms(1) show ?thesis by (auto simp: main_id_def mines_id_def)
next
  case False
  with assms generate_event_id_spec [of ev c] show ?thesis
    by (auto simp: main_id_def mines_id_def event_wf_def split: option.splits outcome.splits if_splits)
qed

lemma event_wf_sig: "event_wf ev \<Longrightarrow> length sig = 64 \<Longrightarrow> event_wf (ev\<lparr>ev_sig := sig\<rparr>)"
  by (simp add: event_wf_def)

lemma commitment_text_sig [simp]: "commitment_text (ev\<lparr>ev_sig := s\<rparr>) = commitment_text ev"
  by (simp add: commitment_text_def commitment_head_def)

lemma main_publish_spec:
  assumes "secp_laws lib verify" and "key_ok lib key" and "event_wf ev" and "ev_content ev = Some c"
    and "length (commitment_text ev) < 102400"
  shows "main_publish lib os n args key ev = RExit 6 [] \<or>
         (\<exists>sig. main_publish lib os n args key ev
                   = RExit 0 (event_text (ev\<lparr>ev_sig := sig\<rparr>) (has_flag args HAS_ENVELOPE)) \<and>
                event_wf (ev\<lparr>ev_sig := sig\<rparr>) \<and> verify sig (ev_id ev) (k_pubkey key))"
proof (cases "fst (sign_event lib os n key ev)")
  case True
  then obtain ev' n' where sgn: "sign_event lib os n key ev = (True, ev', n')"
    by (cases "sign_event lib os n key ev") auto
  note v = sign_event_verifies [OF assms(1,2) sgn]
  define sig where "sig = ev_sig ev'"
  with v have ev': "ev' = ev\<lparr>ev_sig := sig\<rparr>" "length sig = 64" by simp_all
  have "event_wf ev'" "ev_content ev' = Some c" "length (commitment_text ev') < 102400"
    using ev' assms(3,4,5) event_wf_sig by simp_all
  with tags_and_content_fit [OF this(3,2)]
  have "print_event ev' (has_flag args HAS_ENVELOPE) = Ret (True, event_text ev' (has_flag args HAS_ENVELOPE))"
    by (intro print_event_spec) auto
  with sgn have "main_publish lib os n args key ev = RExit 0 (event_text ev' (has_flag args HAS_ENVELOPE))"
    by (simp add: main_publish_def)
  then show ?thesis using v ev' \<open>event_wf ev'\<close> by (intro disjI2 exI [of _ sig]) simp
next
  case False
  then show ?thesis by (auto simp: main_publish_def split: prod.splits)
qed

section \<open>What a run delivers\<close>

text \<open>
  A published event is valid when a relay accepts it: its id is the hash of its commitment and its
  signature of the id verifies under its public key.
\<close>

definition event_valid :: "(bytes \<Rightarrow> bytes \<Rightarrow> bytes \<Rightarrow> bool) \<Rightarrow> nostr_event \<Rightarrow> bool" where
  "event_valid verify ev \<longleftrightarrow>
     event_wf ev \<and> ev_id ev = fips_sha256 (commitment_text ev) \<and>
     verify (ev_sig ev) (ev_id ev) (ev_pubkey ev)"

text \<open>
  What the options ask for; \<open>ts\<close> are the tags given on the command line. The public key belongs to a
  key pair of the library, to the one of the given secret with \<open>--sec\<close>. The content is the given one,
  with \<open>--dm\<close> sealed under the secret that this key shares with the recipient, whose key is then the
  tag after the given ones. \<open>--pow\<close> asks for leading zero bits in the id, and together with
  \<open>--mine-pubkey\<close> for leading zero bits in a generated public key; with \<open>--sec\<close> as well it asks for nothing,
  since the key is given and \<open>--mine-pubkey\<close> switches the mining of the id off
  (\<open>sec_mine_pubkey_no_pow\<close> below).
\<close>

definition event_requested :: "secp256k1 \<Rightarrow> sys \<Rightarrow> args \<Rightarrow> nostr_tag list \<Rightarrow> nostr_event \<Rightarrow> bool" where
  "event_requested lib os args ts ev \<longleftrightarrow>
     ev_created_at ev = (if has_flag args HAS_CREATED_AT then a_created_at args else time_now os) \<and>
     ev_kind ev = (if has_flag args HAS_KIND then a_kind args
                   else if has_flag args HAS_ENCRYPT then 4 else 1) \<and>
     ev_explicit_tags ev = a_tags args \<and>
     (\<exists>key. key_ok lib key \<and> k_pubkey key = ev_pubkey ev \<and>
        (\<forall>sec. a_sec args = Some sec \<longrightarrow> hex_decode sec 32 = (True, k_secret key)) \<and>
        (if has_flag args HAS_ENCRYPT
         then \<exists>c c'. a_content args = Some c \<and> ev_content ev = Some c' \<and>
                dm_sealed lib (k_secret key) (a_encrypt_to args) c c'
         else ev_content ev = a_content args)) \<and>
     (\<exists>nonce. ev_tags ev = ts @ (if has_flag args HAS_ENCRYPT then [[str ''p'', hex_text (a_encrypt_to args)]] else []) @ nonce \<and>
        (if mines_id args then \<exists>k. nonce = [nonce_tag k (a_difficulty args)] else nonce = [])) \<and>
     (mines_id args \<longrightarrow> sint (a_difficulty args) \<le> count_leading_zero_bits (ev_id ev)) \<and>
     (a_sec args = None \<and> has_flag args HAS_DIFFICULTY \<and> has_flag args HAS_MINE_PUBKEY \<longrightarrow>
        sint (a_difficulty args) \<le> count_leading_zero_bits (ev_pubkey ev))"

text \<open>With \<open>--sec\<close> and \<open>--mine-pubkey\<close> the difficulty of \<open>--pow\<close> has no effect on a run.\<close>

lemma sec_mine_pubkey_no_pow:
  assumes "a_sec args = Some sec" and "has_flag args HAS_MINE_PUBKEY"
  shows "main_event lib os n (args\<lparr>a_difficulty := d\<rparr>) ev = main_event lib os n args ev"
proof -
  have f: "has_flag (args\<lparr>a_difficulty := d\<rparr>) f = has_flag args f" for f by (simp add: has_flag_def)
  have "main_key lib os n (args\<lparr>a_difficulty := d\<rparr>) = main_key lib os n args"
    using assms(1) by (simp add: main_key_def)
  moreover have "main_dm lib os n (args\<lparr>a_difficulty := d\<rparr>) = main_dm lib os n args" for n
    by (intro ext) (simp add: main_dm_def f)
  moreover have "main_id (args\<lparr>a_difficulty := d\<rparr>) = main_id args"
    using assms(2) by (intro ext) (simp add: main_id_def f)
  moreover have "main_publish lib os n (args\<lparr>a_difficulty := d\<rparr>) = main_publish lib os n args" for n
    by (intro ext) (simp only: main_publish_def f)
  ultimately show ?thesis unfolding main_event_def by presburger
qed

definition start_event :: "sys \<Rightarrow> args \<Rightarrow> nostr_event \<Rightarrow> nostr_event" where
  "start_event os args ev =
     make_event_from_args os args (if a_tags args \<noteq> None then ev\<lparr>ev_explicit_tags := a_tags args\<rparr> else ev)"

text \<open>What \<open>main\<close> may rely on after parsing.\<close>

definition args_ready :: "args \<Rightarrow> nostr_event \<Rightarrow> bool" where
  "args_ready args ev \<longleftrightarrow>
     event_wf ev \<and> ev_explicit_tags ev = None \<and> a_content args \<noteq> None \<and> length (a_encrypt_to args) = 32"

lemma parse_args_ready: "parse_args argv e = POk (args, ev) \<Longrightarrow> args_ready args ev"
  using parse_args_inv [of argv e args ev]
  by (auto simp: args_ready_def event_wf_def zero_event_def MAX_TAG_ELEMS_def list_all_iff)

lemma start_event_fields:
  assumes "args_ready args ev"
  shows "event_wf (start_event os args ev)" "ev_content (start_event os args ev) = a_content args"
    "ev_content (start_event os args ev) \<noteq> None"
    "ev_tags (start_event os args ev) = ev_tags ev" "ev_explicit_tags (start_event os args ev) = a_tags args"
    "ev_created_at (start_event os args ev) = (if has_flag args HAS_CREATED_AT then a_created_at args else time_now os)"
    "ev_kind (start_event os args ev) = (if has_flag args HAS_KIND then a_kind args else 1)"
  using assms by (auto simp: start_event_def make_event_from_args_def event_wf_def args_ready_def)

lemma parse_loop_prints: "parse_loop argv st = PPrint out \<Longrightarrow> out \<in> {usage, version, about}"
proof (induction argv st rule: parse_loop.induct)
  case (1 argv st)
  from 1(2) show ?case
    unfolding parse_loop.simps [of argv st]
    by (auto simp: openssl_hash_def intro: 1(1) dest: 1(1)
        split: list.splits if_splits option.splits prod.splits)
qed

lemma parse_args_prints: "parse_args argv e = PPrint out \<Longrightarrow> out \<in> {usage, version, about}"
  unfolding parse_args_def Let_def by (auto dest: parse_loop_prints split: parse_result.splits)

lemma main_event_stages:
  assumes "main_event lib os n args ev0 = Some r"
  obtains (key) "main_key lib os n args = Some (Inl r)"
  | (dm) key n' where "main_key lib os n args = Some (Inr (key, n'))" "main_dm lib os n' args key ev0 = Inl r"
  | (mine) key n' ev n'' where "main_key lib os n args = Some (Inr (key, n'))"
      "main_dm lib os n' args key ev0 = Inr (ev, n'')" "main_id args (ev\<lparr>ev_pubkey := k_pubkey key\<rparr>) = Some (Inl r)"
  | (publish) key n' ev n'' ev' where "main_key lib os n args = Some (Inr (key, n'))"
      "main_dm lib os n' args key ev0 = Inr (ev, n'')" "main_id args (ev\<lparr>ev_pubkey := k_pubkey key\<rparr>) = Some (Inr ev')"
      "r = main_publish lib os n'' args key ev'"
  using assms by (auto simp: main_event_def split: option.splits sum.splits)

lemma main_event_ready:
  assumes "secp_laws lib verify" and "args_ready args ev0"
    and "main_key lib os n args = Some (Inr (key, n'))"
    and "main_dm lib os n' args key (start_event os args ev0) = Inr (ev, n'')"
  shows "event_wf (ev\<lparr>ev_pubkey := k_pubkey key\<rparr>) \<and> (\<exists>c. ev_content (ev\<lparr>ev_pubkey := k_pubkey key\<rparr>) = Some c)"
proof -
  note dm = main_dm_ok [OF assms(4) start_event_fields(1,3) [OF assms(2)]]
  have "length (k_pubkey key) = 32"
    using main_key_ok [OF assms(3)] assms(1) by (auto simp: key_ok_def secp_laws_def)
  with dm show ?thesis by (auto simp: event_wf_def)
qed

lemma main_event_cases:
  assumes laws: "secp_laws lib verify" and p: "args_ready args ev0"
    and r: "main_event lib os n args (start_event os args ev0) = Some r"
  shows "(\<exists>code \<in> {0, 4, 5, 6, 8, 22}. r = RExit code []) \<or> r = RCrash \<or>
         (\<exists>ev. r = RExit 0 (event_text ev (has_flag args HAS_ENVELOPE)) \<and> event_valid verify ev \<and>
               event_requested lib os args (ev_tags ev0) ev)"
  using r
proof (cases rule: main_event_stages)
  case key
  from main_key_exit [OF this] show ?thesis by auto
next
  case (dm key n')
  from main_dm_exit [OF dm(2)] show ?thesis by auto
next
  case (mine key n' ev n'')
  with main_event_ready [OF laws p mine(1,2)] main_id_stops [OF mine(3)] show ?thesis by fastforce
next
  case (publish key n' ev n'' ev')
  note st = start_event_fields [OF p, of os]
  note key = main_key_ok [OF publish(1)] and dm = main_dm_ok [OF publish(2) st(1,3)]
  from main_event_ready [OF laws p publish(1,2)] obtain c where
    wf: "event_wf (ev\<lparr>ev_pubkey := k_pubkey key\<rparr>)" and c: "ev_content (ev\<lparr>ev_pubkey := k_pubkey key\<rparr>) = Some c"
    by blast
  note id = main_id_ok [OF publish(3) wf c]
  have c': "ev_content ev' = Some c" using id c by simp
  from main_publish_spec [OF laws _ _ c', of key os n'' args] key id publish(4)
  consider "r = RExit 6 []" | sig where "r = RExit 0 (event_text (ev'\<lparr>ev_sig := sig\<rparr>) (has_flag args HAS_ENVELOPE))"
    "event_wf (ev'\<lparr>ev_sig := sig\<rparr>)" "verify sig (ev_id ev') (k_pubkey key)" by blast
  then show ?thesis
  proof cases
    case 2
    have valid: "event_valid verify (ev'\<lparr>ev_sig := sig\<rparr>)"
      using 2 id by (simp add: event_valid_def)
    obtain msg where msg: "a_content args = Some msg" using st(2,3) by auto
    have to: "length (a_encrypt_to args) = 32" using p by (simp add: args_ready_def)
    note sealed = main_dm_sealed [OF publish(2) _ to, unfolded st(2), OF msg]
    have content: "if has_flag args HAS_ENCRYPT
         then \<exists>c c'. a_content args = Some c \<and> ev_content (ev'\<lparr>ev_sig := sig\<rparr>) = Some c' \<and>
                dm_sealed lib (k_secret key) (a_encrypt_to args) c c'
         else ev_content (ev'\<lparr>ev_sig := sig\<rparr>) = a_content args"
      using sealed msg id dm st(2) by auto
    have ts: "ev_tags ev = ev_tags ev0 @
        (if has_flag args HAS_ENCRYPT then [[str ''p'', hex_text (a_encrypt_to args)]] else [])"
      using sealed dm st(4) by auto
    obtain nonce where nonce: "ev_tags ev' = ev_tags ev @ nonce"
      "if mines_id args then \<exists>k. nonce = [nonce_tag k (a_difficulty args)] else nonce = []"
      using id by (cases "mines_id args") auto
    have tags: "\<exists>nonce. ev_tags (ev'\<lparr>ev_sig := sig\<rparr>) = ev_tags ev0 @
          (if has_flag args HAS_ENCRYPT then [[str ''p'', hex_text (a_encrypt_to args)]] else []) @ nonce \<and>
        (if mines_id args then \<exists>k. nonce = [nonce_tag k (a_difficulty args)] else nonce = [])"
      by (rule exI [of _ nonce]) (simp add: ts nonce)
    have owner: "k_pubkey key = ev_pubkey (ev'\<lparr>ev_sig := sig\<rparr>)" using id by simp
    have "event_requested lib os args (ev_tags ev0) (ev'\<lparr>ev_sig := sig\<rparr>)"
      unfolding event_requested_def
      by (intro conjI tags exI [of _ key] content owner) (use dm id key st(5,6,7) in auto)
    with valid show ?thesis using 2(1) by blast
  qed auto
qed

text \<open>The parser crashes only at a long argument of \<open>--hash\<close>.\<close>

lemma parse_option_suffix: "parse_option arg v rest st = Some (st', r) \<Longrightarrow> \<exists>pre. arg # v # rest = pre @ r \<and> pre \<noteq> []"
  by (auto simp: parse_option_def Let_def split: if_splits prod.splits list.splits
      intro: exI [of _ "[arg]"] exI [of _ "[arg, v]"] exI [of _ "arg # v # [hd rest]"])

lemma parse_loop_crash:
  assumes "parse_loop argv st = PCrash"
  shows "\<exists>pre h post. argv = pre @ str ''--hash'' # h # post \<and> 70 < length h"
  using assms
proof (induction argv st rule: parse_loop.induct)
  case (1 argv st)
  from 1(2) consider h post where "argv = str ''--hash'' # h # post" "70 < length h"
    | arg v rest st' r where "argv = arg # v # rest" "parse_option arg v rest st = Some (st', r)" "parse_loop r st' = PCrash"
      "arg \<notin> {str ''--help'', str ''-h'', str ''--version'', str ''-v'', str ''--about'', str ''-a'', str ''--hash''}"
    unfolding parse_loop.simps [of argv st]
    by (auto simp: openssl_hash_def hash_command_def hash_pipe_def bytes_simps
        split: list.splits if_splits option.splits prod.splits)
  then show ?case
  proof cases
    case 1
    then show ?thesis by (metis append_Nil)
  next
    case (2 arg v rest st' r)
    with 1(1) obtain pre h post where "r = pre @ str ''--hash'' # h # post" "70 < length h" by blast
    moreover obtain pre' where "argv = pre' @ r" using parse_option_suffix [OF 2(2)] 2(1) by blast
    ultimately show ?thesis by (intro exI [of _ "pre' @ pre"] exI [of _ h] exI [of _ post]) simp
  qed
qed

lemma parse_args_crash:
  assumes "parse_args argv e = PCrash"
  shows "\<exists>pre h post. argv = pre @ str ''--hash'' # h # post \<and> 70 < length h"
proof -
  have "\<exists>st. parse_loop (tl argv) st = PCrash"
    using assms unfolding parse_args_def Let_def by (auto split: parse_result.splits)
  then obtain pre h post where "tl argv = pre @ str ''--hash'' # h # post" "70 < length h"
    using parse_loop_crash by blast
  then show ?thesis by (cases argv) (auto intro: exI [of _ "_ # pre"])
qed

lemma gnostr_main_event:
  assumes "gnostr_main lib os argv = Some r"
  shows "(\<exists>out \<in> {usage, version, about}. r = RExit 0 out) \<or> r = RExit 2 [] \<or> (\<exists>cmd. r = RSystem cmd) \<or>
         (\<exists>prog av. try_subcommand os argv = Some (prog, av) \<and> r = RExec prog av) \<or>
         parse_args argv (errno0 os) = PCrash \<and> r = RCrash \<or>
         (\<exists>n args ev0. parse_args argv (errno0 os) = POk (args, ev0) \<and>
            main_event lib os n args (start_event os args ev0) = Some r)"
  using assms parse_args_prints [of argv "errno0 os"]
  unfolding gnostr_main_def Let_def start_event_def [symmetric]
  by (auto split: if_splits prod.splits option.splits parse_result.splits)

section \<open>A plain note\<close>

definition note_event :: "sys \<Rightarrow> cstr \<Rightarrow> bytes \<Rightarrow> nostr_event" where
  "note_event os c pk = zero_event\<lparr>ev_created_at := time_now os, ev_content := Some c, ev_kind := 1, ev_pubkey := pk\<rparr>"

lemma parse_note:
  "parse_args [prog, str ''--sec'', s, str ''--content'', c] e
     = POk (zero_args\<lparr>a_sec := Some s, a_content := Some c\<rparr>, zero_event)"
  by (simp add: parse_args_def parse_loop.simps parse_option_def Let_def str_def)

lemma note_commitment_length:
  assumes "length pk = 32"
  shows "length (commitment_text (note_event os c pk)) \<le> 2 * length c + 104"
proof -
  have "length (dec_s 1) = 1" by (simp add: dec_s_def dec_u.simps)
  then show ?thesis using json_text_length [of c] assms
    by (simp add: note_event_def commitment_text_def commitment_head_def tags_text_def list_text_def
        zero_event_def snprintf_def bytes_simps)
qed

lemma note_event_wf: "length pk = 32 \<Longrightarrow> event_wf (note_event os c pk)"
  by (simp add: note_event_def event_wf_def zero_event_def)

lemma zero_args_flags [simp]: "\<not> has_flag zero_args f"
  by (simp add: has_flag_def zero_args_def)

abbreviation note_args :: "cstr \<Rightarrow> cstr \<Rightarrow> args" where
  "note_args s c \<equiv> zero_args\<lparr>a_sec := Some s, a_content := Some c\<rparr>"

definition note_signed :: "sys \<Rightarrow> cstr \<Rightarrow> bytes \<Rightarrow> bytes \<Rightarrow> nostr_event" where
  "note_signed os c pk sig =
     (note_event os c pk)\<lparr>ev_id := fips_sha256 (commitment_text (note_event os c pk)), ev_sig := sig\<rparr>"

text \<open>The stages after parsing, for a note, with the envelope or without it.\<close>

definition plain_note :: "args \<Rightarrow> cstr \<Rightarrow> cstr \<Rightarrow> bool" where
  "plain_note args s c \<longleftrightarrow>
     a_sec args = Some s \<and> a_content args = Some c \<and> a_tags args = None \<and>
     \<not> has_flag args HAS_DIFFICULTY \<and> \<not> has_flag args HAS_ENCRYPT \<and>
     \<not> has_flag args HAS_KIND \<and> \<not> has_flag args HAS_CREATED_AT"

lemma plain_note_args: "plain_note (note_args s c) s c" "\<not> has_flag (note_args s c) f"
  by (simp_all add: plain_note_def) (simp_all add: zero_args_def has_flag_def)

lemma note_stages:
  assumes "secp_laws lib verify"
    and rnd: "\<And>n. \<exists>r. getrandom os n 32 = Some r \<and> length r = 32"
    and sec: "hex_decode s 32 = (True, secret)" and pair: "keypair_create lib secret = Some pair"
    and pub: "keypair_xonly_pub lib pair = Some x" "xonly_pubkey_serialize lib x = Some pk"
    and sgn: "\<And>msg aux. \<exists>sig. schnorrsig_sign32 lib msg pair aux = Some sig"
    and "length c \<le> 51000" and plain: "plain_note args s c"
  defines "key \<equiv> \<lparr>k_pair = pair, k_secret = secret, k_pubkey = pk\<rparr>"
    and "ev \<equiv> (note_event os c pk)\<lparr>ev_id := fips_sha256 (commitment_text (note_event os c pk))\<rparr>"
  shows "main_key lib os n args = Some (Inr (key, n))" "key_ok lib key"
    "main_id args ((start_event os args zero_event)\<lparr>ev_pubkey := pk\<rparr>) = Some (Inr ev)"
    "main_event lib os n args (start_event os args zero_event) = Some (main_publish lib os n args key ev)"
    "main_publish lib os n args key ev \<noteq> RExit 6 []" "event_wf ev" "ev_content ev = Some c"
    "length (commitment_text ev) < 102400"
proof -
  let ?ev = "note_event os c pk"
  have len: "length pk = 32" "length secret = 32"
    using assms(1) pub hex_decode_32 [OF sec] by (auto simp: secp_laws_def)
  have fit: "length (commitment_text ?ev) < 102400"
    using note_commitment_length [OF len(1), of os c] assms(8) by simp
  show main_key: "main_key lib os n args = Some (Inr (key, n))"
    using sec pair pub len plain
    by (simp add: key_def plain_note_def main_key_def decode_key_def stack_key_def create_key_def Let_def)
  show "key_ok lib key" using pair pub by (simp add: key_def key_ok_def)
  have start: "(start_event os args zero_event)\<lparr>ev_pubkey := pk\<rparr> = ?ev"
    using plain by (simp add: plain_note_def start_event_def make_event_from_args_def note_event_def zero_event_def)
  show mid: "main_id args ((start_event os args zero_event)\<lparr>ev_pubkey := pk\<rparr>) = Some (Inr ev)"
    using generate_event_id_spec [of ?ev c] fit len plain unfolding start
    by (simp add: main_id_def plain_note_def ev_def) (simp add: note_event_def)
  show "main_event lib os n args (start_event os args zero_event) = Some (main_publish lib os n args key ev)"
    using plain main_key mid by (simp add: plain_note_def main_event_def main_dm_def key_def)
  have "\<exists>ev' n'. sign_event lib os n key ev = (True, ev', n')"
  proof -
    obtain aux where "getrandom os n 32 = Some aux" "length aux = 32" using rnd [of n] by blast
    moreover obtain sig where "schnorrsig_sign32 lib (ev_id ev) pair aux = Some sig" using sgn [of "ev_id ev" aux] by blast
    ultimately show ?thesis by (simp add: sign_event_def make_sig_def fill_random_def key_def)
  qed
  then show "main_publish lib os n args key ev \<noteq> RExit 6 []"
    by (auto simp: main_publish_def split: outcome.splits if_splits)
  show "event_wf ev" using note_event_wf [OF len(1), of os c] by (simp add: event_wf_def ev_def)
  show "ev_content ev = Some c" by (simp add: note_event_def ev_def)
  show "length (commitment_text ev) < 102400" using fit by (simp add: ev_def)
qed

lemma note_main_event:
  assumes "secp_laws lib verify"
    and rnd: "\<And>n. \<exists>r. getrandom os n 32 = Some r \<and> length r = 32"
    and sec: "hex_decode s 32 = (True, secret)" and pair: "keypair_create lib secret = Some pair"
    and pub: "keypair_xonly_pub lib pair = Some x" "xonly_pubkey_serialize lib x = Some pk"
    and sgn: "\<And>msg aux. \<exists>sig. schnorrsig_sign32 lib msg pair aux = Some sig"
    and "length c \<le> 51000" and plain: "plain_note args s c"
  shows "\<exists>sig. main_event lib os n args (start_event os args zero_event) =
       Some (RExit 0 (event_text (note_signed os c pk sig) (has_flag args HAS_ENVELOPE))) \<and>
     verify sig (fips_sha256 (commitment_text (note_event os c pk))) pk"
proof -
  note st = note_stages [OF assms]
  from main_publish_spec [OF assms(1) st(2,6,7,8), of os n args] st(4) [of n] st(5) [of n] show ?thesis
    by (auto simp: note_signed_def)
qed

lemma note_not_subcommand: "try_subcommand os [prog, str ''--sec'', s, str ''--content'', c] = None"
  by (simp add: try_subcommand_def bytes_simps)

text \<open>A note with the toy library, for the witnesses of the programs.\<close>

definition toy_sec :: cstr where
  "toy_sec = concat (replicate 32 (str ''Ab''))"

lemma toy_sec_decode: "hex_decode toy_sec 32 = (True, replicate 32 0xAB)"
  by code_simp

lemma toy_context: "init_secp_context toy_secp toy_sys 0 = (True, 1)"
  by (simp add: init_secp_context_def fill_random_def toy_sys_def toy_secp_def)

lemma toy_plain_note:
  assumes "plain_note args toy_sec (str ''hi'')"
  shows "\<exists>sig. main_event toy_secp toy_sys n args (start_event toy_sys args zero_event) =
         Some (RExit 0 (event_text (note_signed toy_sys (str ''hi'') (replicate 32 0xAB) sig) (has_flag args HAS_ENVELOPE)))"
  using note_main_event [OF toy_laws _ toy_sec_decode, of toy_sys "replicate 32 0xAB" "replicate 32 0xAB" "replicate 32 0xAB"
      "str ''hi''" args n] assms
  by (auto simp: toy_sys_def toy_secp_def)

lemma toy_note:
  "\<exists>sig. main_event toy_secp toy_sys n (note_args toy_sec (str ''hi''))
           (start_event toy_sys (note_args toy_sec (str ''hi'')) zero_event) =
         Some (RExit 0 (event_text (note_signed toy_sys (str ''hi'') (replicate 32 0xAB) sig) False))"
  using toy_plain_note [OF plain_note_args(1), of n] by (simp only: plain_note_args(2))

text \<open>An event is none of the fixed texts.\<close>

lemma hd_event_text: "hd (event_text ev env) = (if env then 91 else 123)" "event_text ev env \<noteq> []"
  by (simp_all add: event_text_def print_head_def bytes_simps)

lemma hd_texts: "hd usage \<noteq> 123" "hd version \<noteq> 123" "hd about \<noteq> 123"
  by code_simp+

section \<open>Properties\<close>



text \<open>
  C2. A note is published: with a secret key the library accepts, a working random source and a
  content of at most 51000 bytes, \<open>gnostr --sec s --content c\<close> ends with code 0 and prints exactly the
  event of kind 1 with that content, the current time, the key's public key, the hash of its
  commitment as id, and the library's signature of it.
\<close>

theorem note_is_published:
  assumes "secp_laws lib verify"
    and rnd: "\<And>n. \<exists>r. getrandom os n 32 = Some r \<and> length r = 32" and ctx: "\<And>r. context_randomize lib r"
    and sec: "hex_decode s 32 = (True, secret)" and pair: "keypair_create lib secret = Some pair"
    and pub: "keypair_xonly_pub lib pair = Some x" "xonly_pubkey_serialize lib x = Some pk"
    and sgn: "\<And>msg aux. \<exists>sig. schnorrsig_sign32 lib msg pair aux = Some sig"
    and "length c \<le> 51000"
  shows "\<exists>sig. gnostr_main lib os [prog, str ''--sec'', s, str ''--content'', c] =
     Some (RExit 0 (event_text ((note_event os c pk)
       \<lparr>ev_id := fips_sha256 (commitment_text (note_event os c pk)), ev_sig := sig\<rparr>) False)) \<and>
     verify sig (fips_sha256 (commitment_text (note_event os c pk))) pk"
proof -
  obtain n where n: "init_secp_context lib os 0 = (True, n)"
    using rnd [of 0] ctx by (auto simp: init_secp_context_def fill_random_def)
  have "gnostr_main lib os [prog, str ''--sec'', s, str ''--content'', c]
      = main_event lib os n (note_args s c) (start_event os (note_args s c) zero_event)"
    unfolding gnostr_main_def Let_def start_event_def [symmetric] by (simp add: n parse_note note_not_subcommand)
  then show ?thesis
    using note_main_event [OF assms(1) rnd sec pair pub sgn assms(9) plain_note_args(1), of n]
    by (simp add: note_signed_def)
qed

theorem note_is_published_witness:
  "\<exists>sig. gnostr_main toy_secp toy_sys
       [str ''gnostr'', str ''--sec'', concat (replicate 32 (str ''Ab'')), str ''--content'', str ''hi''] =
     Some (RExit 0 (event_text ((note_event toy_sys (str ''hi'') (replicate 32 0xAB))
       \<lparr>ev_id := fips_sha256 (commitment_text (note_event toy_sys (str ''hi'') (replicate 32 0xAB))), ev_sig := sig\<rparr>) False))"
proof -
  let ?s = "concat (replicate 32 (str ''Ab''))" and ?k = "replicate 32 0xAB"
  have "hex_decode ?s 32 = (True, ?k)" by code_simp
  with note_is_published [OF toy_laws _ _ this, of toy_sys ?k ?k ?k "str ''hi''" "str ''gnostr''"] show ?thesis
    by (auto simp: toy_sys_def toy_secp_def)
qed

text \<open>
  C3. What can crash the program: an argument of \<open>--hash\<close> of more than 70 bytes, which overruns the
  command array; mining an id with a two-element nonce tag on the command line, which fails an
  assertion; and an encrypted message whose length is below 8 modulo 16, which overruns \<open>encbuf\<close>, or at
  least 715827650, where the sizes overflow. Nothing else fails an assertion or overruns a buffer.
\<close>

theorem crash_causes:
  assumes "secp_laws lib verify" and "gnostr_main lib os argv = Some RCrash"
  shows "(\<exists>pre h post. argv = pre @ str ''--hash'' # h # post \<and> 70 < length h) \<or>
         (\<exists>args ev0 c. parse_args argv (errno0 os) = POk (args, ev0) \<and> a_content args = Some c \<and>
           (mines_id args \<and> (\<exists>v. [str ''nonce'', v] \<in> set (ev_tags ev0)) \<or>
            has_flag args HAS_ENCRYPT \<and> (length c mod 16 < 8 \<or> 715827650 \<le> length c)))"
proof (cases "parse_args argv (errno0 os) = PCrash")
  case False
  with gnostr_main_event [OF assms(2)] obtain n args ev0 where
    p: "parse_args argv (errno0 os) = POk (args, ev0)"
    and m: "main_event lib os n args (start_event os args ev0) = Some RCrash" by auto
  note ready = parse_args_ready [OF p]
  note st = start_event_fields [OF ready, of os]
  from st(2,3) obtain c where c: "a_content args = Some c" by auto
  from m have "mines_id args \<and> (\<exists>v. [str ''nonce'', v] \<in> set (ev_tags ev0)) \<or>
            has_flag args HAS_ENCRYPT \<and> (length c mod 16 < 8 \<or> 715827650 \<le> length c)"
  proof (cases rule: main_event_stages)
    case key
    from main_key_exit [OF this] show ?thesis by auto
  next
    case (dm key n')
    then obtain kind where "has_flag args HAS_ENCRYPT"
      "make_encrypted_dm lib os n' key (start_event os args ev0) (a_encrypt_to args) kind = Abort"
      by (auto simp: main_dm_def Let_def split: if_splits outcome.splits)
    with make_encrypted_dm_abort [OF this(2), of c] ready st(2) c show ?thesis
      by (auto simp: dm_limit_def args_ready_def)
  next
    case (mine key n' ev n'')
    from main_event_ready [OF assms(1) ready mine(1,2)] main_id_stops [OF mine(3)]
    have "mines_id args \<and> (\<exists>v. [str ''nonce'', v] \<in> set (ev_tags ev))" by auto
    moreover have "ev_tags ev = ev_tags ev0 \<or> (\<exists>t. ev_tags ev = ev_tags ev0 @ [[str ''p'', t]])"
      using main_dm_ok [OF mine(2) st(1,3)] st(4) by (cases "has_flag args HAS_ENCRYPT") auto
    ultimately show ?thesis by (auto simp: bytes_simps)
  next
    case (publish key n' ev n'' ev')
    from main_event_ready [OF assms(1) ready publish(1,2)] obtain d where
      wf: "event_wf (ev\<lparr>ev_pubkey := k_pubkey key\<rparr>)" and d: "ev_content (ev\<lparr>ev_pubkey := k_pubkey key\<rparr>) = Some d"
      by blast
    note id = main_id_ok [OF publish(3) wf d]
    have "ev_content ev' = Some d" using id d by simp
    from main_publish_spec [OF assms(1) _ _ this, of key os n'' args] main_key_ok [OF publish(1)] id publish(4)
    show ?thesis by auto
  qed
  with p c show ?thesis by blast
qed (use parse_args_crash in blast)

theorem crash_causes_witness:
  "gnostr_main toy_secp toy_sys [str ''gnostr'', str ''--hash'', replicate 71 65] = Some RCrash \<and>
   (\<exists>pre h post. [str ''gnostr'', str ''--hash'', replicate 71 65] = pre @ str ''--hash'' # h # post \<and> 70 < length h)"
proof -
  let ?argv = "[str ''gnostr'', str ''--hash'', replicate 71 65]"
  have p: "parse_args ?argv (errno0 toy_sys) = PCrash"
    by (simp add: parse_args_def parse_loop.simps openssl_hash_def hash_command_def hash_pipe_def bytes_simps)
  have "try_subcommand toy_sys ?argv = None" by (simp add: try_subcommand_def bytes_simps)
  then have "gnostr_main toy_secp toy_sys ?argv = Some RCrash" by (simp add: gnostr_main_def p toy_context)
  from this crash_causes [OF toy_laws this] p show ?thesis by auto
qed

end
