(* ===== verification/Jsmin.thy ===== *)
theory Jsmin
  imports Prelude
begin

text \<open>
  The JavaScript minifier \<^verbatim>\<open>template/gnostr-jsmin.c\<close>. Its static variables and the two streams
  are the record \<open>jst\<close>; a character is an \<^verbatim>\<open>int\<close> as \<^verbatim>\<open>getc\<close> returns it, with \<open>EOF\<close> for
  the end of the input. \<open>error\<close> ends the program with its message and what has been written so far
  (\<open>JErr\<close>). Every loop of the source is a recursive function whose termination is proved from the
  number of characters left to read; the main loop needs in addition that an action at the end of
  the input moves \<open>EOF\<close> from \<open>the_b\<close> to \<open>the_a\<close>.
\<close>

section \<open>State\<close>

definition EOF :: int where "EOF = - 1"

abbreviation jc :: "char \<Rightarrow> int" where "jc c \<equiv> of_char c"

record jst =
  js_inp :: bytes
  look_ahead :: int
  the_a :: int
  the_b :: int
  the_x :: int
  the_y :: int
  js_out :: bytes

definition jst0 :: "bytes \<Rightarrow> bytes \<Rightarrow> jst" where
  "jst0 inp out = \<lparr>js_inp = inp, look_ahead = EOF, the_a = 0, the_b = 0, the_x = EOF, the_y = EOF, js_out = out\<rparr>"

datatype 'a js = JErr cstr bytes | JOk 'a

fun bind_js :: "'a js \<Rightarrow> ('a \<Rightarrow> 'b js) \<Rightarrow> 'b js" where
  "bind_js (JErr e out) f = JErr e out"
| "bind_js (JOk x) f = f x"

definition js_error :: "string \<Rightarrow> jst \<Rightarrow> 'a js" where
  "js_error msg st = JErr (str msg) (js_out st)"

definition putc :: "int \<Rightarrow> jst \<Rightarrow> jst" where
  "putc c st = st\<lparr>js_out := js_out st @ [word_of_int c]\<rparr>"

section \<open>Reading characters\<close>

definition is_alphanum :: "int \<Rightarrow> bool" where
  "is_alphanum codeunit \<longleftrightarrow>
     (codeunit \<ge> jc CHR ''a'' \<and> codeunit \<le> jc CHR ''z'') \<or>
     (codeunit \<ge> jc CHR ''0'' \<and> codeunit \<le> jc CHR ''9'') \<or>
     (codeunit \<ge> jc CHR ''A'' \<and> codeunit \<le> jc CHR ''Z'') \<or>
     codeunit = jc CHR ''_'' \<or> codeunit = jc CHR ''$'' \<or> codeunit = jc CHR 0x5C \<or> codeunit > 126"

definition js_getc :: "jst \<Rightarrow> int \<times> jst" where
  "js_getc st = (case js_inp st of [] \<Rightarrow> (EOF, st) | b # r \<Rightarrow> (uint b, st\<lparr>js_inp := r\<rparr>))"

definition js_get :: "jst \<Rightarrow> int \<times> jst" where
  "js_get st =
     (let codeunit = look_ahead st;
          st = st\<lparr>look_ahead := EOF\<rparr>;
          (codeunit, st) = (if codeunit = EOF then js_getc st else (codeunit, st))
      in if codeunit \<ge> jc CHR '' '' \<or> codeunit = 10 \<or> codeunit = EOF then (codeunit, st)
         else if codeunit = 13 then (10, st)
         else (jc CHR '' '', st))"

definition js_peek :: "jst \<Rightarrow> int \<times> jst" where
  "js_peek st = (case js_get st of (c, st) \<Rightarrow> (c, st\<lparr>look_ahead := c\<rparr>))"

text \<open>The number of characters left, the one in \<open>look_ahead\<close> included.\<close>

definition left :: "jst \<Rightarrow> nat" where
  "left st = length (js_inp st) + (if look_ahead st = EOF then 0 else 1)"

lemma uint_nonneg [simp]: "uint (b :: u8) \<noteq> - 1"
proof -
  have "0 \<le> uint b" by (rule unsigned_greater_eq)
  then show ?thesis by linarith
qed

lemma js_get_left:
  "js_get st = (c, st') \<Longrightarrow> left st' = left st - 1 \<and> (c = EOF \<longleftrightarrow> left st = 0) \<and> look_ahead st' = EOF"
  by (cases "js_inp st") (auto simp: js_get_def js_getc_def left_def Let_def EOF_def split: if_splits)

lemma js_peek_left: "js_peek st = (c, st') \<Longrightarrow> left st' = left st \<and> (c = EOF \<longleftrightarrow> left st = 0)"
proof -
  assume "js_peek st = (c, st')"
  then obtain st1 where "js_get st = (c, st1)" "st' = st1\<lparr>look_ahead := c\<rparr>"
    by (auto simp: js_peek_def split: prod.splits)
  with js_get_left [of st c st1] show ?thesis by (auto simp: left_def)
qed

text \<open>The rest of a line comment, and of a block comment.\<close>

function line_comment :: "jst \<Rightarrow> int \<times> jst" where
  "line_comment st =
     (case js_get st of (codeunit, st) \<Rightarrow>
        if codeunit \<le> 10 then (codeunit, st) else line_comment st)"
  by pat_completeness auto
termination
  by (relation "measure left") (auto simp: EOF_def dest!: js_get_left [OF sym])

function block_comment :: "jst \<Rightarrow> jst js" where
  "block_comment st =
     (case js_get st of (c, st) \<Rightarrow>
        if c = jc CHR ''*'' then
          (case js_peek st of (p, st) \<Rightarrow>
             if p = jc CHR ''/'' then (case js_get st of (_, st) \<Rightarrow> JOk st) else block_comment st)
        else if c = EOF then js_error ''Unterminated comment.'' st
        else block_comment st)"
  by pat_completeness auto
termination
  by (relation "measure left") (auto simp: EOF_def dest!: js_get_left [OF sym] js_peek_left [OF sym])

definition js_next :: "jst \<Rightarrow> (int \<times> jst) js" where
  "js_next st =
     bind_js
       (case js_get st of (codeunit, st) \<Rightarrow>
          if codeunit = jc CHR ''/'' then
            (case js_peek st of (p, st) \<Rightarrow>
               if p = jc CHR ''/'' then JOk (line_comment st)
               else if p = jc CHR ''*'' then
                 (case js_get st of (_, st) \<Rightarrow> bind_js (block_comment st) (\<lambda>st. JOk (jc CHR '' '', st)))
               else JOk (codeunit, st))
          else JOk (codeunit, st))
       (\<lambda>(codeunit, st). JOk (codeunit, st\<lparr>the_y := the_x st, the_x := codeunit\<rparr>))"

section \<open>Actions\<close>

text \<open>
  \<open>esc_get\<close> is the statement shared by the loops that copies a backslash and takes the character after
  it. The loops are those over a string literal, over a set in a regular expression, and
  over the expression.
\<close>

definition esc_get :: "int \<Rightarrow> jst \<Rightarrow> int \<times> jst" where
  "esc_get a st = (if a = jc CHR 0x5C then js_get (putc a st) else (a, st))"

function string_loop :: "jst \<Rightarrow> jst js" where
  "string_loop st =
     (case js_get (putc (the_a st) st) of (a, st) \<Rightarrow>
        if a = the_b st then JOk (st\<lparr>the_a := a\<rparr>)
        else (case esc_get a st of (a, st) \<Rightarrow>
                if a = EOF then js_error ''Unterminated string literal.'' st
                else string_loop (st\<lparr>the_a := a\<rparr>)))"
  by pat_completeness auto

lemma left_updates [simp]:
  "left (putc c st) = left st" "left (st\<lparr>the_a := a\<rparr>) = left st" "left (st\<lparr>the_b := b\<rparr>) = left st"
  "left (st\<lparr>the_x := x\<rparr>) = left st" "left (st\<lparr>the_y := y\<rparr>) = left st"
  by (simp_all add: left_def putc_def)

text \<open>A character, or an escaped one: something is read unless the input is at its end.\<close>

lemma esc_get_left: "esc_get a st = (c, st') \<Longrightarrow> left st' \<le> left st \<and> (a = EOF \<longrightarrow> c = EOF)"
  using js_get_left [of "putc a st" c st'] by (auto simp: esc_get_def EOF_def split: if_splits)

lemma escaped_left:
  assumes "js_get st = (a, st1)" and "esc_get a st2 = (c, st3)" and "left st2 = left st1" and "c \<noteq> EOF"
  shows "left st3 < left st"
  using assms js_get_left [of st a st1] esc_get_left [of a st2 c st3] by auto

termination string_loop
  by (relation "measure left") (auto dest!: escaped_left [OF sym sym refl])

function set_loop :: "jst \<Rightarrow> jst js" where
  "set_loop st =
     (case js_get (putc (the_a st) st) of (a, st) \<Rightarrow>
        if a = jc CHR '']'' then JOk (st\<lparr>the_a := a\<rparr>)
        else (case esc_get a st of (a, st) \<Rightarrow>
                if a = EOF then js_error ''Unterminated set in Regular Expression literal.'' st
                else set_loop (st\<lparr>the_a := a\<rparr>)))"
  by pat_completeness auto
termination
  by (relation "measure left") (auto dest!: escaped_left [OF sym sym refl])

declare string_loop.simps [simp del] set_loop.simps [simp del] line_comment.simps [simp del]
  block_comment.simps [simp del]

lemma set_loop_left: "set_loop st = JOk st' \<Longrightarrow> left st' \<le> left st"
proof (induction st rule: set_loop.induct)
  case (1 st)
  obtain a st1 where g: "js_get (putc (the_a st) st) = (a, st1)" by fastforce
  obtain c st2 where e: "esc_get a st1 = (c, st2)" by fastforce
  from esc_get_left [OF e] js_get_left [OF g] 1(1) [OF g [symmetric] _ e [symmetric]] 1(2) show ?case
    by (subst (asm) set_loop.simps) (auto simp: g e js_error_def split: if_splits)
qed

function regex_loop :: "jst \<Rightarrow> jst js" where
  "regex_loop st =
     (case js_get st of (a, st) \<Rightarrow>
        let st = st\<lparr>the_a := a\<rparr>
        in if a = jc CHR ''['' then
             (case set_loop st of
                JErr e out \<Rightarrow> JErr e out
              | JOk st \<Rightarrow>
                  if the_a st = EOF then js_error ''Unterminated Regular Expression literal.'' st
                  else regex_loop (putc (the_a st) st))
           else if a = jc CHR ''/'' then
             (case js_peek st of (p, st) \<Rightarrow>
                if p = jc CHR ''/'' \<or> p = jc CHR ''*''
                then js_error ''Unterminated set in Regular Expression literal.'' st
                else JOk st)
           else (case esc_get a st of (a, st) \<Rightarrow>
                   if a = EOF then js_error ''Unterminated Regular Expression literal.'' st
                   else regex_loop (putc a (st\<lparr>the_a := a\<rparr>))))"
  by pat_completeness auto
termination
proof (relation "measure left", goal_cases)
  case (2 st a st1 st2 st3)
  then show ?case using js_get_left [of st a st1] set_loop_left [of st2 st3] by (auto simp: EOF_def)
next
  case (3 st a st1 st2 c st3)
  then show ?case using escaped_left [of st a st1 st2 c st3] by auto
qed auto

declare regex_loop.simps [simp del]

definition regex_start :: "int \<Rightarrow> bool" where
  "regex_start a \<longleftrightarrow> a \<in> set (map of_char ''(,=:[!&|?+-~*/{};'')"

definition is_quote :: "int \<Rightarrow> bool" where
  "is_quote a \<longleftrightarrow> a = jc CHR 0x27 \<or> a = jc CHR 0x22 \<or> a = jc CHR 0x60"

definition is_sign :: "int \<Rightarrow> bool" where
  "is_sign a \<longleftrightarrow> a = jc CHR ''+'' \<or> a = jc CHR ''-'' \<or> a = jc CHR ''*'' \<or> a = jc CHR ''/''"

definition action_3 :: "jst \<Rightarrow> jst js" where
  "action_3 st =
     bind_js (js_next st) (\<lambda>(b, st).
       let st = st\<lparr>the_b := b\<rparr>; a = the_a st
       in if b = jc CHR ''/'' \<and> regex_start a then
            let st = putc a st;
                st = (if a = jc CHR ''/'' \<or> a = jc CHR ''*'' then putc (jc CHR '' '') st else st);
                st = putc b st
            in bind_js (regex_loop st) (\<lambda>st. bind_js (js_next st) (\<lambda>(b, st). JOk (st\<lparr>the_b := b\<rparr>)))
          else JOk st)"

definition action_2 :: "jst \<Rightarrow> jst js" where
  "action_2 st =
     (let st = st\<lparr>the_a := the_b st\<rparr>
      in bind_js (if is_quote (the_a st) then string_loop st else JOk st) action_3)"

definition action_1 :: "jst \<Rightarrow> jst js" where
  "action_1 st =
     (let st = putc (the_a st) st;
          st = (if (the_y st = 10 \<or> the_y st = jc CHR '' '') \<and> is_sign (the_a st) \<and> is_sign (the_b st)
                then putc (the_y st) st else st)
      in action_2 st)"

definition action :: "nat \<Rightarrow> jst \<Rightarrow> jst js" where
  "action determined st =
     (if determined = 1 then action_1 st
      else if determined = 2 then action_2 st
      else if determined = 3 then action_3 st
      else JOk st)"

section \<open>The main loop\<close>

definition choose_action :: "int \<Rightarrow> int \<Rightarrow> nat" where
  "choose_action a b =
     (if a = jc CHR '' '' then (if is_alphanum b then 1 else 2)
      else if a = 10 then
        (if b \<in> set (map of_char ''{[(+-!~'') then 1
         else if b = jc CHR '' '' then 3
         else if is_alphanum b then 1 else 2)
      else
        (if b = jc CHR '' '' then (if is_alphanum a then 1 else 3)
         else if b = 10 then
           (if a \<in> set (map of_char ''}])+-'') \<or> is_quote a then 1
            else if is_alphanum a then 1 else 3)
         else 1))"

lemma choose_action_EOF: "choose_action a EOF \<in> {1, 2}" "choose_action a b \<in> {1, 2, 3}"
  by (simp_all add: choose_action_def EOF_def is_alphanum_def)

text \<open>
  What reading keeps of the variables, and the characters it delivers: \<open>plain\<close> characters are a line
  feed or not below the space.
\<close>

definition same_vars :: "jst \<Rightarrow> jst \<Rightarrow> bool" where
  "same_vars st st' \<longleftrightarrow>
     the_a st' = the_a st \<and> the_b st' = the_b st \<and> the_x st' = the_x st \<and> the_y st' = the_y st \<and>
     js_out st' = js_out st"

definition plain :: "int \<Rightarrow> bool" where
  "plain c \<longleftrightarrow> c = EOF \<or> c = 10 \<or> 32 \<le> c \<and> c < 256"

definition plain_text :: "bytes \<Rightarrow> bool" where
  "plain_text out \<longleftrightarrow> list_all (\<lambda>b. b = 10 \<or> 32 \<le> b) out"

definition clean :: "jst \<Rightarrow> bool" where
  "clean st \<longleftrightarrow>
     plain (look_ahead st) \<and> plain (the_a st) \<and> plain (the_b st) \<and> plain (the_x st) \<and> plain (the_y st) \<and>
     plain_text (js_out st)"

lemma js_get_same: "js_get st = (c, st') \<Longrightarrow> same_vars st st' \<and> (plain (look_ahead st) \<longrightarrow> plain c)"
proof -
  have "uint b < 256" for b :: u8 using uint_lt2p [of b] by simp
  then show "js_get st = (c, st') \<Longrightarrow> ?thesis"
    by (cases "js_inp st") (auto simp: js_get_def js_getc_def same_vars_def plain_def Let_def EOF_def split: if_splits)
qed

lemma clean_same:
  "clean st \<Longrightarrow> same_vars st st' \<Longrightarrow> plain (look_ahead st') \<Longrightarrow> clean st'"
  by (simp add: clean_def same_vars_def)

lemma plain_EOF [simp]: "plain EOF" by (simp add: plain_def)

text \<open>The facts about one read.\<close>

lemma js_get_facts:
  assumes "js_get st = (c, st')"
  shows "left st' = left st - 1" "c = EOF \<longleftrightarrow> left st = 0" "same_vars st st'"
    "clean st \<Longrightarrow> clean st' \<and> plain c"
proof -
  note l = js_get_left [OF assms] and s = js_get_same [OF assms]
  from l s show "left st' = left st - 1" "c = EOF \<longleftrightarrow> left st = 0" "same_vars st st'" by blast+
  show "clean st' \<and> plain c" if "clean st"
    using l s that clean_same [OF that, of st'] by (simp add: clean_def)
qed

lemma js_peek_facts:
  assumes "js_peek st = (c, st')"
  shows "left st' = left st" "c = EOF \<longleftrightarrow> left st = 0" "same_vars st st'" "clean st \<Longrightarrow> clean st' \<and> plain c"
proof -
  from assms obtain st1 where g: "js_get st = (c, st1)" "st' = st1\<lparr>look_ahead := c\<rparr>"
    by (auto simp: js_peek_def split: prod.splits)
  note l = js_peek_left [OF assms] and f = js_get_facts [OF g(1)]
  from l show "left st' = left st" "c = EOF \<longleftrightarrow> left st = 0" by blast+
  from f(3) g(2) show "same_vars st st'" by (simp add: same_vars_def)
  show "clean st' \<and> plain c" if "clean st"
    using f(4) [OF that] g(2) by (simp add: clean_def)
qed

lemma same_vars_refl [simp]: "same_vars st st" by (simp add: same_vars_def)

lemma same_vars_trans [trans]: "same_vars st st1 \<Longrightarrow> same_vars st1 st2 \<Longrightarrow> same_vars st st2"
  by (simp add: same_vars_def)

lemma clean_updates:
  "clean st \<Longrightarrow> plain c \<Longrightarrow> clean (putc c st)" "clean st \<Longrightarrow> plain c \<Longrightarrow> clean (st\<lparr>the_a := c\<rparr>)"
  "clean st \<Longrightarrow> plain c \<Longrightarrow> clean (st\<lparr>the_b := c\<rparr>)" "clean st \<Longrightarrow> plain c \<Longrightarrow> clean (st\<lparr>the_x := c\<rparr>)"
  "clean st \<Longrightarrow> plain c \<Longrightarrow> clean (st\<lparr>the_y := c\<rparr>)"
proof -
  have "word_of_int c = (10 :: u8) \<or> (32 :: u8) \<le> word_of_int c" if "plain c"
  proof -
    have "32 \<le> c \<Longrightarrow> c < 256 \<Longrightarrow> uint (word_of_int c :: u8) = c"
      by (simp add: unsigned_of_int take_bit_int_eq_self)
    moreover have "(32 :: u8) \<le> - 1" by code_simp
    ultimately show ?thesis using that by (auto simp: plain_def EOF_def word_le_def)
  qed
  then show "clean st \<Longrightarrow> plain c \<Longrightarrow> clean (putc c st)"
    by (simp add: clean_def putc_def plain_text_def)
qed (simp_all add: clean_def)

text \<open>What every loop guarantees: it reads on, keeps \<open>the_b\<close>, and stays clean, also when it fails.\<close>

fun loop_ok :: "jst \<Rightarrow> jst js \<Rightarrow> bool" where
  "loop_ok st (JOk st') \<longleftrightarrow> left st' \<le> left st \<and> the_b st' = the_b st \<and> (clean st \<longrightarrow> clean st')"
| "loop_ok st (JErr e out) \<longleftrightarrow> (clean st \<longrightarrow> plain_text out)"

lemma loop_ok_mono:
  "loop_ok st1 r \<Longrightarrow> left st1 \<le> left st \<Longrightarrow> the_b st1 = the_b st \<Longrightarrow> (clean st \<Longrightarrow> clean st1) \<Longrightarrow> loop_ok st r"
  by (cases r) auto

lemma loop_ok_error: "(clean st \<Longrightarrow> clean st1) \<Longrightarrow> loop_ok st (js_error msg st1)"
  by (auto simp: js_error_def clean_def)

lemma line_comment_facts:
  "line_comment st = (c, st') \<Longrightarrow>
   left st' \<le> left st \<and> (c = EOF \<longrightarrow> left st' = 0) \<and> (left st = 0 \<longrightarrow> c = EOF) \<and> same_vars st st' \<and>
   (clean st \<longrightarrow> clean st' \<and> plain c)"
proof (induction st rule: line_comment.induct)
  case (1 st)
  obtain a st1 where g: "js_get st = (a, st1)" by fastforce
  from js_get_facts [OF g] 1(1) [OF g [symmetric]] 1(2) show ?case
    by (subst (asm) line_comment.simps) (auto simp: g EOF_def same_vars_def split: if_splits)
qed

lemma block_comment_ok:
  "loop_ok st (block_comment st) \<and> (\<forall>st'. block_comment st = JOk st' \<longrightarrow> same_vars st st')"
proof (induction st rule: block_comment.induct)
  case (1 st)
  obtain a st1 where g: "js_get st = (a, st1)" by fastforce
  obtain p st2 where k: "js_peek st1 = (p, st2)" by fastforce
  obtain q st3 where h: "js_get st2 = (q, st3)" by fastforce
  note G = js_get_facts [OF g] and K = js_peek_facts [OF k] and H = js_get_facts [OF h]
  show ?case
  proof (cases "a = jc CHR ''*''")
    case star: True
    show ?thesis
    proof (cases "p = jc CHR ''/''")
      case True
      then show ?thesis using star G K H
        by (auto simp: block_comment.simps [of st] g k h same_vars_def)
    next
      case False
      note IH = 1(1) [OF g [symmetric] star k [symmetric] False]
      have eq: "block_comment st = block_comment st2"
        using star False by (simp add: block_comment.simps [of st] g k)
      have sv: "same_vars st st2" using G(3) K(3) by (rule same_vars_trans)
      have "loop_ok st (block_comment st2)"
        by (rule loop_ok_mono [OF conjunct1 [OF IH]]) (use G K sv in \<open>auto simp: same_vars_def\<close>)
      with eq IH sv show ?thesis by (auto intro: same_vars_trans)
    qed
  next
    case other: False
    show ?thesis
    proof (cases "a = EOF")
      case True
      have "loop_ok st (js_error ''Unterminated comment.'' st1)" by (rule loop_ok_error) (use G in blast)
      moreover have "block_comment st = js_error ''Unterminated comment.'' st1"
        using True other by (simp add: block_comment.simps [of st] g)
      ultimately show ?thesis by (simp add: js_error_def)
    next
      case False
      note IH = 1(2) [OF g [symmetric] other False]
      have eq: "block_comment st = block_comment st1"
        using other False by (simp add: block_comment.simps [of st] g)
      have "loop_ok st (block_comment st1)"
        by (rule loop_ok_mono [OF conjunct1 [OF IH]]) (use G in \<open>auto simp: same_vars_def\<close>)
      with eq IH G(3) show ?thesis by (auto intro: same_vars_trans)
    qed
  qed
qed

text \<open>One round of a copying loop: a read, and the escaped character after it.\<close>

lemma esc_get_facts:
  assumes "esc_get a st = (c, st')"
  shows "left st' \<le> left st" "the_b st' = the_b st" "clean st \<Longrightarrow> plain a \<Longrightarrow> clean st' \<and> plain c"
proof -
  have "left st' \<le> left st \<and> the_b st' = the_b st \<and> (clean st \<longrightarrow> plain a \<longrightarrow> clean st' \<and> plain c)"
  proof (cases "a = jc CHR 0x5C")
    case True
    then have g: "js_get (putc a st) = (c, st')" using assms by (simp add: esc_get_def)
    have "the_b (putc a st) = the_b st" by (simp add: putc_def)
    with js_get_facts [OF g] clean_updates(1) [of st a] show ?thesis by (simp add: same_vars_def)
  next
    case False
    with assms show ?thesis by (simp add: esc_get_def)
  qed
  then show "left st' \<le> left st" "the_b st' = the_b st" "clean st \<Longrightarrow> plain a \<Longrightarrow> clean st' \<and> plain c"
    by blast+
qed

lemma copy_round:
  assumes "js_get (putc (the_a st) st) = (a, st1)" and "esc_get a st1 = (c, st2)"
  shows "left (st1\<lparr>the_a := a\<rparr>) \<le> left st" "the_b (st1\<lparr>the_a := a\<rparr>) = the_b st"
    "clean st \<Longrightarrow> clean (st1\<lparr>the_a := a\<rparr>)"
    "left (st2\<lparr>the_a := c\<rparr>) \<le> left st" "the_b (st2\<lparr>the_a := c\<rparr>) = the_b st" "clean st \<Longrightarrow> clean st2"
    "clean st \<Longrightarrow> clean (st2\<lparr>the_a := c\<rparr>)"
proof -
  note G = js_get_facts [OF assms(1)] and E = esc_get_facts [OF assms(2)]
  have "the_b (putc (the_a st) st) = the_b st" by (simp add: putc_def)
  with G(3) have b: "the_b st1 = the_b st" by (simp add: same_vars_def)
  have c1: "clean st1 \<and> plain a" if "clean st"
    using G(4) clean_updates(1) [OF that] that by (simp add: clean_def)
  from c1 E(3) have c2: "clean st2 \<and> plain c" if "clean st" using that by blast
  from G(1) E(1) show "left (st1\<lparr>the_a := a\<rparr>) \<le> left st" "left (st2\<lparr>the_a := c\<rparr>) \<le> left st" by simp_all
  from b E(2) show "the_b (st1\<lparr>the_a := a\<rparr>) = the_b st" "the_b (st2\<lparr>the_a := c\<rparr>) = the_b st" by simp_all
  show "clean (st1\<lparr>the_a := a\<rparr>)" "clean st2" "clean (st2\<lparr>the_a := c\<rparr>)" if "clean st"
    using c1 [OF that] c2 [OF that] clean_updates(2) by blast+
qed

lemma string_loop_ok: "loop_ok st (string_loop st)"
proof (induction st rule: string_loop.induct)
  case (1 st)
  obtain a st1 where g: "js_get (putc (the_a st) st) = (a, st1)" by fastforce
  obtain c st2 where e: "esc_get a st1 = (c, st2)" by fastforce
  note R = copy_round [OF g e]
  consider "a = the_b st1" | "a \<noteq> the_b st1" "c = EOF" | "a \<noteq> the_b st1" "c \<noteq> EOF" by blast
  then show ?case
  proof cases
    case 3
    have "loop_ok st (string_loop (st2\<lparr>the_a := c\<rparr>))"
      by (rule loop_ok_mono [OF 1 [OF g [symmetric] 3(1) e [symmetric] 3(2)] R(4,5,7)])
    with 3 show ?thesis by (simp add: string_loop.simps [of st] g e)
  qed (use R in \<open>simp_all add: string_loop.simps [of st] g e loop_ok_error\<close>)
qed

lemma set_loop_ok: "loop_ok st (set_loop st)"
proof (induction st rule: set_loop.induct)
  case (1 st)
  obtain a st1 where g: "js_get (putc (the_a st) st) = (a, st1)" by fastforce
  obtain c st2 where e: "esc_get a st1 = (c, st2)" by fastforce
  note R = copy_round [OF g e]
  consider "a = jc CHR '']''" | "a \<noteq> jc CHR '']''" "c = EOF" | "a \<noteq> jc CHR '']''" "c \<noteq> EOF" by blast
  then show ?case
  proof cases
    case 3
    have "loop_ok st (set_loop (st2\<lparr>the_a := c\<rparr>))"
      by (rule loop_ok_mono [OF 1 [OF g [symmetric] 3(1) e [symmetric] 3(2)] R(4,5,7)])
    with 3 show ?thesis by (simp add: set_loop.simps [of st] g e)
  qed (use R in \<open>simp_all add: set_loop.simps [of st] g e loop_ok_error\<close>)
qed

lemma putc_fields [simp]:
  "the_a (putc c st) = the_a st" "the_b (putc c st) = the_b st" "the_x (putc c st) = the_x st"
  "the_y (putc c st) = the_y st" "look_ahead (putc c st) = look_ahead st" "js_inp (putc c st) = js_inp st"
  by (simp_all add: putc_def)

lemma clean_putc_a: "clean st \<Longrightarrow> clean (putc (the_a st) st)"
  by (rule clean_updates(1)) (simp_all add: clean_def)

lemma regex_loop_ok: "loop_ok st (regex_loop st)"
proof (induction st rule: regex_loop.induct)
  case (1 st)
  obtain a st1 where g: "js_get st = (a, st1)" by fastforce
  let ?st = "st1\<lparr>the_a := a\<rparr>"
  obtain p st2 where k: "js_peek ?st = (p, st2)" by fastforce
  obtain c st3 where e: "esc_get a ?st = (c, st3)" by fastforce
  note G = js_get_facts [OF g] and K = js_peek_facts [OF k] and E = esc_get_facts [OF e]
  have S: "left ?st \<le> left st" "the_b ?st = the_b st" using G by (simp_all add: same_vars_def)
  have C: "clean ?st \<and> plain a" if "clean st" using G(4) [OF that] clean_updates(2) by blast
  consider (set) "a = jc CHR ''[''" | (slash) "a = jc CHR ''/''" | (other) "a \<noteq> jc CHR ''[''" "a \<noteq> jc CHR ''/''"
    by blast
  then show ?case
  proof cases
    case set
    have ok: "loop_ok st (set_loop ?st)" by (rule loop_ok_mono [OF set_loop_ok S]) (use C in blast)
    show ?thesis
    proof (cases "set_loop ?st")
      case (JErr m out)
      with ok set show ?thesis by (simp add: regex_loop.simps [of st] g Let_def)
    next
      case (JOk st4)
      note T = ok [unfolded JOk loop_ok.simps]
      show ?thesis
      proof (cases "the_a st4 = EOF")
        case True
        with set JOk T show ?thesis by (simp add: regex_loop.simps [of st] g Let_def loop_ok_error)
      next
        case False
        have "loop_ok st (regex_loop (putc (the_a st4) st4))"
          by (rule loop_ok_mono [OF 1(1) [OF g [symmetric] refl set JOk False]]) (use T clean_putc_a in auto)
        with set JOk False show ?thesis by (simp add: regex_loop.simps [of st] g Let_def)
      qed
    qed
  next
    case slash
    then have eq: "regex_loop st = (if p = jc CHR ''/'' \<or> p = jc CHR ''*''
        then js_error ''Unterminated set in Regular Expression literal.'' st2 else JOk st2)"
      using k by (simp add: regex_loop.simps [of st] g Let_def)
    have c2: "clean st2" if "clean st" using C [OF that] K(4) by blast
    then have "loop_ok st (js_error ''Unterminated set in Regular Expression literal.'' st2)"
      by (rule loop_ok_error)
    moreover have "loop_ok st (JOk st2)" using S K(1,3) c2 by (simp add: same_vars_def)
    ultimately show ?thesis unfolding eq by (simp only: split: if_split) simp
  next
    case other
    show ?thesis
    proof (cases "c = EOF")
      case True
      with other C E show ?thesis by (simp add: regex_loop.simps [of st] g e Let_def loop_ok_error)
    next
      case False
      have "clean (putc c (st3\<lparr>the_a := c\<rparr>))" if "clean st"
        using E(3) C [OF that] clean_updates(1,2) by blast
      then have "loop_ok st (regex_loop (putc c (st3\<lparr>the_a := c\<rparr>)))"
        by (intro loop_ok_mono [OF 1(2) [OF g [symmetric] refl other e [symmetric] False]]) (use S E in auto)
      with other False show ?thesis by (simp add: regex_loop.simps [of st] g e Let_def)
    qed
  qed
qed

text \<open>The next character without comments: \<open>next_ok\<close> is what the actions rely on.\<close>

fun next_ok :: "jst \<Rightarrow> (int \<times> jst) js \<Rightarrow> bool" where
  "next_ok st (JOk (c, st')) \<longleftrightarrow>
     left st' \<le> left st - 1 \<and> (left st = 0 \<longrightarrow> c = EOF) \<and> (c = EOF \<longrightarrow> left st' = 0) \<and>
     the_a st' = the_a st \<and> the_b st' = the_b st \<and> (clean st \<longrightarrow> clean st' \<and> plain c)"
| "next_ok st (JErr e out) \<longleftrightarrow> (clean st \<longrightarrow> plain_text out)"

lemma next_ok_final:
  assumes "left s \<le> left st - 1" "left st = 0 \<longrightarrow> c = EOF" "c = EOF \<longrightarrow> left s = 0" "same_vars st s"
    "clean st \<longrightarrow> clean s \<and> plain c"
  shows "next_ok st (JOk (c, s\<lparr>the_y := the_x s, the_x := c\<rparr>))"
proof -
  have "clean (s\<lparr>the_y := the_x s, the_x := c\<rparr>)" if "clean s" "plain c"
    using that by (simp add: clean_def)
  with assms show ?thesis by (simp add: same_vars_def)
qed

lemma js_next_ok: "next_ok st (js_next st)"
proof -
  obtain a st1 where g: "js_get st = (a, st1)" by fastforce
  obtain p st2 where k: "js_peek st1 = (p, st2)" by fastforce
  obtain q st3 where h: "js_get st2 = (q, st3)" by fastforce
  obtain l st4 where n: "line_comment st2 = (l, st4)" by fastforce
  note G = js_get_facts [OF g] and K = js_peek_facts [OF k] and H = js_get_facts [OF h]
    and N = line_comment_facts [OF n] and B = block_comment_ok [of st3]
  consider (plain) "a \<noteq> jc CHR ''/''" | (line) "a = jc CHR ''/''" "p = jc CHR ''/''"
    | (block) "a = jc CHR ''/''" "p = jc CHR ''*''"
    | (slash) "a = jc CHR ''/''" "p \<noteq> jc CHR ''/''" "p \<noteq> jc CHR ''*''" by blast
  then show ?thesis
  proof cases
    case plain
    have "next_ok st (JOk (a, st1\<lparr>the_y := the_x st1, the_x := a\<rparr>))" by (rule next_ok_final) (use G in auto)
    with plain show ?thesis by (simp add: js_next_def g)
  next
    case line
    have "same_vars st st4" using G(3) K(3) N same_vars_trans by blast
    then have "next_ok st (JOk (l, st4\<lparr>the_y := the_x st4, the_x := l\<rparr>))"
      by (intro next_ok_final) (use G K N in auto)
    with line show ?thesis by (simp add: js_next_def g k n)
  next
    case slash
    have "same_vars st st2" using G(3) K(3) same_vars_trans by blast
    then have "next_ok st (JOk (a, st2\<lparr>the_y := the_x st2, the_x := a\<rparr>))" by (intro next_ok_final) (use G K in auto)
    with slash show ?thesis by (simp add: js_next_def g k)
  next
    case block
    have sv: "same_vars st st3" using G(3) K(3) H(3) same_vars_trans by blast
    show ?thesis
    proof (cases "block_comment st3")
      case (JErr m out)
      have "clean st \<longrightarrow> plain_text out" using B G(4) K(4) H(4) by (simp add: JErr)
      with block JErr show ?thesis by (simp add: js_next_def g k h)
    next
      case (JOk st5)
      have "same_vars st st5" "left st5 \<le> left st - 1" "clean st \<longrightarrow> clean st5"
        using B G(1,4) K(1,4) H(1,4) sv same_vars_trans by (auto simp: JOk)
      moreover have "left st \<noteq> 0" using G(2) block(1) by (auto simp: EOF_def)
      ultimately have "next_ok st (JOk (32, st5\<lparr>the_y := the_x st5, the_x := 32\<rparr>))"
        by (intro next_ok_final) (auto simp: EOF_def plain_def)
      with block JOk show ?thesis by (simp add: js_next_def g k h)
    qed
  qed
qed

end
