(* ===== verification/Jsmin_Main.thy ===== *)
theory Jsmin_Main
  imports Jsmin
begin

text \<open>
  The main loop and the entry point of \<^verbatim>\<open>template/gnostr-jsmin.c\<close>. The loop ends because every
  action either reads a character, or finds the input at its end and moves \<open>EOF\<close> towards \<open>the_a\<close>. The
  properties say that a successful run has read all of its input, that the output has no control
  characters but line feeds, that a string literal is copied verbatim and that comments vanish.
\<close>

section \<open>Actions\<close>

lemma not_regex_EOF [simp]: "\<not> regex_start EOF" "\<not> is_quote EOF"
  by (simp_all add: regex_start_def is_quote_def EOF_def)

text \<open>
  What an action guarantees: it reads on or finds the end, leaves \<open>the_b\<close> at \<open>EOF\<close> only at the end, and
  stays clean; and \<open>the_a\<close> is \<open>EOF\<close> afterwards exactly when the character \<open>a\<close> it starts from is.
\<close>

lemma string_loop_a: "string_loop st = JOk st' \<Longrightarrow> the_a st' = the_b st'"
proof (induction st rule: string_loop.induct)
  case (1 st)
  obtain a st1 where g: "js_get (putc (the_a st) st) = (a, st1)" by fastforce
  obtain c st2 where e: "esc_get a st1 = (c, st2)" by fastforce
  from 1(1) [OF g [symmetric] _ e [symmetric]] 1(2) show ?case
    by (auto simp: string_loop.simps [of st] g e js_error_def split: if_splits)
qed

lemma regex_loop_a: "regex_loop st = JOk st' \<Longrightarrow> the_a st' \<noteq> EOF"
proof (induction st rule: regex_loop.induct)
  case (1 st)
  obtain a st1 where g: "js_get st = (a, st1)" by fastforce
  obtain p st2 where k: "js_peek (st1\<lparr>the_a := a\<rparr>) = (p, st2)" by fastforce
  obtain c st3 where e: "esc_get a (st1\<lparr>the_a := a\<rparr>) = (c, st3)" by fastforce
  have "the_a st2 = a" using js_peek_facts(3) [OF k] by (simp add: same_vars_def)
  then have slash: "a = jc CHR ''/'' \<Longrightarrow> ?case"
    using 1(3) k by (auto simp: regex_loop.simps [of st] g js_error_def EOF_def Let_def split: if_splits)
  show ?case
    using 1(1) [OF g [symmetric] refl] 1(2) [OF g [symmetric] refl _ _ e [symmetric]] 1(3) slash
    by (cases "a = jc CHR ''/''"; cases "a = jc CHR ''[''")
      (auto simp: regex_loop.simps [of st] g e js_error_def Let_def split: if_splits js.splits)
qed

fun act_ok :: "jst \<Rightarrow> int \<Rightarrow> jst js \<Rightarrow> bool" where
  "act_ok st a (JOk st') \<longleftrightarrow>
     (left st' < left st \<or> left st = 0 \<and> left st' = 0 \<and> the_b st' = EOF) \<and>
     (the_b st' = EOF \<longrightarrow> left st' = 0) \<and> (the_a st' = EOF \<longleftrightarrow> a = EOF) \<and> (clean st \<longrightarrow> clean st')"
| "act_ok st a (JErr e out) \<longleftrightarrow> (clean st \<longrightarrow> plain_text out)"

lemma act_ok_mono:
  "act_ok st1 a r \<Longrightarrow> left st1 \<le> left st \<Longrightarrow> (clean st \<Longrightarrow> clean st1) \<Longrightarrow> act_ok st a r"
  by (cases r) auto

lemma act_ok_next:
  assumes "left st1 \<le> left st" and "clean st \<Longrightarrow> clean st1" and "the_a st1 = EOF \<longleftrightarrow> a = EOF"
  shows "act_ok st a (bind_js (js_next st1) (\<lambda>(b, st). JOk (st\<lparr>the_b := b\<rparr>)))"
  using js_next_ok [of st1] assms clean_updates(3)
  by (cases "js_next st1") (auto split: prod.splits)

lemma action_3_ok: "act_ok st (the_a st) (action_3 st)"
proof -
  note N = js_next_ok [of st]
  show ?thesis
  proof (cases "js_next st")
    case (JErr e out)
    with N show ?thesis by (simp add: action_3_def)
  next
    case (JOk r)
    obtain b st1 where r: "r = (b, st1)" by fastforce
    note M = N [unfolded JOk r next_ok.simps]
    let ?st = "st1\<lparr>the_b := b\<rparr>"
    have c: "clean ?st \<and> plain b \<and> plain (the_a ?st)" if "clean st"
      using M that clean_updates(3) [of st1 b] by (simp add: clean_def)
    show ?thesis
    proof (cases "b = jc CHR ''/'' \<and> regex_start (the_a ?st)")
      case True
      define st2 where "st2 = putc b (if the_a ?st = jc CHR ''/'' \<or> the_a ?st = jc CHR ''*''
        then putc (jc CHR '' '') (putc (the_a ?st) ?st) else putc (the_a ?st) ?st)"
      have l2: "left st2 = left st1" by (simp add: st2_def)
      have c2: "clean st2" if "clean st"
        unfolding st2_def using c [OF that] by (simp add: clean_updates(1) plain_def [of 32])
      have eq: "action_3 st = bind_js (regex_loop st2) (\<lambda>st. bind_js (js_next st) (\<lambda>(b, st). JOk (st\<lparr>the_b := b\<rparr>)))"
        using True by (simp add: action_3_def JOk r Let_def st2_def)
      have noteof: "the_a st \<noteq> EOF" using True M not_regex_EOF(1) by auto
      show ?thesis
      proof (cases "regex_loop st2")
        case (JErr e out)
        with c2 regex_loop_ok [of st2] show ?thesis by (simp add: eq)
      next
        case (JOk st3)
        have "left st3 \<le> left st" "clean st \<Longrightarrow> clean st3"
          using regex_loop_ok [of st2] l2 c2 M by (auto simp: JOk)
        from act_ok_next [OF this, of "the_a st"] noteof regex_loop_a [OF JOk] show ?thesis by (simp add: eq JOk)
      qed
    next
      case False
      with M c show ?thesis by (auto simp: action_3_def JOk r Let_def)
    qed
  qed
qed

lemma action_2_ok: "act_ok st (the_b st) (action_2 st)"
proof -
  let ?st = "st\<lparr>the_a := the_b st\<rparr>"
  have c: "clean ?st" if "clean st" using that by (simp add: clean_def)
  show ?thesis
  proof (cases "is_quote (the_b st)")
    case True
    then have ne: "the_b st \<noteq> EOF" by auto
    show ?thesis
    proof (cases "string_loop ?st")
      case (JErr e out)
      with c string_loop_ok [of ?st] True show ?thesis by (simp add: action_2_def Let_def)
    next
      case (JOk st1)
      have "left st1 \<le> left st" "clean st \<Longrightarrow> clean st1" using string_loop_ok [of ?st] c by (auto simp: JOk)
      from act_ok_mono [OF action_3_ok this] have "act_ok st (the_a st1) (action_3 st1)" .
      moreover have "the_a st1 = the_b st"
        using string_loop_a [OF JOk] string_loop_ok [of ?st] by (simp add: JOk)
      ultimately show ?thesis using True JOk by (simp add: action_2_def Let_def)
    qed
  next
    case False
    have "act_ok st (the_a ?st) (action_3 ?st)" by (rule act_ok_mono [OF action_3_ok]) (use c in auto)
    with False show ?thesis by (simp add: action_2_def Let_def)
  qed
qed

lemma action_1_ok: "act_ok st (the_b st) (action_1 st)"
proof -
  let ?st = "putc (the_a st) st"
  let ?st' = "if (the_y ?st = 10 \<or> the_y ?st = jc CHR '' '') \<and> is_sign (the_a ?st) \<and> is_sign (the_b ?st)
                then putc (the_y ?st) ?st else ?st"
  have "clean ?st'" if "clean st"
  proof -
    from that have "clean ?st" "plain (the_y ?st)" by (simp_all add: clean_putc_a) (simp add: clean_def)
    then show ?thesis using clean_updates(1) by simp
  qed
  then have "act_ok st (the_b ?st') (action_2 ?st')" by (intro act_ok_mono [OF action_2_ok]) auto
  moreover have "action_1 st = action_2 ?st'" by (simp only: action_1_def Let_def)
  moreover have "the_b ?st' = the_b st" by simp
  ultimately show ?thesis by metis
qed

lemma action_ok: "action n st = r \<Longrightarrow> n \<in> {1, 2, 3} \<Longrightarrow> act_ok st (if n = 3 then the_a st else the_b st) r"
  using action_1_ok [of st] action_2_ok [of st] action_3_ok [of st] by (auto simp: action_def)

section \<open>The loop\<close>

function jsmin_loop :: "jst \<Rightarrow> jst js" where
  "jsmin_loop st =
     (if the_a st = EOF then JOk st
      else (case action (choose_action (the_a st) (the_b st)) st of
              JErr e out \<Rightarrow> JErr e out
            | JOk st \<Rightarrow> jsmin_loop st))"
  by pat_completeness auto

lemma loop_progress:
  assumes "action (choose_action (the_a st) (the_b st)) st = JOk st'"
  shows "left st' < left st \<or>
         left st' = left st \<and> the_b st' = EOF \<and> (the_b st \<noteq> EOF \<or> the_a st' = EOF)"
proof -
  let ?n = "choose_action (the_a st) (the_b st)"
  from action_ok [OF assms(1)] choose_action_EOF(2) [of "the_a st" "the_b st"]
  have ok: "act_ok st (if ?n = 3 then the_a st else the_b st) (JOk st')" by blast
  have "?n \<noteq> 3" if "the_b st = EOF" using that choose_action_EOF(1) [of "the_a st"] by auto
  with ok show ?thesis by (cases "the_b st = EOF") auto
qed

termination jsmin_loop
  by (relation "measures [left, \<lambda>st. if the_b st = EOF then 0 else 1, \<lambda>st. if the_a st = EOF then 0 else 1]")
    (auto dest: loop_progress)

declare jsmin_loop.simps [simp del]

definition jsmin :: "jst \<Rightarrow> jst js" where
  "jsmin st =
     (case js_peek st of (c, st) \<Rightarrow>
        let st = (if c = 0xEF then snd (js_get (snd (js_get (snd (js_get st))))) else st)
        in bind_js (action 3 (st\<lparr>the_a := 10\<rparr>)) jsmin_loop)"

text \<open>The program: its exit code, and what it writes to the standard output.\<close>

definition jsmin_main :: "cstr list \<Rightarrow> bytes \<Rightarrow> int \<times> bytes" where
  "jsmin_main argv inp =
     (case jsmin (jst0 inp (concat (map (\<lambda>a. str ''// '' @ a @ [10]) (tl argv)))) of
        JErr e out \<Rightarrow> (1, out)
      | JOk st \<Rightarrow> (0, js_out st))"

section \<open>Consequences for a run\<close>

fun end_ok :: "jst \<Rightarrow> jst js \<Rightarrow> bool" where
  "end_ok st (JOk st') \<longleftrightarrow> the_a st' = EOF \<and> left st' = 0 \<and> (clean st \<longrightarrow> clean st')"
| "end_ok st (JErr e out) \<longleftrightarrow> (clean st \<longrightarrow> plain_text out)"

lemma end_ok_mono: "end_ok st1 r \<Longrightarrow> (clean st \<Longrightarrow> clean st1) \<Longrightarrow> end_ok st r"
  by (cases r) auto

lemma jsmin_loop_ok:
  "(the_a st = EOF \<longrightarrow> left st = 0) \<Longrightarrow> (the_b st = EOF \<longrightarrow> left st = 0) \<Longrightarrow> end_ok st (jsmin_loop st)"
proof (induction st rule: jsmin_loop.induct)
  case (1 st)
  let ?n = "choose_action (the_a st) (the_b st)"
  show ?case
  proof (cases "the_a st = EOF")
    case True
    with 1(2) show ?thesis by (simp add: jsmin_loop.simps [of st])
  next
    case False
    have ok: "act_ok st (if ?n = 3 then the_a st else the_b st) (action ?n st)"
      using action_ok [OF refl] choose_action_EOF(2) by blast
    show ?thesis
    proof (cases "action ?n st")
      case (JErr e out)
      with ok False show ?thesis by (simp add: jsmin_loop.simps [of st])
    next
      case (JOk st')
      note T = ok [unfolded JOk act_ok.simps]
      have "the_a st' = EOF \<longrightarrow> left st' = 0" using T 1(3) False by (auto split: if_splits)
      moreover have "the_b st' = EOF \<longrightarrow> left st' = 0" using T by blast
      ultimately have "end_ok st' (jsmin_loop st')" by (rule 1(1) [OF False JOk])
      then have "end_ok st (jsmin_loop st')" by (rule end_ok_mono) (use T in blast)
      with False JOk show ?thesis by (simp add: jsmin_loop.simps [of st])
    qed
  qed
qed

lemma jsmin_ok: "end_ok st (jsmin st)"
proof -
  obtain c st1 where k: "js_peek st = (c, st1)" by fastforce
  have get: "clean (snd (js_get s))" if "clean s" for s
    using js_get_facts(4) [of s] that by (metis prod.collapse)
  define st2 where "st2 = (if c = 0xEF then snd (js_get (snd (js_get (snd (js_get st1))))) else st1)"
  have "clean st2" if "clean st" using js_peek_facts(4) [OF k that] get by (simp add: st2_def)
  then have c: "clean (st2\<lparr>the_a := 10\<rparr>)" if "clean st" using that clean_updates(2) by (simp add: plain_def)
  have eq: "jsmin st = bind_js (action_3 (st2\<lparr>the_a := 10\<rparr>)) jsmin_loop"
    by (simp add: jsmin_def k action_def st2_def)
  note A = action_3_ok [of "st2\<lparr>the_a := 10\<rparr>"]
  show ?thesis
  proof (cases "action_3 (st2\<lparr>the_a := 10\<rparr>)")
    case (JErr e out)
    with A c show ?thesis by (simp add: eq)
  next
    case (JOk st3)
    note T = A [unfolded JOk act_ok.simps]
    have "end_ok st3 (jsmin_loop st3)" by (rule jsmin_loop_ok) (use T in \<open>auto simp: EOF_def\<close>)
    then have "end_ok st (jsmin_loop st3)" by (rule end_ok_mono) (use T c in blast)
    with JOk show ?thesis by (simp add: eq)
  qed
qed

text \<open>The initial values of \<open>the_a\<close> and \<open>the_b\<close> are never used.\<close>

lemma js_get_b: "js_get (st\<lparr>the_b := v\<rparr>) = (case js_get st of (c, st) \<Rightarrow> (c, st\<lparr>the_b := v\<rparr>))"
  by (simp add: js_get_def js_getc_def Let_def split: list.split)

lemma js_peek_b: "js_peek (st\<lparr>the_b := v\<rparr>) = (case js_peek st of (c, st) \<Rightarrow> (c, st\<lparr>the_b := v\<rparr>))"
  by (simp add: js_peek_def js_get_b split: prod.split)

lemma line_comment_b: "line_comment (st\<lparr>the_b := v\<rparr>) = (case line_comment st of (c, st) \<Rightarrow> (c, st\<lparr>the_b := v\<rparr>))"
proof (induction st rule: line_comment.induct)
  case (1 st)
  obtain a st1 where g: "js_get st = (a, st1)" by fastforce
  from 1(1) [OF g [symmetric]] show ?case
    by (simp add: line_comment.simps [of st] line_comment.simps [of "st\<lparr>the_b := v\<rparr>"] js_get_b g)
qed

lemma block_comment_b:
  "block_comment (st\<lparr>the_b := v\<rparr>) = bind_js (block_comment st) (\<lambda>st. JOk (st\<lparr>the_b := v\<rparr>))"
proof (induction st rule: block_comment.induct)
  case (1 st)
  obtain a st1 where g: "js_get st = (a, st1)" by fastforce
  obtain p st2 where k: "js_peek st1 = (p, st2)" by fastforce
  obtain q st3 where h: "js_get st2 = (q, st3)" by fastforce
  from 1(1) [OF g [symmetric] _ k [symmetric]] 1(2) [OF g [symmetric]] show ?case
    by (simp add: block_comment.simps [of st] block_comment.simps [of "st\<lparr>the_b := v\<rparr>"] js_get_b js_peek_b
        g k h js_error_def)
qed

lemma js_next_b: "js_next (st\<lparr>the_b := v\<rparr>) = bind_js (js_next st) (\<lambda>(c, st). JOk (c, st\<lparr>the_b := v\<rparr>))"
proof -
  obtain a st1 where g: "js_get st = (a, st1)" by fastforce
  obtain p st2 where k: "js_peek st1 = (p, st2)" by fastforce
  obtain q st3 where h: "js_get st2 = (q, st3)" by fastforce
  show ?thesis
    by (cases "block_comment st3")
      (simp_all add: js_next_def js_get_b js_peek_b line_comment_b block_comment_b g k h split: prod.split)
qed

lemma action_3_b: "action_3 (st\<lparr>the_b := v\<rparr>) = action_3 st"
  by (cases "js_next st") (simp_all add: action_3_def js_next_b split: prod.split)

lemma js_get_a: "js_get (st\<lparr>the_a := v\<rparr>) = (case js_get st of (c, st) \<Rightarrow> (c, st\<lparr>the_a := v\<rparr>))"
  by (simp add: js_get_def js_getc_def Let_def split: list.split)

lemma jsmin_unused: "jsmin (st\<lparr>the_a := u, the_b := v\<rparr>) = jsmin st"
proof -
  let ?u = "\<lambda>s :: jst. s\<lparr>the_a := u, the_b := v\<rparr>"
  have get: "js_get (?u s) = (case js_get s of (c, st) \<Rightarrow> (c, ?u st))" for s
    by (simp add: js_get_b js_get_a split: prod.split)
  then have snd: "snd (js_get (?u s)) = ?u (snd (js_get s))" for s by (simp split: prod.split)
  have peek: "js_peek (?u s) = (case js_peek s of (c, st) \<Rightarrow> (c, ?u st))" for s
    unfolding js_peek_def get by (simp split: prod.split)
  have act: "action_3 ((?u s)\<lparr>the_a := 10\<rparr>) = action_3 (s\<lparr>the_a := 10\<rparr>)" for s
  proof -
    have "(?u s)\<lparr>the_a := 10\<rparr> = (s\<lparr>the_a := 10\<rparr>)\<lparr>the_b := v\<rparr>" by simp
    then show ?thesis by (metis action_3_b)
  qed
  obtain c st1 where k: "js_peek st = (c, st1)" by fastforce
  have "jsmin (?u st) = bind_js (action_3 ((?u (if c = 0xEF then snd (js_get (snd (js_get (snd (js_get st1))))) else st1))
      \<lparr>the_a := 10\<rparr>)) jsmin_loop"
    unfolding jsmin_def peek k by (simp add: action_def snd)
  then show ?thesis unfolding act by (simp add: jsmin_def k action_def)
qed

section \<open>Strings and comments\<close>

text \<open>The body of a string literal delimited by \<open>q\<close>: no unescaped delimiter, complete escapes.\<close>

fun string_body :: "u8 \<Rightarrow> bytes \<Rightarrow> bool" where
  "string_body q [] \<longleftrightarrow> True"
| "string_body q (c # r) \<longleftrightarrow>
     c \<noteq> q \<and> (if c = 0x5C then (case r of [] \<Rightarrow> False | d # r \<Rightarrow> string_body q r) else string_body q r)"

lemma js_get_plain:
  assumes "look_ahead st = EOF" and "js_inp st = b # r" and "b = 10 \<or> 32 \<le> b"
  shows "js_get st = (uint b, st\<lparr>js_inp := r\<rparr>)"
proof -
  have "uint b = 10 \<or> 32 \<le> uint b" using assms(3) by (auto simp: word_le_def)
  with assms(1,2) show ?thesis by (auto simp: js_get_def js_getc_def Let_def)
qed

lemma putc_uint: "putc (uint b) st = st\<lparr>js_out := js_out st @ [b]\<rparr>"
  by (simp add: putc_def)

lemma string_loop_copies:
  assumes "string_body q body" and "plain_text body" and "32 \<le> q" and "q \<noteq> 0x5C"
    and "look_ahead st = EOF" and "js_inp st = body @ q # r" and "the_b st = uint q" and "the_a st = uint x"
  shows "string_loop st = JOk (st\<lparr>js_inp := r, the_a := uint q, js_out := js_out st @ x # body\<rparr>)"
  using assms
proof (induction q body arbitrary: st x rule: string_body.induct)
  case (1 q)
  have "js_get (putc (the_a st) st) = (uint q, (putc (the_a st) st)\<lparr>js_inp := r\<rparr>)"
    using 1 by (intro js_get_plain) simp_all
  with 1 show ?case by (simp add: string_loop.simps [of st] putc_uint)
next
  case (2 q c body)
  have g: "js_get (putc (the_a st) st) = (uint c, (putc (the_a st) st)\<lparr>js_inp := body @ q # r\<rparr>)"
    using 2 by (intro js_get_plain) (simp_all add: plain_text_def)
  have ne: "uint c \<noteq> uint q" using 2(3) by (simp add: word_uint_eq_iff)
  let ?st1 = "(putc (the_a st) st)\<lparr>js_inp := body @ q # r\<rparr>"
  have nb: "uint c \<noteq> the_b ?st1" using ne 2(9) by simp
  show ?case
  proof (cases "c = 0x5C")
    case False
    then have "uint c \<noteq> 92" by (simp add: word_uint_eq_iff)
    then have "string_loop st = string_loop (?st1\<lparr>the_a := uint c\<rparr>)"
      using nb by (simp add: string_loop.simps [of st] g esc_get_def EOF_def)
    also have "\<dots> = JOk (?st1\<lparr>js_inp := r, the_a := uint q, js_out := js_out ?st1 @ c # body\<rparr>)"
      using 2 False by (subst 2(2) [of _ c]) (simp_all add: plain_text_def)
    finally show ?thesis using 2 by (simp add: putc_uint)
  next
    case True
    then obtain d body' where b: "body = d # body'" "string_body q body'" using 2(3) by (auto split: list.splits)
    let ?st2 = "(putc (uint c) ?st1)\<lparr>js_inp := body' @ q # r\<rparr>"
    have "js_get (putc (uint c) ?st1) = (uint d, ?st2)"
      using 2 b by (intro js_get_plain) (simp_all add: plain_text_def)
    then have "string_loop st = string_loop (?st2\<lparr>the_a := uint d\<rparr>)"
      using nb True by (simp add: string_loop.simps [of st] g esc_get_def EOF_def)
    also have "\<dots> = JOk (?st2\<lparr>js_inp := r, the_a := uint q, js_out := js_out ?st2 @ d # body'\<rparr>)"
      using 2 True b by (subst 2(1) [OF True b(1), of _ d]) (simp_all add: plain_text_def)
    finally show ?thesis using 2 b by (simp add: putc_uint)
  qed
qed

text \<open>
  What is still to be read, the character in \<open>look_ahead\<close> first, and what the reading functions do to
  it when it starts with a plain character.
\<close>

definition rest :: "jst \<Rightarrow> int list" where
  "rest st = (if look_ahead st = EOF then map uint (js_inp st) else look_ahead st # map uint (js_inp st))"

lemma rest_fields [simp]:
  "rest (st\<lparr>the_a := a\<rparr>) = rest st" "rest (st\<lparr>the_b := a\<rparr>) = rest st" "rest (st\<lparr>the_x := a\<rparr>) = rest st"
  "rest (st\<lparr>the_y := a\<rparr>) = rest st" "rest (putc c st) = rest st"
  by (simp_all add: rest_def)

lemma get_rest:
  assumes "rest st = c # cs" and "c = 10 \<or> 32 \<le> c"
  obtains st' where "js_get st = (c, st')" and "rest st' = cs" and "same_vars st st'" and "look_ahead st' = EOF"
proof -
  have "js_get st = (c, snd (js_get st)) \<and> rest (snd (js_get st)) = cs"
    using assms by (cases "js_inp st") (auto simp: rest_def js_get_def js_getc_def Let_def split: if_splits)
  with js_get_facts(3) [of st c "snd (js_get st)"] js_get_left [of st c "snd (js_get st)"] that show thesis by blast
qed

lemma get_rest_Nil:
  assumes "rest st = []"
  shows "js_get st = (EOF, st)"
  using assms by (cases "js_inp st") (auto simp: rest_def js_get_def js_getc_def Let_def split: if_splits)

lemma peek_rest:
  assumes "rest st = c # cs" and "c = 10 \<or> 32 \<le> c"
  obtains st' where "js_peek st = (c, st')" and "rest st' = c # cs" and "same_vars st st'"
proof -
  obtain st1 where g: "js_get st = (c, st1)" "rest st1 = cs" "same_vars st st1" "look_ahead st1 = EOF"
    using get_rest [OF assms] .
  have "c \<noteq> EOF" using assms(2) by (auto simp: EOF_def)
  with g that [of "st1\<lparr>look_ahead := c\<rparr>"] show thesis by (simp add: js_peek_def rest_def same_vars_def)
qed

lemma next_rest:
  assumes "rest st = c # cs" and "c = 10 \<or> 32 \<le> c" and "c \<noteq> jc CHR ''/''"
  obtains st' where "js_next st = JOk (c, st')" and "rest st' = cs" and "the_a st' = the_a st"
    and "js_out st' = js_out st" and "look_ahead st' = EOF"
proof -
  obtain st1 where "js_get st = (c, st1)" "rest st1 = cs" "same_vars st st1" "look_ahead st1 = EOF"
    using get_rest [OF assms(1,2)] .
  with assms(3) that [of "st1\<lparr>the_y := the_x st1, the_x := c\<rparr>"] show thesis
    by (simp add: js_next_def same_vars_def)
qed

lemma next_rest_Nil:
  assumes "rest st = []"
  obtains st' where "js_next st = JOk (EOF, st')" and "rest st' = []" and "the_a st' = the_a st"
    and "js_out st' = js_out st"
proof -
  have "EOF \<noteq> 47" by (simp add: EOF_def)
  with that [of "st\<lparr>the_y := the_x st, the_x := EOF\<rparr>"] get_rest_Nil [OF assms] assms show thesis
    by (simp add: js_next_def)
qed

text \<open>At the end of the input the loop moves \<open>EOF\<close> to \<open>the_a\<close>, printing \<open>the_a\<close> unless it is a blank.\<close>

lemma loop_at_end:
  assumes "rest st = []" and "the_b st = EOF" and "the_a st \<noteq> EOF"
  shows "\<exists>st'. jsmin_loop st = JOk st' \<and>
           js_out st' = js_out st @ (if the_a st = 10 \<or> the_a st = 32 then [] else [word_of_int (the_a st)])"
proof -
  let ?s = "\<lambda>st. st\<lparr>the_a := EOF\<rparr> :: jst"
  have two: "\<exists>st'. action_2 s = JOk st' \<and> the_a st' = EOF \<and> js_out st' = js_out s"
    if s: "rest s = []" "the_b s = EOF" for s
  proof -
    obtain st' where "js_next (?s s) = JOk (EOF, st')" "the_a st' = EOF" "js_out st' = js_out s"
      using next_rest_Nil [of "?s s"] s(1) by auto
    with s(2) show ?thesis by (simp add: action_2_def action_3_def Let_def EOF_def is_quote_def)
  qed
  have stop: "jsmin_loop st' = JOk st'" if "the_a st' = EOF" for st'
    using that by (simp add: jsmin_loop.simps)
  show ?thesis
  proof (cases "the_a st = 10 \<or> the_a st = 32")
    case True
    then have "choose_action (the_a st) (the_b st) = 2"
      using assms(2) by (auto simp: choose_action_def EOF_def is_alphanum_def)
    with two [OF assms(1,2)] stop True assms(3) show ?thesis
      by (auto simp: jsmin_loop.simps [of st] action_def)
  next
    case False
    then have "choose_action (the_a st) (the_b st) = 1"
      using assms(2) by (auto simp: choose_action_def EOF_def)
    moreover have "\<not> is_sign EOF" by (simp add: is_sign_def EOF_def)
    moreover obtain st' where "action_2 (putc (the_a st) st) = JOk st'" "the_a st' = EOF"
      "js_out st' = js_out (putc (the_a st) st)"
      using two [of "putc (the_a st) st"] assms(1,2) by auto
    ultimately show ?thesis using stop False assms(2,3)
      by (auto simp: jsmin_loop.simps [of st] action_def action_1_def Let_def putc_def)
  qed
qed

lemma jsmin_start:
  assumes "rest st = c # cs" and "c = 10 \<or> 32 \<le> c" and "c \<noteq> 0xEF"
  obtains st' where "jsmin st = bind_js (action_3 (st'\<lparr>the_a := 10\<rparr>)) jsmin_loop"
    and "rest st' = c # cs" and "js_out st' = js_out st"
proof -
  obtain st1 where "js_peek st = (c, st1)" "rest st1 = c # cs" "same_vars st st1"
    using peek_rest [OF assms(1,2)] .
  with assms(3) that [of st1] show thesis by (simp add: jsmin_def action_def same_vars_def)
qed

lemma map_uint_inject: "map uint xs = map uint (ys :: bytes) \<Longrightarrow> xs = ys"
  by (rule map_injective) (auto simp: inj_def word_uint_eq_iff)

lemma jsmin_string:
  assumes "q \<in> {0x27, 0x22, 0x60}" and "string_body q body" and "plain_text body"
  shows "jsmin_main [prog] (q # body @ [q]) = (0, q # body @ [q])"
proof -
  let ?st0 = "jst0 (q # body @ [q]) []"
  have q: "32 \<le> q" "q \<noteq> 0x5C" "uint q \<in> {39, 34, 96}" using assms(1) by (auto simp: word_le_def)
  then have c: "uint q = 10 \<or> 32 \<le> uint q" "uint q \<noteq> 0xEF" "uint q \<noteq> jc CHR ''/''" "uint q \<noteq> EOF"
    by (auto simp: EOF_def)
  have "rest ?st0 = uint q # map uint (body @ [q])" by (simp add: rest_def jst0_def)
  then obtain st1 where s1: "jsmin ?st0 = bind_js (action_3 (st1\<lparr>the_a := 10\<rparr>)) jsmin_loop"
    "rest st1 = uint q # map uint (body @ [q])" "js_out st1 = []"
    by (rule jsmin_start [OF _ c(1,2)]) (use that in \<open>simp add: jst0_def\<close>)
  obtain st2 where s2: "js_next (st1\<lparr>the_a := 10\<rparr>) = JOk (uint q, st2)" "rest st2 = map uint (body @ [q])"
    "the_a st2 = 10" "js_out st2 = []" "look_ahead st2 = EOF"
    using next_rest [of "st1\<lparr>the_a := 10\<rparr>", OF _ c(1,3)] s1(2,3) by auto
  let ?st2 = "st2\<lparr>the_b := uint q\<rparr>"
  have run1: "jsmin ?st0 = jsmin_loop ?st2" using s1(1) s2(1) c(3) by (simp add: action_3_def Let_def)
  have inp: "js_inp st2 = body @ [q]" using s2(2,5) by (intro map_uint_inject) (simp add: rest_def)
  have two: "choose_action 10 (uint q) = 2" "is_quote (uint q)"
    using q(3) by (auto simp: choose_action_def is_alphanum_def is_quote_def)
  let ?st3 = "st2\<lparr>the_b := uint q, js_inp := [], the_a := uint q, js_out := q # body\<rparr>"
  have "string_loop (?st2\<lparr>the_a := uint q\<rparr>) = JOk ?st3"
    using string_loop_copies [OF assms(2,3) q(1,2), of "?st2\<lparr>the_a := uint q\<rparr>" "[]" q] s2 inp by simp
  then have run2: "action 2 ?st2 = action_3 ?st3" using two by (simp add: action_def action_2_def Let_def)
  have "rest ?st3 = []" using s2(5) by (simp add: rest_def)
  from next_rest_Nil [OF this] obtain st4 where s4: "js_next ?st3 = JOk (EOF, st4)" "rest st4 = []"
    "the_a st4 = uint q" "js_out st4 = q # body" by auto
  have "action_3 ?st3 = JOk (st4\<lparr>the_b := EOF\<rparr>)" using s4(1) by (simp add: action_3_def EOF_def)
  then have "jsmin ?st0 = jsmin_loop (st4\<lparr>the_b := EOF\<rparr>)"
    using run1 run2 two s2(3) by (simp add: jsmin_loop.simps [of ?st2] EOF_def)
  moreover have "uint q \<noteq> 10 \<and> uint q \<noteq> 32" using q(3) by auto
  ultimately show ?thesis
    using loop_at_end [of "st4\<lparr>the_b := EOF\<rparr>"] s4 c(4) by (auto simp: jsmin_main_def)
qed

lemma line_comment_rest:
  fixes t :: bytes
  assumes "rest st = map uint t" and "list_all (\<lambda>b. 32 \<le> b) t"
  shows "\<exists>st'. line_comment st = (EOF, st') \<and> rest st' = [] \<and> same_vars st st'"
  using assms
proof (induction t arbitrary: st)
  case Nil
  then show ?case using get_rest_Nil [of st] by (simp add: line_comment.simps [of st] EOF_def)
next
  case (Cons b t)
  then have b: "32 \<le> uint b" by (simp add: word_le_def)
  with get_rest [of st "uint b" "map uint t"] Cons.prems(1) obtain st1 where
    g: "js_get st = (uint b, st1)" "rest st1 = map uint t" "same_vars st st1" by auto
  from Cons.IH [OF g(2)] Cons.prems(2) g(3) b show ?case
    by (auto simp: line_comment.simps [of st] g(1) intro: same_vars_trans)
qed

text \<open>No end of a comment inside.\<close>

fun no_end :: "bytes \<Rightarrow> bool" where
  "no_end (b # c # r) \<longleftrightarrow> \<not> (b = 0x2A \<and> c = 0x2F) \<and> no_end (c # r)"
| "no_end _ \<longleftrightarrow> True"

lemma block_comment_rest:
  assumes "rest st = map uint (t @ [0x2A, 0x2F])" and "plain_text t" and "no_end t"
  shows "\<exists>st'. block_comment st = JOk st' \<and> rest st' = [] \<and> same_vars st st'"
  using assms
proof (induction t arbitrary: st)
  case Nil
  then have "rest st = 42 # 47 # []" by simp
  then obtain st1 where g: "js_get st = (42, st1)" "rest st1 = [47]" "same_vars st st1"
    using get_rest [of st 42 "[47]"] by auto
  obtain st2 where k: "js_peek st1 = (47, st2)" "rest st2 = [47]" "same_vars st1 st2"
    using peek_rest [OF g(2)] by auto
  obtain st3 where h: "js_get st2 = (47, st3)" "rest st3 = []" "same_vars st2 st3"
    using get_rest [OF k(2)] by auto
  from g k h show ?case by (auto simp: block_comment.simps [of st] intro: same_vars_trans)
next
  case (Cons b t)
  have b: "uint b = 10 \<or> 32 \<le> uint b" using Cons.prems(2) by (auto simp: plain_text_def word_le_def)
  obtain st1 where g: "js_get st = (uint b, st1)" "rest st1 = map uint (t @ [0x2A, 0x2F])" "same_vars st st1"
    using get_rest [of st "uint b" "map uint (t @ [0x2A, 0x2F])"] Cons.prems(1) b by auto
  have nt: "no_end t" "plain_text t" using Cons.prems(2,3) by (cases t; simp add: plain_text_def)+
  show ?case
  proof (cases "b = 0x2A")
    case False
    then have "uint b \<noteq> 42" by (simp add: word_uint_eq_iff)
    moreover have "uint b \<noteq> EOF" using b by (auto simp: EOF_def)
    ultimately have "block_comment st = block_comment st1" using g(1) by (simp add: block_comment.simps [of st])
    with Cons.IH [OF g(2) nt(2,1)] g(3) show ?thesis by (auto intro: same_vars_trans)
  next
    case True
    define c where "c = (case t of [] \<Rightarrow> 0x2A | d # _ \<Rightarrow> d)"
    have c: "c \<noteq> 0x2F" "c = 10 \<or> 32 \<le> c"
      using Cons.prems(2,3) True by (auto simp: c_def plain_text_def word_le_def split: list.splits)
    have "rest st1 = uint c # tl (rest st1)" using g(2) by (cases t) (simp_all add: c_def)
    moreover have "uint c = 10 \<or> 32 \<le> uint c" using c(2) by (auto simp: word_le_def)
    ultimately obtain st2 where k: "js_peek st1 = (uint c, st2)" "rest st2 = rest st1" "same_vars st1 st2"
      using peek_rest by metis
    have "uint c \<noteq> 47" using c(1) by (simp add: word_uint_eq_iff)
    then have "block_comment st = block_comment st2" using g(1) k(1) True by (simp add: block_comment.simps [of st])
    with Cons.IH [of st2] nt g(2,3) k show ?thesis by (auto intro: same_vars_trans)
  qed
qed

text \<open>A run on nothing but a comment: the loop sees a blank, or the end.\<close>

lemma comment_run:
  assumes "js_next st = JOk (c, st1)" and "c = 32 \<or> c = EOF" and "rest st1 = []" and "the_a st1 = 10"
    and "js_out st1 = []"
  shows "\<exists>st'. bind_js (action_3 st) jsmin_loop = JOk st' \<and> js_out st' = []"
proof -
  have "action_3 st = JOk (st1\<lparr>the_b := c\<rparr>)" using assms(1,2) by (auto simp: action_3_def EOF_def)
  moreover have "\<exists>st'. jsmin_loop (st1\<lparr>the_b := c\<rparr>) = JOk st' \<and> js_out st' = []"
  proof (cases "c = EOF")
    case True
    with loop_at_end [of "st1\<lparr>the_b := c\<rparr>"] assms(3,4,5) show ?thesis by (simp add: EOF_def)
  next
    case False
    then have c: "c = 32" using assms(2) by blast
    obtain st2 where n: "js_next (st1\<lparr>the_b := 32\<rparr>) = JOk (EOF, st2)" "rest st2 = []" "the_a st2 = 10" "js_out st2 = []"
      using next_rest_Nil [of "st1\<lparr>the_b := 32\<rparr>"] assms(3,4,5) by auto
    have "action 3 (st1\<lparr>the_b := 32\<rparr>) = JOk (st2\<lparr>the_b := EOF\<rparr>)"
      using n(1) by (simp add: action_def action_3_def EOF_def)
    moreover have "choose_action 10 32 = 3" by (simp add: choose_action_def)
    ultimately have "jsmin_loop (st1\<lparr>the_b := c\<rparr>) = jsmin_loop (st2\<lparr>the_b := EOF\<rparr>)"
      using assms(4) c by (simp add: jsmin_loop.simps [of "st1\<lparr>the_b := 32\<rparr>"] EOF_def)
    with loop_at_end [of "st2\<lparr>the_b := EOF\<rparr>"] n(2,3,4) show ?thesis by (simp add: EOF_def)
  qed
  ultimately show ?thesis by simp
qed

lemma jsmin_comment:
  assumes "(\<exists>t. inp = 0x2F # 0x2F # t \<and> list_all (\<lambda>b. 32 \<le> b) t) \<or>
           (\<exists>t. inp = 0x2F # 0x2A # t @ [0x2A, 0x2F] \<and> plain_text t \<and> no_end t)"
  shows "jsmin_main [prog] inp = (0, [])"
proof -
  obtain d cs where d: "rest (jst0 inp []) = 47 # d # cs" "32 \<le> d"
    using assms by (auto simp: rest_def jst0_def)
  obtain st1 where s1: "jsmin (jst0 inp []) = bind_js (action_3 (st1\<lparr>the_a := 10\<rparr>)) jsmin_loop"
    "rest st1 = 47 # d # cs" "js_out st1 = []"
    by (rule jsmin_start [OF d(1)]) (use that in \<open>simp_all add: jst0_def\<close>)
  let ?st = "st1\<lparr>the_a := 10\<rparr>"
  obtain st2 where g: "js_get ?st = (47, st2)" "rest st2 = d # cs" "same_vars ?st st2"
    using get_rest [of ?st 47 "d # cs"] s1(2) by auto
  obtain st3 where k: "js_peek st2 = (d, st3)" "rest st3 = d # cs" "same_vars st2 st3"
    using peek_rest [OF g(2)] d(2) by auto
  have sv: "same_vars ?st st3" using g(3) k(3) by (rule same_vars_trans)
  have "\<exists>c st5. js_next ?st = JOk (c, st5) \<and> (c = 32 \<or> c = EOF) \<and> rest st5 = [] \<and> the_a st5 = 10 \<and> js_out st5 = []"
    using assms
  proof
    assume "\<exists>t. inp = 0x2F # 0x2F # t \<and> list_all (\<lambda>b. 32 \<le> b) t"
    then obtain t where t: "inp = 0x2F # 0x2F # t" "list_all (\<lambda>b. 32 \<le> b) t" by blast
    with d(1) have "d = 47" "rest st3 = map uint (0x2F # t)" using k(2) by (auto simp: rest_def jst0_def)
    moreover have "list_all (\<lambda>b. 32 \<le> b) (0x2F # t)" using t(2) by (simp add: word_le_def)
    ultimately obtain st4 where "line_comment st3 = (EOF, st4)" "rest st4 = []" "same_vars st3 st4"
      using line_comment_rest by blast
    with g(1) k(1) sv s1(3) \<open>d = 47\<close> show ?thesis by (simp add: js_next_def same_vars_def)
  next
    assume "\<exists>t. inp = 0x2F # 0x2A # t @ [0x2A, 0x2F] \<and> plain_text t \<and> no_end t"
    then obtain t where t: "inp = 0x2F # 0x2A # t @ [0x2A, 0x2F]" "plain_text t" "no_end t" by blast
    with d(1) have "d = 42" "cs = map uint (t @ [0x2A, 0x2F])" by (auto simp: rest_def jst0_def)
    moreover obtain st4 where h: "js_get st3 = (d, st4)" "rest st4 = cs" "same_vars st3 st4"
      using get_rest [OF k(2)] d(2) by auto
    ultimately obtain st5 where "block_comment st4 = JOk st5" "rest st5 = []" "same_vars st4 st5"
      using block_comment_rest [OF _ t(2,3)] by blast
    with g(1) k(1) h sv s1(3) \<open>d = 42\<close> show ?thesis by (simp add: js_next_def same_vars_def)
  qed
  then show ?thesis using comment_run [of ?st] s1(1) by (fastforce simp: jsmin_main_def)
qed

section \<open>Properties\<close>

text \<open>
  C40. The minifier always ends: it stops with code 1 through \<open>error\<close>, or it has read all of its input
  (no character is left and \<open>the_a\<close> is \<open>EOF\<close>) and stops with code 0. What it has written by then has no control characters other than line feeds: tabs and
  carriage returns are gone.
\<close>

theorem jsmin_output_plain:
  "end_ok (jst0 inp []) (jsmin (jst0 inp [])) \<and> plain_text (snd (jsmin_main [prog] inp)) \<and>
   (fst (jsmin_main [prog] inp) = 0 \<or> fst (jsmin_main [prog] inp) = 1)"
proof -
  let ?st = "(jst0 inp [])\<lparr>the_a := EOF, the_b := EOF\<rparr>"
  have "clean ?st" by (simp add: clean_def jst0_def plain_text_def)
  with jsmin_ok [of ?st] have "case jsmin (jst0 inp []) of JErr e out \<Rightarrow> plain_text out | JOk st \<Rightarrow> plain_text (js_out st)"
    unfolding jsmin_unused by (cases "jsmin (jst0 inp [])") (simp_all add: clean_def)
  moreover have "end_ok (jst0 inp []) (jsmin (jst0 inp []))" by (rule jsmin_ok)
  ultimately show ?thesis by (simp add: jsmin_main_def split: js.splits)
qed

text \<open>
  String literals are copied verbatim: on an input that is a string literal in single or double
  quotes or backquotes, with any escapes and any plain characters inside, also comment markers, the
  output is the input.
\<close>

theorem jsmin_keeps_strings:
  assumes "q \<in> {0x27, 0x22, 0x60}" and "string_body q body" and "plain_text body"
  shows "jsmin_main [prog] (q # body @ [q]) = (0, q # body @ [q])"
  by (rule jsmin_string [OF assms])

theorem jsmin_keeps_strings_witness:
  "jsmin_main [[]] (0x22 # str ''a // b'' @ [0x5C, 0x22] @ [0x22]) = (0, 0x22 # str ''a // b'' @ [0x5C, 0x22] @ [0x22])"
proof -
  have "string_body 0x22 (str ''a // b'' @ [0x5C, 0x22])" "plain_text (str ''a // b'' @ [0x5C, 0x22])"
    by (simp_all add: bytes_simps plain_text_def word_le_def)
  from jsmin_keeps_strings [OF _ this, of "[]"] show ?thesis by simp
qed

text \<open>
  Comments vanish: on an input that is one line comment, or one block comment of any plain text
  (also with stars and slashes inside), the output is empty.
\<close>

theorem jsmin_drops_comments:
  assumes "list_all (\<lambda>b. 32 \<le> b) s" and "plain_text t" and "no_end t"
  shows "jsmin_main [prog] (str ''//'' @ s) = (0, []) \<and> jsmin_main [prog] (str ''/*'' @ t @ str ''*/'') = (0, [])"
  using assms by (intro conjI jsmin_comment) (auto simp: bytes_simps)

theorem jsmin_drops_comments_witness:
  "jsmin_main [[]] (str ''// a'') = (0, []) \<and> jsmin_main [[]] (str ''/** / *'' @ str ''*/'') = (0, [])"
proof -
  have "list_all (\<lambda>b. 32 \<le> b) (str '' a'')" "plain_text (str ''* / *'')" "no_end (str ''* / *'')"
    by (simp_all add: bytes_simps plain_text_def word_le_def)
  from jsmin_drops_comments [OF this, of "[]"] show ?thesis by (simp add: bytes_simps)
qed

end
