(* ===== verification/Config.thy ===== *)
theory Config
  imports Prelude
begin

text \<open>
  The engine of \<^verbatim>\<open>configurator.c\<close>, the tool that writes \<^verbatim>\<open>config.h\<close>: the table of tests,
  reading a stream, running a shell command, and \<open>run_test\<close> with its dependencies and overrides. The
  shell and the file system are outside the repository and are the record \<open>cenv\<close>: \<open>shell n cmd src\<close>
  is what the \<open>n\<close>th command started delivers (its output and its status) when the test program in
  \<^verbatim>\<open>configuratortest.c\<close> is \<open>src\<close>, or \<open>None\<close> when \<^verbatim>\<open>popen\<close> or reading fails. \<open>CExit\<close> is an
  exit with a code and \<open>CCrash\<close> undefined behaviour. \<open>run_test\<close> recurses over the dependencies, so it
  takes a bound on the depth of the recursion; \<open>None\<close> is a recursion that is deeper.
\<close>

section \<open>Constants\<close>

definition EXIT_BAD_USAGE :: int where "EXIT_BAD_USAGE = 1"
definition EXIT_TROUBLE_RUNNING :: int where "EXIT_TROUBLE_RUNNING = 2"
definition EXIT_BAD_TEST :: int where "EXIT_BAD_TEST = 3"
definition EXIT_BAD_INPUT :: int where "EXIT_BAD_INPUT = 4"
definition OUTPUT_FILE :: cstr where "OUTPUT_FILE = str ''configurator.out''"
definition INPUT_FILE :: cstr where "INPUT_FILE = str ''configuratortest.c''"
definition DIR_SEP :: cstr where "DIR_SEP = str ''/''"
definition BUFSIZ :: nat where "BUFSIZ = 8192"

definition PRE_BOILERPLATE :: cstr where
  "PRE_BOILERPLATE = str ''/* Test program generated by configurator. */'' @ [10]"
definition MAIN_START_BOILERPLATE :: cstr where
  "MAIN_START_BOILERPLATE =
     str ''int main(int argc, char *argv[]) {'' @ [10, 9] @ str ''(void)argc;'' @ [10, 9] @ str ''(void)argv;'' @ [10]"
definition USE_FUNC_BOILERPLATE :: cstr where "USE_FUNC_BOILERPLATE = str ''(void)func;'' @ [10]"
definition MAIN_BODY_BOILERPLATE :: cstr where "MAIN_BODY_BOILERPLATE = str ''return 0;'' @ [10]"
definition MAIN_END_BOILERPLATE :: cstr where "MAIN_END_BOILERPLATE = str ''}'' @ [10]"

section \<open>State\<close>

record test =
  t_name :: cstr
  t_desc :: cstr
  t_style :: cstr
  t_depends :: "cstr option"
  t_link :: "cstr option"
  t_fragment :: cstr
  t_flags :: "cstr option"
  t_overrides :: "cstr option"
  t_done :: bool
  t_answer :: bool

text \<open>The static variables set from the command line, and those that change while tests run.\<close>

record conf =
  verbose :: nat
  like_a_libtool :: bool

record cst =
  c_tests :: "test list"
  c_calls :: nat
  c_out :: cstr

record cenv =
  shell :: "nat \<Rightarrow> cstr \<Rightarrow> cstr \<Rightarrow> (bytes \<times> int) option"
  can_create :: "cstr \<Rightarrow> bool"

datatype 'a cres = CExit int | CCrash | COk 'a

fun bind_c :: "'a cres \<Rightarrow> ('a \<Rightarrow> 'b cres) \<Rightarrow> 'b cres" where
  "bind_c (CExit code) f = CExit code"
| "bind_c CCrash f = CCrash"
| "bind_c (COk x) f = f x"

definition emit :: "cstr \<Rightarrow> cst \<Rightarrow> cst" where
  "emit s st = st\<lparr>c_out := c_out st @ s\<rparr>"

definition c12r_err :: "int \<Rightarrow> 'a cres" where "c12r_err eval = CExit eval"
definition c12r_errx :: "int \<Rightarrow> 'a cres" where "c12r_errx eval = CExit eval"

definition start_test :: "conf \<Rightarrow> cstr \<Rightarrow> cstr \<Rightarrow> cst \<Rightarrow> cst" where
  "start_test cf what why st = (if like_a_libtool cf then emit (what @ why @ str ''... '') st else st)"

definition end_test :: "conf \<Rightarrow> bool \<Rightarrow> cst \<Rightarrow> cst" where
  "end_test cf result st =
     (if like_a_libtool cf then emit ((if result then str ''yes'' else str ''no'') @ [10]) st else st)"

section \<open>Streams\<close>

text \<open>
  \<^verbatim>\<open>fread\<close> of up to \<open>n\<close> bytes: those read and the rest of the stream. \<open>fcopy\<close> returns the count
  and what is written.
\<close>

definition fread :: "nat \<Rightarrow> bytes \<Rightarrow> bytes \<times> bytes" where
  "fread n s = (take n s, drop n s)"

function fcopy_loop :: "bytes \<Rightarrow> nat \<Rightarrow> bytes \<Rightarrow> nat \<times> bytes" where
  "fcopy_loop src copied dst =
     (case fread BUFSIZ src of (buffer, src') \<Rightarrow>
        if length buffer > 0 then fcopy_loop src' (copied + length buffer) (dst @ buffer) else (copied, dst))"
  by pat_completeness auto
termination
  by (relation "measure (\<lambda>(src, copied, dst). length src)") (auto simp: fread_def BUFSIZ_def)

declare fcopy_loop.simps [simp del]

definition fcopy :: "bytes \<Rightarrow> bytes \<Rightarrow> nat \<times> bytes" where
  "fcopy src dst = fcopy_loop src 0 dst"

text \<open>
  The loop of \<open>grab_stream\<close>: \<open>buffer\<close> is what has been read, and the allocation has doubled \<open>k\<close> times.
  The result is the contents and the final size of the allocation; the terminating NUL needs one
  byte more than the contents.
\<close>

function grab_loop :: "nat \<Rightarrow> bytes \<Rightarrow> bytes \<Rightarrow> bytes \<times> nat" where
  "grab_loop k buffer file =
     (let mx = BUFSIZ * 2 ^ k
      in case fread (mx - length buffer) file of (got, file') \<Rightarrow>
           if length got = mx - length buffer then grab_loop (k + 1) (buffer @ got) file'
           else (buffer @ got, mx))"
  by pat_completeness auto
termination
proof (relation "measures [\<lambda>(k, buffer, file). length file, \<lambda>(k, buffer, file). Suc (length buffer) - BUFSIZ * 2 ^ k]",
    goal_cases)
  case (2 k buffer s mx got s')
  have pos: "0 < BUFSIZ * 2 ^ k" by (simp add: BUFSIZ_def)
  from 2 have f: "got = take (mx - length buffer) s" "s' = drop (mx - length buffer) s"
    by (simp_all add: fread_def)
  with 2 have len: "mx - length buffer \<le> length s" by simp
  show ?case
  proof (cases "mx \<le> length buffer")
    case True
    with f 2 pos show ?thesis by (auto simp: less_Suc_eq_le intro!: diff_less_mono2)
  next
    case False
    then have "length s' < length s" using f(2) len by simp
    then show ?thesis by simp
  qed
qed auto

declare grab_loop.simps [simp del]

definition grab_stream :: "bytes \<Rightarrow> bytes \<times> nat" where
  "grab_stream file = grab_loop 0 [] file"

section \<open>Commands\<close>

definition c_str :: "bytes \<Rightarrow> cstr" where
  "c_str buffer = takeWhile (\<lambda>b. b \<noteq> 0) buffer"

fun strstr :: "cstr \<Rightarrow> cstr \<Rightarrow> bool" where
  "strstr [] needle \<longleftrightarrow> needle = []"
| "strstr (c # s) needle \<longleftrightarrow> take (length needle) (c # s) = needle \<or> strstr s needle"

text \<open>\<open>src\<close> is the contents of the test program's file when the command runs.\<close>

definition run :: "cenv \<Rightarrow> cstr \<Rightarrow> cstr \<Rightarrow> cst \<Rightarrow> (cstr \<times> int \<times> cst) cres" where
  "run env cmd src st =
     (case shell env (c_calls st) (cmd @ str '' 2>&1'') src of
        None \<Rightarrow> c12r_err EXIT_TROUBLE_RUNNING
      | Some (file, exitstatus) \<Rightarrow>
          COk (c_str (fst (grab_stream file)), exitstatus, st\<lparr>c_calls := c_calls st + 1\<rparr>))"

text \<open>\<open>argv\<close> without its first entry.\<close>

fun join_args :: "cstr list \<Rightarrow> cstr \<Rightarrow> cstr" where
  "join_args [] outflag = []"
| "join_args (a # as) outflag = a @ (if as \<noteq> [] \<or> outflag \<noteq> [] then str '' '' else []) @ join_args as outflag"

definition connect_args :: "cstr list \<Rightarrow> cstr \<Rightarrow> cstr \<Rightarrow> cstr" where
  "connect_args argv outflag files = join_args (tl argv) outflag @ outflag @ files"

fun find_name :: "cstr \<Rightarrow> test list \<Rightarrow> nat \<Rightarrow> nat option" where
  "find_name name [] i = None"
| "find_name name (t # ts) i = (if t_name t = name then Some i else find_name name ts (i + 1))"

definition find_test :: "cstr \<Rightarrow> cst \<Rightarrow> nat cres" where
  "find_test name st =
     (case find_name name (c_tests st) 0 of Some i \<Rightarrow> COk i | None \<Rightarrow> c12r_errx EXIT_BAD_TEST)"

section \<open>One test\<close>

definition test_source :: "test \<Rightarrow> cstr cres" where
  "test_source t =
     (if strstr (t_style t) (str ''INSIDE_MAIN'') then
        COk (PRE_BOILERPLATE @ MAIN_START_BOILERPLATE @ t_fragment t @ MAIN_END_BOILERPLATE)
      else if strstr (t_style t) (str ''OUTSIDE_MAIN'') then
        COk (PRE_BOILERPLATE @ t_fragment t @ MAIN_START_BOILERPLATE @ MAIN_BODY_BOILERPLATE @ MAIN_END_BOILERPLATE)
      else if strstr (t_style t) (str ''DEFINES_FUNC'') then
        COk (PRE_BOILERPLATE @ t_fragment t @ MAIN_START_BOILERPLATE @ USE_FUNC_BOILERPLATE @ MAIN_BODY_BOILERPLATE
             @ MAIN_END_BOILERPLATE)
      else if strstr (t_style t) (str ''DEFINES_EVERYTHING'') then COk (PRE_BOILERPLATE @ t_fragment t)
      else c12r_errx EXIT_BAD_TEST)"

definition add_words :: "conf \<Rightarrow> string \<Rightarrow> cstr option \<Rightarrow> cstr \<times> cst \<Rightarrow> cstr \<times> cst" where
  "add_words cf label extra s =
     (case (extra, s) of
        (None, _) \<Rightarrow> s
      | (Some w, (newcmd, st)) \<Rightarrow>
          let newcmd = newcmd @ str '' '' @ w
          in (newcmd, if verbose cf > 1 then emit (str label @ newcmd) st else st))"

definition compile_cmd :: "conf \<Rightarrow> cstr \<Rightarrow> test \<Rightarrow> cst \<Rightarrow> cstr \<times> cst" where
  "compile_cmd cf cmd t st =
     add_words cf ''Extra link line: '' (t_link t) (add_words cf ''Extra flags line: '' (t_flags t) (cmd, st))"

definition compile_failed :: "conf \<Rightarrow> test \<Rightarrow> cstr \<Rightarrow> int \<Rightarrow> cst \<Rightarrow> (bool \<times> cst) cres" where
  "compile_failed cf t output status st =
     (let st = (if verbose cf > 0 then
                  emit (str ''Compile '' @ (if status \<noteq> 0 then str ''fail'' else str ''warning'') @ str '' for ''
                        @ t_name t @ str '', status '' @ dec_s status @ str '': '' @ output @ [10]) st
                else st)
      in if strstr (t_style t) (str ''EXECUTE'') \<and> \<not> strstr (t_style t) (str ''MAY_NOT_COMPILE'')
         then c12r_errx EXIT_BAD_TEST
         else COk (False, st))"

definition execute_test :: "cenv \<Rightarrow> conf \<Rightarrow> cstr \<Rightarrow> test \<Rightarrow> cstr \<Rightarrow> cst \<Rightarrow> (bool \<times> cst) cres" where
  "execute_test env cf wrapper t src st =
     (if strstr (t_style t) (str ''EXECUTE'') \<or> strstr (t_style t) (str ''INSIDE_MAIN'') then
        bind_c (run env (wrapper @ str '' .'' @ DIR_SEP @ OUTPUT_FILE) src st) (\<lambda>(output, status, st).
          if \<not> strstr (t_style t) (str ''EXECUTE'') \<and> status \<noteq> 0 then c12r_errx EXIT_BAD_TEST
          else COk (status = 0,
                    if verbose cf > 0 \<and> status \<noteq> 0
                    then emit (t_name t @ str '' exited '' @ dec_s status @ [10]) st else st))
      else COk (True, st))"

definition show_source :: "conf \<Rightarrow> cstr \<Rightarrow> cst \<Rightarrow> cst" where
  "show_source cf src st = (if verbose cf > 1 then st\<lparr>c_out := snd (fcopy src (c_out st))\<rparr> else st)"

text \<open>Compiling and running the program of one test, once its dependencies hold.\<close>

definition try_test :: "cenv \<Rightarrow> conf \<Rightarrow> cstr \<Rightarrow> cstr \<Rightarrow> test \<Rightarrow> cst \<Rightarrow> (bool \<times> cst) cres" where
  "try_test env cf cmd wrapper t st =
     (if \<not> can_create env INPUT_FILE then c12r_err EXIT_TROUBLE_RUNNING
      else bind_c (test_source t) (\<lambda>src.
        let (newcmd, st) = compile_cmd cf cmd t (show_source cf src st);
            st = start_test cf (str ''checking for '') (t_desc t) st
        in bind_c (run env newcmd src st) (\<lambda>(output, status, st).
             if status \<noteq> 0 \<or> strstr output (str ''warning'') then compile_failed cf t output status st
             else execute_test env cf wrapper t src st)))"

section \<open>Dependencies and overrides\<close>

text \<open>
  The names in a dependency string up to the first empty one, each with whether more text follows
  it.
\<close>

function dep_words :: "cstr \<Rightarrow> (cstr \<times> bool) list" where
  "dep_words deps =
     (let len = length (takeWhile (\<lambda>c. c \<noteq> 32) deps)
      in if len = 0 then []
         else (take len deps, drop len deps \<noteq> []) # dep_words (dropWhile (\<lambda>c. c = 32) (drop len deps)))"
  by pat_completeness auto

termination
proof (relation "measure length", goal_cases)
  case (2 deps len)
  have "length (dropWhile (\<lambda>c. c = 32) (drop len deps)) \<le> length (drop len deps)" by (rule length_dropWhile_le)
  moreover have "len \<le> length deps" using 2(1) length_takeWhile_le by metis
  ultimately show ?case using 2(2) by simp
qed simp

declare dep_words.simps [simp del]

definition set_result :: "nat \<Rightarrow> bool \<Rightarrow> cst \<Rightarrow> cst" where
  "set_result i answer st =
     st\<lparr>c_tests := (c_tests st)[i := (c_tests st ! i)\<lparr>t_answer := answer, t_done := True\<rparr>]\<rparr>"

definition force_test :: "cstr option \<Rightarrow> cst \<Rightarrow> cst cres" where
  "force_test overrides st =
     (case overrides of
        None \<Rightarrow> COk st
      | Some name \<Rightarrow> bind_c (find_test name st) (\<lambda>j. COk (set_result j True st)))"

text \<open>What happens once the dependencies of test \<open>i\<close> are known to hold, or not to hold.\<close>

definition finish_test :: "cenv \<Rightarrow> conf \<Rightarrow> cstr \<Rightarrow> cstr \<Rightarrow> nat \<Rightarrow> bool \<Rightarrow> cst \<Rightarrow> (bool \<times> cst) cres" where
  "finish_test env cf cmd wrapper i ok st =
     (if \<not> ok then COk (False, set_result i False st)
      else bind_c (try_test env cf cmd wrapper (c_tests st ! i) st) (\<lambda>(answer, st).
        let st = end_test cf answer (set_result i answer st)
        in if answer then bind_c (force_test (t_overrides (c_tests st ! i)) st) (\<lambda>st. COk (True, st))
           else COk (False, st)))"

definition dep_target :: "cstr \<Rightarrow> bool \<times> cstr" where
  "dep_target dep = (if hd dep = chr CHR ''!'' then (False, tl dep) else (True, dep))"

text \<open>
  A leading exclamation mark inverts a dependency. Its copy is then freed through a pointer into its
  middle when more text follows.
\<close>

fun run_test :: "nat \<Rightarrow> cenv \<Rightarrow> conf \<Rightarrow> cstr \<Rightarrow> cstr \<Rightarrow> nat \<Rightarrow> cst \<Rightarrow> (bool \<times> cst) cres option"
  and run_deps :: "nat \<Rightarrow> cenv \<Rightarrow> conf \<Rightarrow> cstr \<Rightarrow> cstr \<Rightarrow> (cstr \<times> bool) list \<Rightarrow> cst \<Rightarrow> (bool \<times> cst) cres option"
where
  "run_test 0 env cf cmd wrapper i st = None"
| "run_test (Suc depth) env cf cmd wrapper i st =
     (let t = c_tests st ! i
      in if t_done t then Some (COk (t_answer t, st))
         else (case (case t_depends t of
                       None \<Rightarrow> Some (COk (True, st))
                     | Some deps \<Rightarrow> run_deps depth env cf cmd wrapper (dep_words deps) st) of
                 None \<Rightarrow> None
               | Some r \<Rightarrow> Some (bind_c r (\<lambda>(ok, st). finish_test env cf cmd wrapper i ok st))))"
| "run_deps depth env cf cmd wrapper [] st = Some (COk (True, st))"
| "run_deps depth env cf cmd wrapper ((dep, more_text) # ws) st =
     (case dep_target dep of (positive, name) \<Rightarrow>
        case find_test name st of
           CExit code \<Rightarrow> Some (CExit code)
         | CCrash \<Rightarrow> Some CCrash
         | COk j \<Rightarrow>
             (case run_test depth env cf cmd wrapper j st of
                None \<Rightarrow> None
              | Some (CExit code) \<Rightarrow> Some (CExit code)
              | Some CCrash \<Rightarrow> Some CCrash
              | Some (COk (r, st)) \<Rightarrow>
                  if r \<noteq> positive then Some (COk (False, st))
                  else if more_text \<and> \<not> positive then Some CCrash
                  else run_deps depth env cf cmd wrapper ws st))"

section \<open>Streams are read in full\<close>

lemma fcopy_spec: "fcopy src dst = (length src, dst @ src)"
proof -
  have "fcopy_loop src n dst = (n + length src, dst @ src)" for n
  proof (induction src n dst rule: fcopy_loop.induct)
    case (1 src n dst)
    show ?case
    proof (cases "src = []")
      case False
      then have "0 < length (take BUFSIZ src)" by (simp add: BUFSIZ_def)
      moreover from this have "fcopy_loop (drop BUFSIZ src) (n + length (take BUFSIZ src)) (dst @ take BUFSIZ src)
          = (n + length (take BUFSIZ src) + length (drop BUFSIZ src), (dst @ take BUFSIZ src) @ drop BUFSIZ src)"
        by (intro 1) (auto simp: fread_def)
      ultimately show ?thesis
        by (simp add: fcopy_loop.simps [of src] fread_def)
    qed (simp add: fcopy_loop.simps [of "[]"] fread_def)
  qed
  from this [of 0] show ?thesis by (simp add: fcopy_def)
qed

lemma grab_loop_spec:
  "fst (grab_loop k buffer s) = buffer @ s \<and>
   (length buffer \<le> BUFSIZ * 2 ^ k \<longrightarrow> length (buffer @ s) < snd (grab_loop k buffer s))"
proof (induction k buffer s rule: grab_loop.induct)
  case (1 k buffer s)
  let ?n = "BUFSIZ * 2 ^ k - length buffer"
  show ?case
  proof (cases "?n \<le> length s")
    case True
    then have "length (take ?n s) = ?n" by simp
    with 1 [of "BUFSIZ * 2 ^ k" "take ?n s" "drop ?n s"] have
      IH: "fst (grab_loop (k + 1) (buffer @ take ?n s) (drop ?n s)) = (buffer @ take ?n s) @ drop ?n s"
      "length (buffer @ take ?n s) \<le> BUFSIZ * 2 ^ (k + 1) \<longrightarrow>
        length ((buffer @ take ?n s) @ drop ?n s) < snd (grab_loop (k + 1) (buffer @ take ?n s) (drop ?n s))"
      by (auto simp: fread_def)
    have "grab_loop k buffer s = grab_loop (k + 1) (buffer @ take ?n s) (drop ?n s)"
      using True by (simp add: grab_loop.simps [of k buffer] fread_def Let_def)
    with IH True show ?thesis by auto
  next
    case False
    then show ?thesis by (auto simp: grab_loop.simps [of k buffer] fread_def Let_def)
  qed
qed

lemma grab_stream_spec: "fst (grab_stream s) = s" "length s < snd (grab_stream s)"
  using grab_loop_spec [of 0 "[]" s] by (simp_all add: grab_stream_def BUFSIZ_def)

text \<open>So a command's output can be evaluated without its chunks.\<close>

lemma run_code [code]:
  "run env cmd src st =
     (case shell env (c_calls st) (cmd @ str '' 2>&1'') src of
        None \<Rightarrow> c12r_err EXIT_TROUBLE_RUNNING
      | Some (file, exitstatus) \<Rightarrow> COk (c_str file, exitstatus, st\<lparr>c_calls := c_calls st + 1\<rparr>))"
  by (simp add: run_def grab_stream_spec(1) split: option.split)

section \<open>What running tests keeps\<close>

text \<open>
  \<open>keeps st st'\<close>: the descriptions of the tests are the same, and a test that was done is still done,
  with its answer unless it was forced to yes.
\<close>

definition descr :: "test \<Rightarrow> test" where
  "descr t = t\<lparr>t_done := False, t_answer := False\<rparr>"

definition keeps :: "cst \<Rightarrow> cst \<Rightarrow> bool" where
  "keeps st st' \<longleftrightarrow>
     map descr (c_tests st') = map descr (c_tests st) \<and> c_calls st \<le> c_calls st' \<and>
     (\<forall>j < length (c_tests st). t_done (c_tests st ! j) \<longrightarrow>
        t_done (c_tests st' ! j) \<and> (t_answer (c_tests st ! j) \<longrightarrow> t_answer (c_tests st' ! j)))"

lemma keeps_length: "keeps st st' \<Longrightarrow> length (c_tests st') = length (c_tests st)"
  unfolding keeps_def by (metis length_map)

lemma keeps_refl [simp]: "keeps st st" by (simp add: keeps_def)

lemma keeps_trans: "keeps st st1 \<Longrightarrow> keeps st1 st2 \<Longrightarrow> keeps st st2"
  using keeps_length [of st st1] by (auto simp: keeps_def)

lemma find_name_descr: "find_name name ts i = find_name name (map descr ts) i"
  by (induction name ts i rule: find_name.induct) (simp_all add: descr_def)

lemma keeps_find: "keeps st st' \<Longrightarrow> find_test name st' = find_test name st"
  unfolding find_test_def keeps_def
  by (subst (1 2) find_name_descr) simp

lemma find_name_Some: "find_name name ts i = Some j \<Longrightarrow> i \<le> j \<and> j < i + length ts \<and> t_name (ts ! (j - i)) = name"
  by (induction name ts i rule: find_name.induct) (auto simp: nth_Cons' Suc_diff_le split: if_splits)

lemma find_test_bound: "find_test name st = COk j \<Longrightarrow> j < length (c_tests st)"
  using find_name_Some [of name "c_tests st" 0 j] by (auto simp: find_test_def c12r_errx_def split: option.splits)

lemma keeps_emit [simp]: "keeps st (emit s st1) = keeps st st1" "c_tests (emit s st1) = c_tests st1"
  by (simp_all add: keeps_def emit_def)

lemma start_end_test [simp]:
  "keeps st (start_test cf a b st1) = keeps st st1" "keeps st (end_test cf r st1) = keeps st st1"
  "c_tests (start_test cf a b st1) = c_tests st1" "c_tests (end_test cf r st1) = c_tests st1"
  by (simp_all add: start_test_def end_test_def)

lemma bind_c_OkE:
  assumes "bind_c x f = COk r"
  obtains y where "x = COk y" and "f y = COk r"
  using assms by (cases x) auto

text \<open>Compiling and running change neither the tests nor, downwards, the count of commands.\<close>

definition same_tests :: "cst \<Rightarrow> cst \<Rightarrow> bool" where
  "same_tests st st' \<longleftrightarrow> c_tests st' = c_tests st \<and> c_calls st \<le> c_calls st'"

lemma run_same: "run env cmd src st = COk (out, status, st') \<Longrightarrow> same_tests st st'"
  by (auto simp: run_def same_tests_def c12r_err_def split: option.splits)

lemma same_tests_emit [simp]:
  "same_tests st st" "same_tests st (emit s st1) = same_tests st st1" "same_tests (emit s st1) st2 = same_tests st1 st2"
  "same_tests st (start_test cf a b st1) = same_tests st st1"
  "same_tests (start_test cf a b st1) st2 = same_tests st1 st2"
  by (simp_all add: same_tests_def emit_def start_test_def)

lemma same_tests_trans [trans]: "same_tests st st1 \<Longrightarrow> same_tests st1 st2 \<Longrightarrow> same_tests st st2"
  by (simp add: same_tests_def)

lemma compile_cmd_same: "compile_cmd cf cmd t st = (newcmd, st') \<Longrightarrow> same_tests st st'"
  by (auto simp: compile_cmd_def add_words_def Let_def split: option.splits prod.splits if_splits)

lemma execute_test_same: "execute_test env cf wrapper t src st = COk (r, st') \<Longrightarrow> same_tests st st'"
  by (auto simp: execute_test_def c12r_errx_def elim!: bind_c_OkE dest!: run_same split: if_splits)

lemma compile_failed_same: "compile_failed cf t out status st = COk (r, st') \<Longrightarrow> same_tests st st'"
  by (auto simp: compile_failed_def c12r_errx_def Let_def split: if_splits)

lemma try_test_same:
  assumes "try_test env cf cmd wrapper t st = COk (r, st')"
  shows "same_tests st st'"
proof -
  from assms obtain src where src: "test_source t = COk src"
    by (auto simp: try_test_def c12r_err_def elim!: bind_c_OkE split: if_splits)
  obtain newcmd st2 where c: "compile_cmd cf cmd t (show_source cf src st) = (newcmd, st2)" by fastforce
  from assms src c obtain out status st3 where
    r: "run env newcmd src (start_test cf (str ''checking for '') (t_desc t) st2) = COk (out, status, st3)"
    and e: "(if status \<noteq> 0 \<or> strstr out (str ''warning'') then compile_failed cf t out status st3
             else execute_test env cf wrapper t src st3) = COk (r, st')"
    by (auto simp: try_test_def c12r_err_def Let_def elim!: bind_c_OkE split: if_splits)
  have "same_tests st (show_source cf src st)" by (simp add: show_source_def same_tests_def)
  also have "same_tests (show_source cf src st) st2" using compile_cmd_same [OF c] .
  also have "same_tests st2 st3" using run_same [OF r] by simp
  also have "same_tests st3 st'"
    using e by (auto dest: compile_failed_same execute_test_same split: if_splits)
  finally show ?thesis .
qed

lemma set_result_tests:
  assumes "i < length (c_tests st)"
  shows "map descr (c_tests (set_result i a st)) = map descr (c_tests st)"
    "j < length (c_tests st) \<Longrightarrow> c_tests (set_result i a st) ! j
       = (if j = i then (c_tests st ! i)\<lparr>t_answer := a, t_done := True\<rparr> else c_tests st ! j)"
    "c_calls (set_result i a st) = c_calls st"
    "length (c_tests (set_result i a st)) = length (c_tests st)"
  using assms by (simp_all add: set_result_def descr_def map_update list_update_same_conv)

text \<open>Like \<open>keeps\<close>, but for test \<open>i\<close>, which is being run.\<close>

definition keeps_but :: "nat \<Rightarrow> cst \<Rightarrow> cst \<Rightarrow> bool" where
  "keeps_but i st st' \<longleftrightarrow>
     map descr (c_tests st') = map descr (c_tests st) \<and> c_calls st \<le> c_calls st' \<and>
     (\<forall>j < length (c_tests st). j \<noteq> i \<longrightarrow> t_done (c_tests st ! j) \<longrightarrow>
        t_done (c_tests st' ! j) \<and> (t_answer (c_tests st ! j) \<longrightarrow> t_answer (c_tests st' ! j)))"

lemma keeps_but_keeps:
  "keeps st st1 \<Longrightarrow> keeps_but i st1 st2 \<Longrightarrow> \<not> t_done (c_tests st ! i) \<Longrightarrow> keeps st st2"
  using keeps_length [of st st1] by (auto simp: keeps_def keeps_but_def)

lemma finish_test_ok:
  assumes "finish_test env cf cmd wrapper i ok st = COk (r, st')" and "i < length (c_tests st)"
  shows "keeps_but i st st' \<and> t_done (c_tests st' ! i) \<and> t_answer (c_tests st' ! i) = r"
proof (cases ok)
  case False
  with assms show ?thesis by (auto simp: finish_test_def keeps_but_def set_result_tests)
next
  case True
  with assms(1) obtain st1 where t: "try_test env cf cmd wrapper (c_tests st ! i) st = COk (r, st1)"
    and f: "(if r then bind_c (force_test (t_overrides (c_tests (end_test cf r (set_result i r st1)) ! i))
               (end_test cf r (set_result i r st1))) (\<lambda>st. COk (True, st))
             else COk (False, end_test cf r (set_result i r st1))) = COk (r, st')"
    by (auto simp: finish_test_def Let_def elim!: bind_c_OkE split: if_splits prod.splits)
  note s1 = try_test_same [OF t, unfolded same_tests_def]
  let ?st2 = "end_test cf r (set_result i r st1)"
  have calls: "c_calls ?st2 = c_calls st1" by (simp add: end_test_def emit_def set_result_def)
  have two: "keeps_but i st ?st2 \<and> t_done (c_tests ?st2 ! i) \<and> t_answer (c_tests ?st2 ! i) = r"
    using s1 assms(2) calls by (auto simp: keeps_but_def set_result_tests)
  have len: "length (c_tests ?st2) = length (c_tests st)" using s1 by (simp add: set_result_def)
  consider "st' = ?st2" | j where "j < length (c_tests ?st2)" "r" "st' = set_result j True ?st2"
    using f by (auto simp: force_test_def elim!: bind_c_OkE dest: find_test_bound split: if_splits option.splits)
  then show ?thesis
  proof cases
    case 1
    with two show ?thesis by simp
  next
    case 2
    have "map descr (c_tests st') = map descr (c_tests ?st2)" "c_calls st' = c_calls ?st2"
      using set_result_tests(1,3) [OF 2(1)] 2(3) by simp_all
    moreover have "t_done (c_tests st' ! k) = (k = j \<or> t_done (c_tests ?st2 ! k))"
      "t_answer (c_tests st' ! k) = (k = j \<or> t_answer (c_tests ?st2 ! k))" if "k < length (c_tests st)" for k
      using set_result_tests(2) [OF 2(1)] 2(3) that len by simp_all
    ultimately show ?thesis using two assms(2) 2(2) by (auto simp: keeps_but_def)
  qed
qed

section \<open>The recursion\<close>

lemma run_test_done: "t_done (c_tests st ! i) \<Longrightarrow> run_test (Suc d) env cf cmd wrapper i st = Some (COk (t_answer (c_tests st ! i), st))"
  by (simp add: Let_def)

text \<open>A test that is run goes through its dependencies and \<open>finish_test\<close>.\<close>

lemma run_test_OkE:
  assumes "run_test (Suc d) env cf cmd wrapper i st = Some (COk (r, st'))" and "\<not> t_done (c_tests st ! i)"
  obtains ok st1 where "finish_test env cf cmd wrapper i ok st1 = COk (r, st')"
    and "t_depends (c_tests st ! i) = None \<and> ok \<and> st1 = st \<or>
         (\<exists>deps. t_depends (c_tests st ! i) = Some deps \<and>
            run_deps d env cf cmd wrapper (dep_words deps) st = Some (COk (ok, st1)))"
  using assms by (auto simp: Let_def elim!: bind_c_OkE split: option.splits prod.splits)

lemma run_deps_OkE:
  assumes "run_deps d env cf cmd wrapper ((dep, m) # ws) st = Some (COk (ok, st'))"
  obtains j r st1 where "find_test (snd (dep_target dep)) st = COk j"
    and "run_test d env cf cmd wrapper j st = Some (COk (r, st1))"
    and "r \<noteq> fst (dep_target dep) \<and> \<not> ok \<and> st' = st1 \<or>
         r = fst (dep_target dep) \<and> run_deps d env cf cmd wrapper ws st1 = Some (COk (ok, st'))"
  using assms by (auto split: cres.splits option.splits prod.splits if_splits)

lemma run_keeps:
  "run_test d env cf cmd wrapper i st = Some (COk (r, st')) \<Longrightarrow> i < length (c_tests st) \<Longrightarrow>
     keeps st st' \<and> t_done (c_tests st' ! i) \<and> t_answer (c_tests st' ! i) = r"
  "run_deps d env cf cmd wrapper ws st = Some (COk (ok, st')) \<Longrightarrow> keeps st st'"
proof (induction d env cf cmd wrapper i st and d env cf cmd wrapper ws st arbitrary: r st' and ok st'
    rule: run_test_run_deps.induct)
  case (2 d env cf cmd wrapper i st)
  show ?case
  proof (cases "t_done (c_tests st ! i)")
    case True
    with 2(2) show ?thesis by (auto simp: Let_def)
  next
    case False
    obtain ok st1 where f: "finish_test env cf cmd wrapper i ok st1 = COk (r, st')"
      and d: "t_depends (c_tests st ! i) = None \<and> ok \<and> st1 = st \<or>
         (\<exists>deps. t_depends (c_tests st ! i) = Some deps \<and>
            run_deps d env cf cmd wrapper (dep_words deps) st = Some (COk (ok, st1)))"
      by (rule run_test_OkE [OF 2(2) False])
    have k: "keeps st st1" using d 2(1) [OF refl False] by auto
    from finish_test_ok [OF f] keeps_length [OF k] 2(3) have
      "keeps_but i st1 st'" "t_done (c_tests st' ! i)" "t_answer (c_tests st' ! i) = r" by simp_all
    with keeps_but_keeps [OF k _ False] show ?thesis by blast
  qed
next
  case (4 d env cf cmd wrapper dep m ws st)
  obtain j r st1 where j: "find_test (snd (dep_target dep)) st = COk j"
    and t: "run_test d env cf cmd wrapper j st = Some (COk (r, st1))"
    and w: "r \<noteq> fst (dep_target dep) \<and> \<not> ok \<and> st' = st1 \<or>
         r = fst (dep_target dep) \<and> run_deps d env cf cmd wrapper ws st1 = Some (COk (ok, st'))"
    by (rule run_deps_OkE [OF 4(3)])
  obtain positive name where dt: "dep_target dep = (positive, name)" by fastforce
  have j': "find_test name st = COk j" using j dt by simp
  note k = 4(1) [OF dt [symmetric] j' t find_test_bound [OF j]]
  from w show ?case
  proof
    assume "r \<noteq> fst (dep_target dep) \<and> \<not> ok \<and> st' = st1"
    with k show ?thesis by blast
  next
    assume r: "r = fst (dep_target dep) \<and> run_deps d env cf cmd wrapper ws st1 = Some (COk (ok, st'))"
    have "\<not> (m \<and> \<not> positive)" using 4(3) r dt j' t by (auto split: if_splits)
    from 4(2) [OF dt [symmetric] j' t refl _ _ this] r dt have "keeps st1 st'" by auto
    with k show ?thesis using keeps_trans by blast
  qed
qed auto

text \<open>
  The bound on the depth: when a rank decreases along every dependency, one more than the rank of
  a test is deep enough to run it.
\<close>

definition dep_rank :: "test list \<Rightarrow> (nat \<Rightarrow> nat) \<Rightarrow> bool" where
  "dep_rank ts rank \<longleftrightarrow>
     (\<forall>i < length ts. \<forall>deps. t_depends (ts ! i) = Some deps \<longrightarrow>
        (\<forall>w \<in> set (dep_words deps). \<forall>j. find_name (snd (dep_target (fst w))) ts 0 = Some j \<longrightarrow> rank j < rank i))"

lemma dep_rank_descr: "dep_rank (map descr ts) rank = dep_rank ts rank"
  unfolding dep_rank_def find_name_descr [symmetric]
  by (auto simp: descr_def)

lemma keeps_dep_rank: "keeps st st' \<Longrightarrow> dep_rank (c_tests st') rank = dep_rank (c_tests st) rank"
  unfolding keeps_def by (metis dep_rank_descr)

lemma find_test_COk: "find_test name st = COk j \<longleftrightarrow> find_name name (c_tests st) 0 = Some j"
  by (auto simp: find_test_def c12r_errx_def split: option.splits)

lemma run_test_deep_enough:
  "rank i < d \<Longrightarrow> i < length (c_tests st) \<Longrightarrow> dep_rank (c_tests st) rank \<Longrightarrow>
     run_test d env cf cmd wrapper i st \<noteq> None"
  "(\<forall>w \<in> set ws. \<forall>j. find_name (snd (dep_target (fst w))) (c_tests st) 0 = Some j \<longrightarrow> rank j < d) \<Longrightarrow>
     dep_rank (c_tests st) rank \<Longrightarrow> run_deps d env cf cmd wrapper ws st \<noteq> None"
proof (induction d env cf cmd wrapper i st and d env cf cmd wrapper ws st rule: run_test_run_deps.induct)
  case (2 d env cf cmd wrapper i st)
  have "run_deps d env cf cmd wrapper (dep_words deps) st \<noteq> None"
    if "\<not> t_done (c_tests st ! i)" "t_depends (c_tests st ! i) = Some deps" for deps
  proof (rule 2(1) [OF refl that])
    show "\<forall>w \<in> set (dep_words deps). \<forall>j. find_name (snd (dep_target (fst w))) (c_tests st) 0 = Some j \<longrightarrow> rank j < d"
      using 2(2,3,4) that(2) unfolding dep_rank_def by fastforce
  qed (rule 2(4))
  then show ?case by (fastforce simp: Let_def split: option.splits)
next
  case (4 d env cf cmd wrapper dep m ws st)
  obtain positive name where dt: "dep_target dep = (positive, name)" by fastforce
  show ?case
  proof (cases "find_test name st")
    case (COk j)
    have "rank j < d" using 4(3) COk dt by (auto simp: find_test_COk)
    note IH1 = 4(1) [OF dt [symmetric] COk this find_test_bound [OF COk] 4(4)]
    then obtain res where res: "run_test d env cf cmd wrapper j st = Some res" by blast
    show ?thesis
    proof (cases res)
      case r: (COk x)
      obtain r st1 where x: "x = (r, st1)" by fastforce
      have k: "keeps st st1" using run_keeps(1) [OF _ find_test_bound [OF COk]] res r x by blast
      have "run_deps d env cf cmd wrapper ws st1 \<noteq> None" if "\<not> r \<noteq> positive" "\<not> (m \<and> \<not> positive)"
      proof (rule 4(2) [OF dt [symmetric] COk res r x [symmetric] that])
        show "\<forall>w \<in> set ws. \<forall>j. find_name (snd (dep_target (fst w))) (c_tests st1) 0 = Some j \<longrightarrow> rank j < d"
          using 4(3) keeps_find [OF k] by (auto simp: find_test_COk [symmetric])
        show "dep_rank (c_tests st1) rank" using 4(4) keeps_dep_rank [OF k] by simp
      qed
      with COk dt res r x show ?thesis by auto
    qed (use COk dt res in auto)
  qed (use dt in auto)
qed auto

text \<open>The dependencies that were required to hold do hold afterwards.\<close>

definition dep_holds :: "cst \<Rightarrow> cst \<Rightarrow> cstr \<Rightarrow> bool" where
  "dep_holds st st' dep \<longleftrightarrow>
     (\<exists>j < length (c_tests st). find_name (snd (dep_target dep)) (c_tests st) 0 = Some j \<and>
        t_done (c_tests st' ! j) \<and> (fst (dep_target dep) \<longrightarrow> t_answer (c_tests st' ! j)))"

lemma dep_holds_keeps: "dep_holds st st1 dep \<Longrightarrow> keeps st st1 \<Longrightarrow> keeps st1 st2 \<Longrightarrow> dep_holds st st2 dep"
  using keeps_length [of st st1] by (fastforce simp: dep_holds_def keeps_def)

lemma dep_holds_start: "keeps st st1 \<Longrightarrow> dep_holds st1 st2 dep \<Longrightarrow> dep_holds st st2 dep"
  using keeps_length [of st st1] keeps_find [of st st1] unfolding dep_holds_def find_test_COk [symmetric] by auto

lemma run_deps_hold:
  "run_deps d env cf cmd wrapper ws st = Some (COk (True, st')) \<Longrightarrow> \<forall>w \<in> set ws. dep_holds st st' (fst w)"
proof (induction ws arbitrary: st)
  case (Cons w ws)
  obtain dep m where w: "w = (dep, m)" by fastforce
  obtain j r st1 where j: "find_test (snd (dep_target dep)) st = COk j"
    and t: "run_test d env cf cmd wrapper j st = Some (COk (r, st1))"
    and r: "r = fst (dep_target dep)" and ws: "run_deps d env cf cmd wrapper ws st1 = Some (COk (True, st'))"
    using run_deps_OkE [OF Cons.prems [unfolded w]] by metis
  note k = run_keeps(1) [OF t find_test_bound [OF j]] and k2 = run_keeps(2) [OF ws]
  have "dep_holds st st1 dep" using k j r find_test_bound [OF j] by (auto simp: dep_holds_def find_test_COk)
  with k k2 have "dep_holds st st' dep" using dep_holds_keeps by blast
  moreover have "\<forall>w \<in> set ws. dep_holds st st' (fst w)" using Cons.IH [OF ws] k dep_holds_start by blast
  ultimately show ?case by (simp add: w)
qed simp

section \<open>Properties\<close>

text \<open>
  C37. Running a test settles it and disturbs no other: afterwards the test is done and its recorded
  answer is the one returned; no description has changed; every test that was done before is still
  done, and a yes stays a yes.
\<close>

theorem run_test_settles:
  assumes "run_test depth env cf cmd wrapper i st = Some (COk (r, st'))" and "i < length (c_tests st)"
  shows "t_done (c_tests st' ! i) \<and> t_answer (c_tests st' ! i) = r \<and>
         map descr (c_tests st') = map descr (c_tests st) \<and>
         (\<forall>j < length (c_tests st). t_done (c_tests st ! j) \<longrightarrow>
            t_done (c_tests st' ! j) \<and> (t_answer (c_tests st ! j) \<longrightarrow> t_answer (c_tests st' ! j)))"
  using run_keeps(1) [OF assms] by (simp add: keeps_def)

definition toy_test :: test where
  "toy_test = \<lparr>t_name = str ''A'', t_desc = [], t_style = str ''OUTSIDE_MAIN'', t_depends = None, t_link = None,
     t_fragment = [], t_flags = None, t_overrides = None, t_done = False, t_answer = False\<rparr>"

definition toy_cenv :: cenv where
  "toy_cenv = \<lparr>shell = (\<lambda>n cmd src. Some ([], 0)), can_create = (\<lambda>_. True)\<rparr>"

definition toy_cst :: "test list \<Rightarrow> cst" where
  "toy_cst ts = \<lparr>c_tests = ts, c_calls = 0, c_out = []\<rparr>"

lemma toy_run:
  "run_test 1 toy_cenv \<lparr>verbose = 0, like_a_libtool = False\<rparr> [] [] 0 (toy_cst [toy_test])
     = Some (COk (True, \<lparr>c_tests = [toy_test\<lparr>t_answer := True, t_done := True\<rparr>], c_calls = 1, c_out = []\<rparr>))"
  by code_simp

theorem run_test_settles_witness:
  "\<exists>st'. run_test 1 toy_cenv \<lparr>verbose = 0, like_a_libtool = False\<rparr> [] [] 0 (toy_cst [toy_test])
      = Some (COk (True, st')) \<and> t_done (c_tests st' ! 0) \<and> t_answer (c_tests st' ! 0)"
  using run_test_settles [OF toy_run] toy_run by (simp add: toy_cst_def)



text \<open>
  A yes is earned: when a test that was not done answers yes, every dependency named in its
  description exists and is done, and those not inverted have answered yes.
\<close>

theorem dependencies_hold:
  assumes "run_test depth env cf cmd wrapper i st = Some (COk (True, st'))" and "i < length (c_tests st)"
    and "\<not> t_done (c_tests st ! i)" and "t_depends (c_tests st ! i) = Some deps"
  shows "\<forall>w \<in> set (dep_words deps). dep_holds st st' (fst w)"
proof -
  obtain d where d: "depth = Suc d" using assms(1) by (cases depth) auto
  obtain ok st1 where f: "finish_test env cf cmd wrapper i ok st1 = COk (True, st')"
    and r: "run_deps d env cf cmd wrapper (dep_words deps) st = Some (COk (ok, st1))"
    using run_test_OkE [OF assms(1) [unfolded d] assms(3)] assms(4) by auto
  have ok by (rule ccontr) (use f in \<open>simp add: finish_test_def\<close>)
  note k = run_keeps(2) [OF r] and h = run_deps_hold [OF r [unfolded eqTrueI [OF \<open>ok\<close>]]]
  have i: "i < length (c_tests st1)" using assms(2) keeps_length [OF k] by simp
  note fin = finish_test_ok [OF f i]
  show ?thesis
  proof
    fix w assume "w \<in> set (dep_words deps)"
    with h have "dep_holds st st1 (fst w)" by blast
    then obtain j where "j < length (c_tests st)" "find_name (snd (dep_target (fst w))) (c_tests st) 0 = Some j"
      "t_done (c_tests st1 ! j)" "fst (dep_target (fst w)) \<longrightarrow> t_answer (c_tests st1 ! j)"
      by (auto simp: dep_holds_def)
    then show "dep_holds st st' (fst w)"
      using fin keeps_length [OF k] unfolding dep_holds_def keeps_but_def by (metis (full_types))
  qed
qed

definition toy_pair :: "string \<Rightarrow> test list" where
  "toy_pair deps = [toy_test, toy_test\<lparr>t_name := str ''B'', t_depends := Some (str deps)\<rparr>]"

theorem dependencies_hold_witness:
  "\<exists>st'. run_test 2 toy_cenv \<lparr>verbose = 0, like_a_libtool = False\<rparr> [] [] 1 (toy_cst (toy_pair ''A''))
      = Some (COk (True, st')) \<and> dep_holds (toy_cst (toy_pair ''A'')) st' (str ''A'')"
proof -
  let ?st = "toy_cst (toy_pair ''A'')"
  have "\<exists>st'. run_test 2 toy_cenv \<lparr>verbose = 0, like_a_libtool = False\<rparr> [] [] 1 ?st = Some (COk (True, st'))"
  proof
    show "run_test 2 toy_cenv \<lparr>verbose = 0, like_a_libtool = False\<rparr> [] [] 1 ?st = Some (COk (True,
        \<lparr>c_tests = map (\<lambda>t. t\<lparr>t_answer := True, t_done := True\<rparr>) (toy_pair ''A''), c_calls = 2, c_out = []\<rparr>))"
      by code_simp
  qed
  then obtain st' where r: "run_test 2 toy_cenv \<lparr>verbose = 0, like_a_libtool = False\<rparr> [] [] 1 ?st = Some (COk (True, st'))"
    by blast
  have "dep_words (str ''A'') = [(str ''A'', False)]" by code_simp
  with dependencies_hold [OF r, of "str ''A''"] r show ?thesis
    by (simp add: toy_cst_def toy_pair_def toy_test_def)
qed

text \<open>
  An inverted dependency followed by another one is mishandled: when the inverted test answers
  no, as required, its name is freed through a pointer that has been moved past the exclamation
  mark.
\<close>

theorem inverted_dependency_crashes:
  assumes "\<not> t_done (c_tests st ! i)" and "t_depends (c_tests st ! i) = Some deps"
    and "dep_words deps = (chr CHR ''!'' # name, True) # ws" and "find_test name st = COk j"
    and "run_test depth env cf cmd wrapper j st = Some (COk (False, st'))"
  shows "run_test (Suc depth) env cf cmd wrapper i st = Some CCrash"
  using assms by (simp add: dep_target_def)

theorem inverted_dependency_crashes_witness:
  "run_test 2 (toy_cenv\<lparr>shell := \<lambda>n cmd src. Some ([], 1)\<rparr>) \<lparr>verbose = 0, like_a_libtool = False\<rparr> [] [] 1
     (toy_cst (toy_pair ''!A A'')) = Some CCrash"
proof -
  let ?env = "toy_cenv\<lparr>shell := \<lambda>n cmd src. Some ([], 1)\<rparr>" and ?st = "toy_cst (toy_pair ''!A A'')"
  let ?cf = "\<lparr>verbose = 0, like_a_libtool = False\<rparr>"
  have rt: "run_test 1 ?env ?cf [] [] 0 ?st = Some (COk (False,
      \<lparr>c_tests = [toy_test\<lparr>t_done := True\<rparr>, toy_pair ''!A A'' ! 1], c_calls = 1, c_out = []\<rparr>))"
    by code_simp
  have dw: "dep_words (str ''!A A'') = (chr CHR ''!'' # str ''A'', True) # [(str ''A'', False)]" by code_simp
  have ft: "find_test (str ''A'') ?st = COk 0" by code_simp
  have nd: "\<not> t_done (c_tests ?st ! 1)" "t_depends (c_tests ?st ! 1) = Some (str ''!A A'')"
    by (simp_all add: toy_cst_def toy_pair_def toy_test_def)
  from inverted_dependency_crashes [OF nd dw ft rt] show ?thesis by (simp only: numeral_2_eq_2 One_nat_def)
qed

end
