(* ===== verification/Config_Main.thy ===== *)
theory Config_Main
  imports Config
begin

text \<open>
  The rest of \<^verbatim>\<open>configurator.c\<close>: reading further test descriptions from the standard input, the
  table of built-in tests, the command line and \<open>main\<close>, which runs the tests and writes the header.
  \<open>fclose\<close> of a file just written is taken to succeed exactly when the file could be created.
\<close>

section \<open>Reading lines\<close>

definition fgets :: "nat \<Rightarrow> bytes \<Rightarrow> (bytes \<times> bytes) option" where
  "fgets n s =
     (if s = [] then None
      else let line = takeWhile (\<lambda>b. b \<noteq> 10) s;
               len = min (n - 1) (if length line < length s then length line + 1 else length line)
           in Some (take len s, drop len s))"

lemma fgets_shorter: "fgets 1000 s = Some (buf, s') \<Longrightarrow> length s' < length s"
  by (cases s) (auto simp: fgets_def Let_def)

text \<open>A field is a name and a value; \<open>None\<close> is the end of the input.\<close>

function any_field :: "bytes \<Rightarrow> ((cstr \<times> cstr) option \<times> bytes) cres" where
  "any_field inp =
     (case fgets 1000 inp of
        None \<Rightarrow> COk (None, inp)
      | Some (buf, inp) \<Rightarrow>
          let p = dropWhile (\<lambda>c. c = 32 \<or> c = 9) (c_str buf)
          in if p \<noteq> [] \<and> (hd p = chr CHR ''#'' \<or> hd p = 10) then any_field inp
             else if chr CHR ''='' \<notin> set p then c12r_errx EXIT_BAD_INPUT
             else let fieldname = takeWhile (\<lambda>c. c \<noteq> chr CHR ''='') p;
                      p = tl (dropWhile (\<lambda>c. c \<noteq> chr CHR ''='') p)
                  in COk (Some (fieldname, if p \<noteq> [] \<and> last p = 10 then butlast p else p), inp))"
  by pat_completeness auto
termination
  by (relation "measure length") (auto dest!: fgets_shorter)

declare any_field.simps [simp del]

definition read_field :: "cstr \<Rightarrow> bool \<Rightarrow> bytes \<Rightarrow> (cstr option \<times> bytes) cres" where
  "read_field name compulsory inp =
     bind_c (any_field inp) (\<lambda>(f, inp).
       case f of
         None \<Rightarrow> if \<not> compulsory then COk (None, inp) else c12r_errx EXIT_BAD_INPUT
       | Some (fieldname, value) \<Rightarrow>
           if fieldname \<noteq> name then c12r_errx EXIT_BAD_INPUT else COk (Some value, inp))"

lemma any_field_shorter: "any_field inp = COk (r, inp') \<Longrightarrow> length inp' \<le> length inp \<and> (r \<noteq> None \<longrightarrow> length inp' < length inp)"
proof (induction inp rule: any_field.induct)
  case (1 inp)
  show ?case
  proof (cases "fgets 1000 inp")
    case None
    with 1(2) show ?thesis by (simp add: any_field.simps [of inp])
  next
    case (Some x)
    obtain buf inp1 where x: "x = (buf, inp1)" by fastforce
    note l = fgets_shorter [OF Some [unfolded x]]
    show ?thesis using 1(2) 1(1) [OF Some x [symmetric] refl] l
      by (auto simp: any_field.simps [of inp] Some x Let_def c12r_errx_def split: if_splits)
  qed
qed

section \<open>Reading a test\<close>

definition zero_test :: test where
  "zero_test = \<lparr>t_name = [], t_desc = [], t_style = [], t_depends = None, t_link = None, t_fragment = [],
     t_flags = None, t_overrides = None, t_done = False, t_answer = False\<rparr>"

text \<open>The optional fields, up to \<^verbatim>\<open>code\<close>, whose value is returned with the test.\<close>

function read_options :: "test \<Rightarrow> bytes \<Rightarrow> (test \<times> cstr \<times> bytes) cres" where
  "read_options t inp =
     (case any_field inp of
        CExit code \<Rightarrow> CExit code
      | CCrash \<Rightarrow> CCrash
      | COk (None, inp) \<Rightarrow> c12r_errx EXIT_BAD_INPUT
      | COk (Some (field, value), inp) \<Rightarrow>
          if field = str ''depends'' then read_options (t\<lparr>t_depends := Some value\<rparr>) inp
          else if field = str ''link'' then read_options (t\<lparr>t_link := Some value\<rparr>) inp
          else if field = str ''flags'' then read_options (t\<lparr>t_flags := Some value\<rparr>) inp
          else if field = str ''overrides'' then read_options (t\<lparr>t_overrides := Some value\<rparr>) inp
          else if field = str ''code'' then COk (t, value, inp)
          else c12r_errx EXIT_BAD_INPUT)"
  by pat_completeness auto
termination
  by (relation "measure (\<lambda>(t, inp). length inp)") (auto dest!: any_field_shorter)

declare read_options.simps [simp del]

function read_code :: "cstr \<Rightarrow> bytes \<Rightarrow> cstr \<times> bytes" where
  "read_code value inp =
     (case fgets 1000 inp of
        None \<Rightarrow> (value, inp)
      | Some (buf, inp) \<Rightarrow>
          if take 7 (c_str buf) = str ''/*END*/'' then (value, inp)
          else read_code (value @ c_str buf) inp)"
  by pat_completeness auto
termination
  by (relation "measure (\<lambda>(value, inp). length inp)") (auto dest!: fgets_shorter)

declare read_code.simps [simp del]

definition read_test :: "bytes \<Rightarrow> (test option \<times> bytes) cres" where
  "read_test inp =
     bind_c (read_field (str ''var'') False inp) (\<lambda>(name, inp).
       case name of
         None \<Rightarrow> COk (None, inp)
       | Some name \<Rightarrow>
           bind_c (read_field (str ''desc'') True inp) (\<lambda>(desc, inp).
           bind_c (read_field (str ''style'') True inp) (\<lambda>(style, inp).
           bind_c (read_options (zero_test\<lparr>t_name := name, t_desc := the desc, t_style := the style\<rparr>) inp)
             (\<lambda>(t, value, inp).
               let (value, inp) = (if value = [] then read_code value inp else (value, inp))
               in COk (Some (t\<lparr>t_fragment := value\<rparr>), inp)))))"

lemma read_field_shorter: "read_field name c inp = COk (r, inp') \<Longrightarrow> length inp' \<le> length inp \<and> (r \<noteq> None \<longrightarrow> length inp' < length inp)"
  by (auto simp: read_field_def c12r_errx_def elim!: bind_c_OkE dest!: any_field_shorter split: option.splits if_splits)

lemma read_options_shorter: "read_options t inp = COk (t', v, inp') \<Longrightarrow> length inp' \<le> length inp"
proof (induction t inp rule: read_options.induct)
  case (1 t inp)
  from 1(5) obtain f inp1 where f: "any_field inp = COk (f, inp1)"
    by (auto simp: read_options.simps [of t inp] split: cres.splits)
  note l = any_field_shorter [OF f]
  show ?case
  proof (cases f)
    case None
    with 1(5) f show ?thesis by (simp add: read_options.simps [of t inp] c12r_errx_def)
  next
    case (Some x)
    obtain field v1 where x: "x = (field, v1)" by fastforce
    have a: "any_field inp = COk (Some (field, v1), inp1)" using f Some x by simp
    show ?thesis
      using 1(1) [OF a refl refl refl] 1(2) [OF a refl refl refl] 1(3) [OF a refl refl refl] 1(4) [OF a refl refl refl] 1(5) l
      by (auto simp: read_options.simps [of t inp] a c12r_errx_def split: if_splits)
  qed
qed

lemma read_code_shorter: "read_code v inp = (v', inp') \<Longrightarrow> length inp' \<le> length inp"
proof (induction v inp rule: read_code.induct)
  case (1 v inp)
  show ?case
  proof (cases "fgets 1000 inp")
    case None
    with 1(2) show ?thesis by (simp add: read_code.simps [of v inp])
  next
    case (Some x)
    obtain buf inp1 where x: "x = (buf, inp1)" by fastforce
    note l = fgets_shorter [OF Some [unfolded x]]
    show ?thesis using 1(2) 1(1) [OF Some x [symmetric]] l
      by (auto simp: read_code.simps [of v inp] Some x split: if_splits)
  qed
qed

lemma read_test_shorter: "read_test inp = COk (Some t, inp') \<Longrightarrow> length inp' < length inp"
  by (auto simp: read_test_def elim!: bind_c_OkE split: option.splits if_splits prod.splits
      dest!: read_field_shorter read_options_shorter read_code_shorter)

function read_tests :: "test list \<Rightarrow> bytes \<Rightarrow> test list cres" where
  "read_tests tests inp =
     (case read_test inp of
        CExit code \<Rightarrow> CExit code
      | CCrash \<Rightarrow> CCrash
      | COk (None, inp) \<Rightarrow> COk tests
      | COk (Some t, inp) \<Rightarrow> read_tests (tests @ [t]) inp)"
  by pat_completeness auto
termination
  by (relation "measure (\<lambda>(tests, inp). length inp)") (auto dest!: read_test_shorter)

declare read_tests.simps [simp del]

section \<open>The built-in tests\<close>

definition text_lines :: "string list \<Rightarrow> cstr" where
  "text_lines ls = concat (map (\<lambda>l. str l @ [10]) ls)"

definition base_test :: "string \<Rightarrow> string \<Rightarrow> string \<Rightarrow> string option \<Rightarrow> cstr \<Rightarrow> test" where
  "base_test name desc style depends fragment =
     zero_test\<lparr>t_name := str name, t_desc := str desc, t_style := str style, t_depends := map_option str depends,
       t_fragment := fragment\<rparr>"

definition base_tests :: "test list" where
  "base_tests =
   [base_test ''HAVE_UNALIGNED_ACCESS'' ''unaligned access to int'' ''DEFINES_EVERYTHING|EXECUTE'' None
      (text_lines [''#include <string.h>'', ''int main(int argc, char *argv[]) {''] @ [9] @
       text_lines [''(void)argc;'', ''     char pad[sizeof(int *) * 1];''] @ [9] @
       text_lines [''memcpy(pad, argv[0], sizeof(pad));''] @ [9] @
       text_lines [''int *x = (int *)pad, *y = (int *)(pad + 1);''] @ [9] @
       text_lines [''return *x == *y;'', ''}'']),
    base_test ''HAVE_TYPEOF'' ''__typeof__ support'' ''INSIDE_MAIN'' None
      (str ''__typeof__(argc) i; i = argc; return i == argc ? 0 : 1;''),
    base_test ''HAVE_BIG_ENDIAN'' ''big endian'' ''INSIDE_MAIN|EXECUTE'' None
      (text_lines [''union { int i; char c[sizeof(int)]; } u;'', ''u.i = 0x01020304;''] @
       str ''return u.c[0] == 0x01 && u.c[1] == 0x02 && u.c[2] == 0x03 && u.c[3] == 0x04 ? 0 : 1;''),
    base_test ''HAVE_BYTESWAP_H'' ''<byteswap.h>'' ''OUTSIDE_MAIN'' None (text_lines [''#include <byteswap.h>'']),
    base_test ''HAVE_BSWAP_64'' ''bswap64 in byteswap.h'' ''DEFINES_FUNC'' (Some ''HAVE_BYTESWAP_H'')
      (text_lines [''#include <byteswap.h>''] @ str ''static int func(int x) { return bswap_64(x); }''),
    base_test ''HAVE_LITTLE_ENDIAN'' ''little endian'' ''INSIDE_MAIN|EXECUTE'' None
      (text_lines [''union { int i; char c[sizeof(int)]; } u;'', ''u.i = 0x01020304;''] @
       str ''return u.c[0] == 0x04 && u.c[1] == 0x03 && u.c[2] == 0x02 && u.c[3] == 0x01 ? 0 : 1;'')]"

section \<open>The command line\<close>

definition DEFAULT_COMPILER :: cstr where "DEFAULT_COMPILER = str ''gcc''"
definition DEFAULT_FLAGS :: cstr where
  "DEFAULT_FLAGS = str ''-g3 -ggdb -Wall -Wundef -Wmissing-prototypes -Wmissing-declarations -Wstrict-prototypes -Wold-style-definition''"
definition DEFAULT_OUTPUT_EXE_FLAG :: cstr where "DEFAULT_OUTPUT_EXE_FLAG = str ''-o''"

record copts =
  o_outflag :: cstr
  o_configurator_cc :: "cstr option"
  o_wrapper :: cstr
  o_varfile :: "cstr option"
  o_headerfile :: "cstr option"
  o_extra_tests :: bool
  o_conf :: conf

definition copts0 :: copts where
  "copts0 = \<lparr>o_outflag = DEFAULT_OUTPUT_EXE_FLAG, o_configurator_cc = None, o_wrapper = [], o_varfile = None,
     o_headerfile = None, o_extra_tests = False, o_conf = \<lparr>verbose = 0, like_a_libtool = False\<rparr>\<rparr>"

definition has_prefix :: "string \<Rightarrow> cstr \<Rightarrow> bool" where
  "has_prefix p a \<longleftrightarrow> take (length p) a = str p"

text \<open>The options are consumed; the result is the arguments after them.\<close>

fun parse_copts :: "cstr list \<Rightarrow> copts \<Rightarrow> (copts \<times> cstr list) cres" where
  "parse_copts [] opts = COk (opts, [])"
| "parse_copts (a # as) opts =
     (if a = str ''--help'' then CExit 0
      else if has_prefix ''-O'' a then
        (if drop 2 a = [] then CExit EXIT_BAD_USAGE else parse_copts as (opts\<lparr>o_outflag := drop 2 a\<rparr>))
      else if a = str ''-v'' then
        parse_copts as (opts\<lparr>o_conf := (o_conf opts)\<lparr>verbose := verbose (o_conf opts) + 1\<rparr>\<rparr>)
      else if a = str ''-vv'' then
        parse_copts as (opts\<lparr>o_conf := (o_conf opts)\<lparr>verbose := verbose (o_conf opts) + 2\<rparr>\<rparr>)
      else if has_prefix ''--configurator-cc='' a then parse_copts as (opts\<lparr>o_configurator_cc := Some (drop 18 a)\<rparr>)
      else if has_prefix ''--wrapper='' a then parse_copts as (opts\<lparr>o_wrapper := drop 10 a\<rparr>)
      else if has_prefix ''--var-file='' a then parse_copts as (opts\<lparr>o_varfile := Some (drop 11 a)\<rparr>)
      else if a = str ''--autotools-style'' then
        parse_copts as (opts\<lparr>o_conf := (o_conf opts)\<lparr>like_a_libtool := True\<rparr>\<rparr>)
      else if has_prefix ''--header-file='' a then parse_copts as (opts\<lparr>o_headerfile := Some (drop 14 a)\<rparr>)
      else if a = str ''--extra-tests'' then parse_copts as (opts\<lparr>o_extra_tests := True\<rparr>)
      else if a = str ''--'' then COk (opts, a # as)
      else if has_prefix ''-'' a then c12r_errx EXIT_BAD_USAGE
      else COk (opts, a # as))"

section \<open>main\<close>

fun run_all :: "nat \<Rightarrow> cenv \<Rightarrow> conf \<Rightarrow> cstr \<Rightarrow> cstr \<Rightarrow> nat list \<Rightarrow> cst \<Rightarrow> cst cres option" where
  "run_all depth env cf cmd wrapper [] st = Some (COk st)"
| "run_all depth env cf cmd wrapper (i # is) st =
     (case run_test depth env cf cmd wrapper i st of
        None \<Rightarrow> None
      | Some (CExit code) \<Rightarrow> Some (CExit code)
      | Some CCrash \<Rightarrow> Some CCrash
      | Some (COk (_, st)) \<Rightarrow> run_all depth env cf cmd wrapper is st)"

definition flag01 :: "bool \<Rightarrow> cstr" where
  "flag01 b = (if b then str ''1'' else str ''0'')"

definition var_lines :: "test list \<Rightarrow> cstr" where
  "var_lines ts = concat (map (\<lambda>t. t_name t @ str ''='' @ flag01 (t_answer t) @ [10]) ts)"

definition define_lines :: "test list \<Rightarrow> cstr" where
  "define_lines ts = concat (map (\<lambda>t. str ''#define '' @ t_name t @ str '' '' @ flag01 (t_answer t) @ [10]) ts)"

definition quoted :: "string \<Rightarrow> cstr \<Rightarrow> cstr" where
  "quoted macro v = str ''#define '' @ str macro @ str '' '' @ [34] @ v @ [34, 10]"

definition header_text :: "cstr \<Rightarrow> cstr \<Rightarrow> cstr \<Rightarrow> test list \<Rightarrow> cstr" where
  "header_text orig_cc cflags outflag ts =
     text_lines [''/* Generated by CCAN configurator */'', ''#ifndef CCAN_CONFIG_H'', ''#define CCAN_CONFIG_H'',
       ''#ifndef _GNU_SOURCE'', ''#define _GNU_SOURCE /* Always use GNU extensions. */'', ''#endif'']
     @ quoted ''CCAN_COMPILER'' orig_cc
     @ quoted ''CCAN_CFLAGS'' cflags
     @ quoted ''CCAN_OUTPUT_EXE_CFLAG'' outflag @ [10]
     @ text_lines [''#define HAVE_CCAN 1'']
     @ define_lines ts
     @ text_lines [''#endif /* CCAN_CONFIG_H */'']"

text \<open>What a finished run leaves: the standard output, and the files written, each with its text.\<close>

record cdone =
  d_tests :: "test list"
  d_out :: cstr
  d_files :: "(cstr \<times> cstr) list"

definition write_vars :: "cenv \<Rightarrow> copts \<Rightarrow> cst \<Rightarrow> (cst \<times> (cstr \<times> cstr) list) cres" where
  "write_vars env opts st =
     (case o_varfile opts of
        None \<Rightarrow> COk (st, [])
      | Some varfile \<Rightarrow>
          if varfile = str ''-'' then COk (emit (var_lines (c_tests st)) st, [])
          else
            let st = start_test (o_conf opts) (str ''Writing variables to '') varfile st
            in if \<not> can_create env varfile then c12r_err EXIT_TROUBLE_RUNNING
               else COk (end_test (o_conf opts) True st, [(varfile, var_lines (c_tests st))]))"

definition write_header :: "cenv \<Rightarrow> copts \<Rightarrow> cstr \<Rightarrow> cstr \<Rightarrow> cst \<Rightarrow> (cst \<times> (cstr \<times> cstr) list) cres" where
  "write_header env opts orig_cc cflags st =
     (let header = header_text orig_cc cflags (o_outflag opts) (c_tests st)
      in case o_headerfile opts of
           None \<Rightarrow> COk (emit header st, [])
         | Some headerfile \<Rightarrow>
             let st = start_test (o_conf opts) (str ''Writing header to '') headerfile st
             in if \<not> can_create env headerfile then c12r_err EXIT_TROUBLE_RUNNING
                else COk (end_test (o_conf opts) True st, [(headerfile, header)]))"

text \<open>The tests, with those read from the standard input when asked for.\<close>

definition all_tests :: "copts \<Rightarrow> bytes \<Rightarrow> test list cres" where
  "all_tests opts inp = (if o_extra_tests opts then read_tests base_tests inp else COk base_tests)"

definition comfort :: "conf \<Rightarrow> cst \<Rightarrow> cst" where
  "comfort cf st =
     (if like_a_libtool cf then end_test cf True (start_test cf (str ''Making autoconf users comfortable'') [] st)
      else st)"

definition finish_config :: "cenv \<Rightarrow> copts \<Rightarrow> cstr \<Rightarrow> cstr \<Rightarrow> cst \<Rightarrow> cdone cres" where
  "finish_config env opts orig_cc cflags st =
     bind_c (write_vars env opts st) (\<lambda>(st, vars).
     bind_c (write_header env opts orig_cc cflags st) (\<lambda>(st, header).
       COk \<lparr>d_tests = c_tests st, d_out = c_out st, d_files = vars @ header\<rparr>))"

definition run_config :: "nat \<Rightarrow> cenv \<Rightarrow> copts \<Rightarrow> cstr list \<Rightarrow> test list \<Rightarrow> cdone cres option" where
  "run_config depth env opts argv tests =
     (let orig_cc = hd argv;
          argv = (case o_configurator_cc opts of None \<Rightarrow> argv | Some cc \<Rightarrow> cc # tl argv);
          cmd = connect_args ([] # argv) (o_outflag opts) (OUTPUT_FILE @ str '' '' @ INPUT_FILE);
          st = comfort (o_conf opts) \<lparr>c_tests = tests, c_calls = 0, c_out = []\<rparr>
      in case run_all depth env (o_conf opts) cmd (o_wrapper opts) [0..<length tests] st of
           None \<Rightarrow> None
         | Some r \<Rightarrow> Some (bind_c r (finish_config env opts orig_cc (connect_args argv [] []))))"

text \<open>\<open>argv\<close> is without the program's name.\<close>

definition config_main :: "nat \<Rightarrow> cenv \<Rightarrow> cstr list \<Rightarrow> bytes \<Rightarrow> cdone cres option" where
  "config_main depth env argv inp =
     (case parse_copts argv copts0 of
        CExit code \<Rightarrow> Some (CExit code)
      | CCrash \<Rightarrow> Some CCrash
      | COk (opts, argv) \<Rightarrow>
          let argv = (if argv = [] then [DEFAULT_COMPILER, DEFAULT_FLAGS] else argv)
          in (case all_tests opts inp of
                CExit code \<Rightarrow> Some (CExit code)
              | CCrash \<Rightarrow> Some CCrash
              | COk tests \<Rightarrow> run_config depth env opts argv tests))"

section \<open>What a finished run has done\<close>

lemma run_all_ok:
  "run_all depth env cf cmd wrapper is st = Some (COk st') \<Longrightarrow> (\<forall>i \<in> set is. i < length (c_tests st)) \<Longrightarrow>
   keeps st st' \<and> (\<forall>i \<in> set is. t_done (c_tests st' ! i))"
proof (induction "is" arbitrary: st)
  case (Cons i "is")
  from Cons.prems(1) obtain r st1 where t: "run_test depth env cf cmd wrapper i st = Some (COk (r, st1))"
    and a: "run_all depth env cf cmd wrapper is st1 = Some (COk st')"
    by (auto split: option.splits cres.splits)
  have i: "i < length (c_tests st)" using Cons.prems(2) by simp
  note k = run_keeps(1) [OF t i]
  have len: "length (c_tests st1) = length (c_tests st)" using k keeps_length by blast
  have IH: "keeps st1 st' \<and> (\<forall>i \<in> set is. t_done (c_tests st' ! i))"
    using Cons.IH [OF a] Cons.prems(2) len by simp
  have "t_done (c_tests st' ! i)" using IH k i len by (auto simp: keeps_def)
  with IH k show ?case using keeps_trans by auto
qed simp

lemma write_tests:
  "write_vars env opts st = COk (st', f) \<Longrightarrow> c_tests st' = c_tests st"
  "write_header env opts cc fl st = COk (st', f) \<Longrightarrow> c_tests st' = c_tests st"
  by (auto simp: write_vars_def write_header_def c12r_err_def Let_def split: option.splits if_splits)

lemma map_descr_fields: "map descr ts' = map descr ts \<Longrightarrow> map t_name ts' = map t_name ts"
proof -
  have "map t_name ts = map t_name (map descr ts)" for ts by (simp add: descr_def)
  then show "map descr ts' = map descr ts \<Longrightarrow> ?thesis" by metis
qed

lemma comfort_tests [simp]: "c_tests (comfort cf st) = c_tests st"
  by (simp add: comfort_def)

lemma config_main_OkE:
  assumes "config_main depth env argv inp = Some (COk d)"
  obtains opts rest tests st cc fl where "parse_copts argv copts0 = COk (opts, rest)"
    and "all_tests opts inp = COk tests" and "finish_config env opts cc fl st = COk d"
    and "map descr (c_tests st) = map descr tests" and "list_all t_done (c_tests st)"
proof -
  from assms obtain opts rest tests args where p: "parse_copts argv copts0 = COk (opts, rest)"
    "all_tests opts inp = COk tests" "run_config depth env opts args tests = Some (COk d)"
    by (auto simp: config_main_def Let_def split: cres.splits prod.splits)
  let ?st = "comfort (o_conf opts) \<lparr>c_tests = tests, c_calls = 0, c_out = []\<rparr>"
  from p(3) obtain cmd st cc fl where r: "run_all depth env (o_conf opts) cmd (o_wrapper opts) [0..<length tests] ?st = Some (COk st)"
    and f: "finish_config env opts cc fl st = COk d"
    by (auto simp: run_config_def Let_def elim!: bind_c_OkE split: option.splits)
  have k: "keeps ?st st" "\<forall>i \<in> set [0..<length tests]. t_done (c_tests st ! i)" using run_all_ok [OF r] by simp_all
  then have "list_all t_done (c_tests st)" using keeps_length [OF k(1)] by (simp add: list_all_length)
  with that p(1,2) f k(1) show thesis by (simp add: keeps_def)
qed

lemma base_tests_rank: "dep_rank base_tests (\<lambda>i. if i = 4 then 1 else 0)"
proof -
  have dw: "dep_words (str ''HAVE_BYTESWAP_H'') = [(str ''HAVE_BYTESWAP_H'', False)]" by code_simp
  have f: "find_name (snd (dep_target (str ''HAVE_BYTESWAP_H''))) base_tests 0 = Some 3" by code_simp
  have deps: "map t_depends base_tests = [None, None, None, None, Some (str ''HAVE_BYTESWAP_H''), None]"
    by (simp add: base_tests_def base_test_def zero_test_def)
  have len: "length base_tests = 6" by (simp add: base_tests_def)
  show ?thesis unfolding dep_rank_def
  proof (intro allI impI ballI)
    fix i deps w j
    assume i: "i < length base_tests" and d: "t_depends (base_tests ! i) = Some deps"
      and w: "w \<in> set (dep_words deps)" and j: "find_name (snd (dep_target (fst w))) base_tests 0 = Some j"
    have "map t_depends base_tests ! i = Some deps" using i d by simp
    then have "i = 4 \<and> deps = str ''HAVE_BYTESWAP_H''"
      unfolding \<open>map t_depends base_tests = _\<close> using i len
      by (auto simp: less_Suc_eq numeral_eq_Suc nth_Cons' split: if_splits)
    with w j f dw show "(if j = 4 then 1 else 0) < (if i = 4 then 1 else (0 :: nat))" by simp
  qed
qed

lemma run_all_terminates:
  assumes "dep_rank (c_tests st) rank" and "\<forall>i \<in> set is. i < length (c_tests st) \<and> rank i < depth"
  shows "run_all depth env cf cmd wrapper is st \<noteq> None"
  using assms
proof (induction "is" arbitrary: st)
  case (Cons i "is")
  have i: "i < length (c_tests st)" "rank i < depth" using Cons.prems(2) by simp_all
  from run_test_deep_enough(1) [OF i(2,1) Cons.prems(1)] obtain r where
    r: "run_test depth env cf cmd wrapper i st = Some r" by blast
  show ?case
  proof (cases r)
    case (COk x)
    obtain b st1 where x: "x = (b, st1)" by fastforce
    have k: "keeps st st1" using run_keeps(1) [OF _ i(1)] r COk x by blast
    have "run_all depth env cf cmd wrapper is st1 \<noteq> None"
      using Cons.IH [of st1] Cons.prems keeps_dep_rank [OF k] keeps_length [OF k] by simp
    with r COk x show ?thesis by simp
  qed (use r in simp_all)
qed simp

section \<open>Descriptions as text\<close>

definition field_line :: "string \<Rightarrow> cstr \<Rightarrow> cstr" where
  "field_line f v = str f @ str ''='' @ v @ [10]"

definition opt_line :: "string \<Rightarrow> cstr option \<Rightarrow> cstr" where
  "opt_line f v = (case v of None \<Rightarrow> [] | Some x \<Rightarrow> field_line f x)"

definition print_test :: "test \<Rightarrow> cstr" where
  "print_test t =
     field_line ''var'' (t_name t) @ field_line ''desc'' (t_desc t) @ field_line ''style'' (t_style t) @
     opt_line ''depends'' (t_depends t) @ opt_line ''link'' (t_link t) @ opt_line ''flags'' (t_flags t) @
     opt_line ''overrides'' (t_overrides t) @ field_line ''code'' (t_fragment t)"

definition line_value :: "cstr \<Rightarrow> bool" where
  "line_value v \<longleftrightarrow> 10 \<notin> set v \<and> 0 \<notin> set v \<and> length v < 980"

lemma takeWhile_stop: "x \<notin> set xs \<Longrightarrow> takeWhile (\<lambda>y. y \<noteq> x) (xs @ x # ys) = xs"
  by (induction xs) auto

lemma dropWhile_stop: "x \<notin> set xs \<Longrightarrow> dropWhile (\<lambda>y. y \<noteq> x) (xs @ x # ys) = x # ys"
  by (induction xs) auto

lemma fgets_line:
  assumes "10 \<notin> set l" and "length l < 998"
  shows "fgets 1000 (l @ 10 # r) = Some (l @ [10], r)"
  using assms by (simp add: fgets_def takeWhile_stop Let_def min_def)

lemma any_field_line:
  assumes "f = ''var'' \<or> f = ''desc'' \<or> f = ''style'' \<or> f = ''depends'' \<or> f = ''link'' \<or> f = ''flags'' \<or>
      f = ''overrides'' \<or> f = ''code''" and "line_value v"
  shows "any_field (field_line f v @ r) = COk (Some (str f, v), r)"
proof -
  have f: "61 \<notin> set (str f)" "10 \<notin> set (str f)" "0 \<notin> set (str f)" "length (str f) \<le> 9" "str f \<noteq> []"
    "hd (str f) \<noteq> 32" "hd (str f) \<noteq> 9" "hd (str f) \<noteq> 35" "hd (str f) \<noteq> 10"
    using assms(1) by (auto simp: bytes_simps)
  let ?l = "str f @ 61 # v"
  have "10 \<notin> set ?l" "length ?l < 998" using f(2,4) assms(2) by (simp_all add: line_value_def)
  note g = fgets_line [OF this, of r]
  have "c_str (?l @ [10]) = ?l @ [10]"
    using f(3) assms(2) by (auto simp: c_str_def line_value_def intro!: takeWhile_eq_all_conv [THEN iffD2])
  moreover have "dropWhile (\<lambda>c. c = 32 \<or> c = 9) (?l @ [10]) = ?l @ [10]" using f(5,6,7) by (cases "str f") auto
  moreover have "takeWhile (\<lambda>c. c \<noteq> 61) (str f @ 61 # v @ [10]) = str f" "dropWhile (\<lambda>c. c \<noteq> 61) (str f @ 61 # v @ [10]) = 61 # v @ [10]"
    using f(1) by (simp_all add: takeWhile_stop dropWhile_stop)
  ultimately have "any_field (?l @ 10 # r) = COk (Some (str f, v), r)"
    using f(5,8,9) by (simp add: any_field.simps [of "str f @ 61 # v @ 10 # r"] g [simplified] Let_def chr_def hd_append)
  then show ?thesis by (simp add: field_line_def str_def)
qed

lemma read_field_line:
  "f = ''var'' \<or> f = ''desc'' \<or> f = ''style'' \<Longrightarrow> line_value v \<Longrightarrow>
   read_field (str f) c (field_line f v @ r) = COk (Some v, r)"
  by (subst read_field_def, subst any_field_line) auto

lemma read_options_line:
  assumes "case v of None \<Rightarrow> True | Some x \<Rightarrow> line_value x"
  shows "read_options t (opt_line ''depends'' v @ r) = read_options (case v of None \<Rightarrow> t | Some x \<Rightarrow> t\<lparr>t_depends := v\<rparr>) r"
    "read_options t (opt_line ''link'' v @ r) = read_options (case v of None \<Rightarrow> t | Some x \<Rightarrow> t\<lparr>t_link := v\<rparr>) r"
    "read_options t (opt_line ''flags'' v @ r) = read_options (case v of None \<Rightarrow> t | Some x \<Rightarrow> t\<lparr>t_flags := v\<rparr>) r"
    "read_options t (opt_line ''overrides'' v @ r) = read_options (case v of None \<Rightarrow> t | Some x \<Rightarrow> t\<lparr>t_overrides := v\<rparr>) r"
  using assms
  by (cases v; simp add: opt_line_def read_options.simps [of t "field_line _ _ @ _"] any_field_line bytes_simps)+

lemma read_code_line: "line_value v \<Longrightarrow> read_options t (field_line ''code'' v @ r) = COk (t, v, r)"
  by (simp add: read_options.simps [of t "field_line _ _ @ _"] any_field_line bytes_simps)

text \<open>Descriptions that can be written on lines: every value fits one, and the code is not empty.\<close>

definition printable :: "test \<Rightarrow> bool" where
  "printable t \<longleftrightarrow>
     list_all line_value [t_name t, t_desc t, t_style t, t_fragment t] \<and> t_fragment t \<noteq> [] \<and>
     list_all (\<lambda>v. case v of None \<Rightarrow> True | Some x \<Rightarrow> line_value x) [t_depends t, t_link t, t_flags t, t_overrides t] \<and>
     \<not> t_done t \<and> \<not> t_answer t"

lemma read_print_test:
  assumes "printable t"
  shows "read_test (print_test t @ r) = COk (Some t, r)"
proof -
  let ?t = "zero_test\<lparr>t_name := t_name t, t_desc := t_desc t, t_style := t_style t\<rparr>"
  have "read_options ?t (opt_line ''depends'' (t_depends t) @ opt_line ''link'' (t_link t) @ opt_line ''flags'' (t_flags t) @
      opt_line ''overrides'' (t_overrides t) @ field_line ''code'' (t_fragment t) @ r)
    = COk (?t\<lparr>t_depends := t_depends t, t_link := t_link t, t_flags := t_flags t, t_overrides := t_overrides t\<rparr>, t_fragment t, r)"
    using assms by (simp add: printable_def read_options_line read_code_line)
      (auto simp: zero_test_def split: option.splits)
  moreover have "?t\<lparr>t_depends := t_depends t, t_link := t_link t, t_flags := t_flags t, t_overrides := t_overrides t,
      t_fragment := t_fragment t\<rparr> = t"
    using assms by (cases t) (simp add: printable_def zero_test_def)
  ultimately show ?thesis
    using assms by (simp add: read_test_def print_test_def printable_def read_field_line)
qed

lemma finish_config_header:
  assumes "finish_config env opts cc fl st = COk d"
  shows "d_tests d = c_tests st \<and>
         (case o_headerfile opts of
            None \<Rightarrow> \<exists>pre. d_out d = pre @ header_text cc fl (o_outflag opts) (d_tests d)
          | Some f \<Rightarrow> (f, header_text cc fl (o_outflag opts) (d_tests d)) \<in> set (d_files d))"
proof -
  from assms obtain st1 vars st2 header where w: "write_vars env opts st = COk (st1, vars)"
    "write_header env opts cc fl st1 = COk (st2, header)"
    "d = \<lparr>d_tests = c_tests st2, d_out = c_out st2, d_files = vars @ header\<rparr>"
    by (auto simp: finish_config_def elim!: bind_c_OkE)
  have "c_tests st1 = c_tests st" "c_tests st2 = c_tests st" using write_tests w(1,2) by metis+
  with w(2,3) show ?thesis
    by (auto simp: write_header_def emit_def c12r_err_def Let_def split: option.splits if_splits)
qed

section \<open>Properties\<close>

text \<open>
  C39. The header: when the configurator finishes, every test of the table, the built-in ones followed
  by those read, has been settled, and the header written to the file asked for (or at the end of
  the standard output) defines exactly those names, in that order, each as its answer.
\<close>

theorem config_header_complete:
  assumes "config_main depth env argv inp = Some (COk d)"
  shows "\<exists>opts rest tests cc fl. parse_copts argv copts0 = COk (opts, rest) \<and> all_tests opts inp = COk tests \<and>
         map t_name (d_tests d) = map t_name tests \<and> list_all t_done (d_tests d) \<and>
         (case o_headerfile opts of
            None \<Rightarrow> \<exists>pre. d_out d = pre @ header_text cc fl (o_outflag opts) (d_tests d)
          | Some f \<Rightarrow> (f, header_text cc fl (o_outflag opts) (d_tests d)) \<in> set (d_files d))"
proof -
  obtain opts rest tests st cc fl where c: "parse_copts argv copts0 = COk (opts, rest)"
    "all_tests opts inp = COk tests" "finish_config env opts cc fl st = COk d"
    "map descr (c_tests st) = map descr tests" "list_all t_done (c_tests st)"
    using config_main_OkE [OF assms] .
  from finish_config_header [OF c(3)] c(1,2,5) map_descr_fields [OF c(4)] show ?thesis by auto
qed

text \<open>
  The configurator ends: without further tests from the input, a recursion of depth two is always
  enough, whatever the compiler and the test programs do.
\<close>

theorem config_main_ends:
  assumes "2 \<le> depth" and "\<And>opts rest. parse_copts argv copts0 = COk (opts, rest) \<Longrightarrow> \<not> o_extra_tests opts"
  shows "config_main depth env argv inp \<noteq> None"
proof (cases "parse_copts argv copts0")
  case (COk x)
  obtain opts rest where x: "x = (opts, rest)" by fastforce
  have t: "all_tests opts inp = COk base_tests" using assms(2) COk x by (simp add: all_tests_def)
  have "run_config depth env opts args base_tests \<noteq> None" for args
  proof -
    have "run_all depth env (o_conf opts) cmd (o_wrapper opts) [0..<length base_tests]
        (comfort (o_conf opts) \<lparr>c_tests = base_tests, c_calls = 0, c_out = []\<rparr>) \<noteq> None" for cmd
      using assms(1) base_tests_rank by (intro run_all_terminates [where rank = "\<lambda>i. if i = 4 then 1 else 0"]) auto
    then show ?thesis by (auto simp: run_config_def Let_def split: option.splits)
  qed
  with COk x t show ?thesis by (simp add: config_main_def Let_def)
qed (simp_all add: config_main_def)

theorem config_main_ends_witness: "config_main 2 toy_cenv [] [] \<noteq> None"
  by (rule config_main_ends) (simp_all add: copts0_def)

theorem config_header_complete_witness:
  "\<exists>d tests. config_main 2 toy_cenv [str ''--header-file=h''] [] = Some (COk d) \<and> all_tests copts0 [] = COk tests \<and>
     map t_name (d_tests d) = map t_name tests \<and> list_all t_done (d_tests d)"
proof -
  have p: "parse_copts [str ''--header-file=h''] copts0 = COk (copts0\<lparr>o_headerfile := Some (str ''h'')\<rparr>, [])"
    by code_simp
  have "case config_main 2 toy_cenv [str ''--header-file=h''] [] of Some (COk d) \<Rightarrow> True | _ \<Rightarrow> False" by code_simp
  then obtain d where d: "config_main 2 toy_cenv [str ''--header-file=h''] [] = Some (COk d)"
    by (auto split: option.splits cres.splits)
  from config_header_complete [OF d] d p show ?thesis by (auto simp: all_tests_def copts0_def)
qed

text \<open>
  Reading test descriptions: a description written as lines \<open>var=\<close>, \<open>desc=\<close>, \<open>style=\<close>, the optional
  fields and \<open>code=\<close> is read back as the test it describes, and the rest of the input is left.
\<close>

theorem read_test_roundtrip:
  assumes "printable t"
  shows "read_test (print_test t @ rest) = COk (Some t, rest)"
  by (rule read_print_test [OF assms])

theorem read_test_roundtrip_witness:
  "read_test (print_test (toy_test\<lparr>t_fragment := str ''int x;'', t_link := Some (str ''-lm'')\<rparr>) @ str ''var='')
     = COk (Some (toy_test\<lparr>t_fragment := str ''int x;'', t_link := Some (str ''-lm'')\<rparr>), str ''var='')"
  by (rule read_test_roundtrip) (simp add: printable_def line_value_def toy_test_def bytes_simps)

end
