(* ===== verification/Variants.thy ===== *)
theory Variants
  imports Gnostr
begin

text \<open>
  The variants of \<open>gnostr\<close>: \<^verbatim>\<open>devtools/gnostr-git.c\<close> and \<^verbatim>\<open>devtools/.gnostr-relay.c\<close>, whose functions
  from the writers to the stages of \<^verbatim>\<open>main\<close> are those of \<^verbatim>\<open>gnostr.c\<close> word by word and which differ in
  their texts, in the options that end the program at once, and in the name of their subcommands; and
  the utility \<^verbatim>\<open>sources/gnostr-xor.c\<close>. The options that end the program are a function \<open>early\<close> of the
  word and of what follows it.
\<close>

section \<open>Parsing and main with other texts\<close>

type_synonym early_options = "cstr \<Rightarrow> cstr list \<Rightarrow> pstate parse_result option"

function variant_parse_loop :: "early_options \<Rightarrow> cstr list \<Rightarrow> pstate \<Rightarrow> pstate parse_result" where
  "variant_parse_loop early argv st =
     (case argv of
        [] \<Rightarrow> POk st
      | arg # later \<Rightarrow>
          (case early arg later of
             Some r \<Rightarrow> r
           | None \<Rightarrow>
               (case later of
                  [] \<Rightarrow> PFail
                | v # rest \<Rightarrow>
                    (case parse_option arg v rest st of
                       None \<Rightarrow> PFail
                     | Some (st', r) \<Rightarrow> variant_parse_loop early r st'))))"
  by pat_completeness auto
termination
  by (relation "measure (\<lambda>(early, argv, st). length argv)") (auto dest: parse_option_consumes)

declare variant_parse_loop.simps [simp del]

definition variant_parse_args :: "early_options \<Rightarrow> cstr list \<Rightarrow> nat \<Rightarrow> (args \<times> nostr_event) parse_result" where
  "variant_parse_args early argv errno =
     (case variant_parse_loop early (tl argv)
             \<lparr>p_args = zero_args, p_ev = zero_event, p_added = False, p_errno = errno\<rparr> of
        PPrint out \<Rightarrow> PPrint out
      | PSystem cmd \<Rightarrow> PSystem cmd
      | PCrash \<Rightarrow> PCrash
      | PFail \<Rightarrow> PFail
      | POk st \<Rightarrow>
          let args = p_args st
          in POk (if a_content args = None then args\<lparr>a_content := Some []\<rparr> else args, p_ev st))"

definition variant_main ::
  "cstr \<Rightarrow> (sys \<Rightarrow> cstr list \<Rightarrow> (cstr \<times> cstr list) option) \<Rightarrow> early_options \<Rightarrow>
   secp256k1 \<Rightarrow> sys \<Rightarrow> cstr list \<Rightarrow> run option" where
  "variant_main usage_text subcommand early lib os argv =
     (if length argv < 2 then Some (RExit 0 usage_text)
      else (case init_secp_context lib os 0 of (ok, n) \<Rightarrow>
        if \<not> ok then Some (RExit 2 [])
        else (case subcommand os argv of
                Some (prog, av) \<Rightarrow> Some (RExec prog av)
              | None \<Rightarrow>
                  (case variant_parse_args early argv (errno0 os) of
                     PPrint out \<Rightarrow> Some (RExit 0 out)
                   | PSystem cmd \<Rightarrow> Some (RSystem cmd)
                   | PCrash \<Rightarrow> Some RCrash
                   | PFail \<Rightarrow> Some (RExit 0 usage_text)
                   | POk (args, ev) \<Rightarrow>
                       let ev = (if a_tags args \<noteq> None then ev\<lparr>ev_explicit_tags := a_tags args\<rparr> else ev)
                       in main_event lib os n args (make_event_from_args os args ev)))))"

section \<open>gnostr-git\<close>

definition git_usage :: cstr where
  "git_usage = concat (map (\<lambda>l. l @ [10])
     [str ''usage: gnostr-git [OPTIONS]'', [], str ''  GIT OPTIONS'', [],
      str ''      --commit <string>               a git commit'',
      str ''      --content <string>              the content of a blob'',
      str ''      --blob <string>                 the id of a blob'', [],
      str ''      --hash <value>                  return sha256 of <value>'', []])"

definition git_about :: cstr where
  "git_about = str ''gnostr-git: the gnostr git command line interface..'' @ [10]"

definition git_early :: early_options where
  "git_early arg later =
     (if arg = str ''--help'' \<or> arg = str ''-h'' then Some (PPrint git_usage)
      else if arg = str ''--version'' \<or> arg = str ''-v'' then Some (PPrint version)
      else if arg = str ''--about'' \<or> arg = str ''-a'' then Some (PPrint git_about)
      else if arg = str ''--hash'' then Some (openssl_hash (case later of [] \<Rightarrow> None | h # _ \<Rightarrow> Some h))
      else None)"

definition git_parse_args :: "cstr list \<Rightarrow> nat \<Rightarrow> (args \<times> nostr_event) parse_result" where
  "git_parse_args = variant_parse_args git_early"

definition git_main :: "secp256k1 \<Rightarrow> sys \<Rightarrow> cstr list \<Rightarrow> run option" where
  "git_main = variant_main git_usage try_subcommand git_early"

section \<open>gnostr-relay\<close>

definition relay_usage :: cstr where
  "relay_usage = concat (map (\<lambda>l. l @ [10])
     [str ''usage: gnostr-relay [OPTIONS]'', [], str ''  RELAY OPTIONS'', [],
      str ''  gnostr-relay --initialize [--init] [-i]'', []])"

definition relay_about :: cstr where
  "relay_about = str ''gnostr-relay: gnostr relay interface.'' @ [10]"

definition relay_init :: cstr where
  "relay_init = str ''gnostr-relay --init.'' @ [10]"

definition relay_early :: early_options where
  "relay_early arg later =
     (if arg = str ''--help'' \<or> arg = str ''-h'' then Some (PPrint relay_usage)
      else if arg = str ''--version'' \<or> arg = str ''-v'' then Some (PPrint version)
      else if arg = str ''--about'' \<or> arg = str ''-a'' then Some (PPrint relay_about)
      else if arg = str ''--initialize'' \<or> arg = str ''--init'' \<or> arg = str ''-i'' then Some (PPrint relay_init)
      else if arg = str ''--hash'' then Some (openssl_hash (case later of [] \<Rightarrow> None | h # _ \<Rightarrow> Some h))
      else None)"

definition relay_try_subcommand :: "sys \<Rightarrow> cstr list \<Rightarrow> (cstr \<times> cstr list) option" where
  "relay_try_subcommand os argv =
     (let sub = argv ! 1
      in if length sub \<ge> 7 \<and> sub ! 0 \<noteq> chr CHR ''-'' then
           let buf = snprintf 127 (str ''gnostr-relay-'' @ sub)
           in if execvp os buf (tl argv) then Some (buf, tl argv) else None
         else None)"

definition relay_parse_args :: "cstr list \<Rightarrow> nat \<Rightarrow> (args \<times> nostr_event) parse_result" where
  "relay_parse_args = variant_parse_args relay_early"

definition relay_main :: "secp256k1 \<Rightarrow> sys \<Rightarrow> cstr list \<Rightarrow> run option" where
  "relay_main = variant_main relay_usage relay_try_subcommand relay_early"

section \<open>gnostr-xor\<close>

text \<open>\<open>openssl_hash\<close> ends the program, so what follows its calls in \<^verbatim>\<open>parse_args\<close> is dead code.\<close>

definition xor_usage :: cstr where
  "xor_usage = concat (map (\<lambda>l. l @ [10])
     [str ''usage: gnostr-xor [OPTIONS]'', [], str ''  XOR OPTIONS'', [],
      str ''      --help                          '',
      str ''      --about                         '',
      str ''      --xor <value> <value>           return xor of <value>'', []])"

definition xor_about :: cstr where
  "xor_about = str ''gnostr-xor: the gnostr xor utility.'' @ [10]"

definition xor_parse_args :: "cstr list \<Rightarrow> args parse_result" where
  "xor_parse_args argv =
     (case tl argv of
        [] \<Rightarrow> POk (zero_args\<lparr>a_content := Some []\<rparr>)
      | arg # later \<Rightarrow>
          if arg = str ''--help'' \<or> arg = str ''-h'' then PPrint xor_usage
          else if arg = str ''--about'' \<or> arg = str ''-a'' then PPrint xor_about
          else if arg = str ''--hash'' then openssl_hash (case later of [] \<Rightarrow> None | h # _ \<Rightarrow> Some h)
          else if arg = str ''--xor'' then openssl_hash (Some arg)
          else PPrint [])"

definition xor_main :: "sys \<Rightarrow> cstr list \<Rightarrow> run" where
  "xor_main os argv =
     (if length argv < 2 then RExit 0 xor_usage
      else (case try_subcommand os argv of
              Some (prog, av) \<Rightarrow> RExec prog av
            | None \<Rightarrow>
                (case xor_parse_args argv of
                   PPrint out \<Rightarrow> RExit 0 out
                 | PSystem cmd \<Rightarrow> RSystem cmd
                 | PCrash \<Rightarrow> RCrash
                 | PFail \<Rightarrow> RExit 0 xor_usage
                 | POk args \<Rightarrow> RExit 0 [])))"

section \<open>What the variants share with gnostr\<close>

lemma parse_option_not_early:
  assumes "parse_option arg v rest st = Some r"
  shows "arg \<notin> {str ''--help'', str ''-h'', str ''--version'', str ''-v'', str ''--about'', str ''-a'', str ''--hash''}"
  using assms by (auto simp: parse_option_def Let_def bytes_simps)

text \<open>The interface: options that only print one of the texts, run a command or crash.\<close>

locale early_stop =
  fixes early :: early_options and texts :: "cstr set"
  assumes never_ok: "early arg later \<noteq> Some (POk st)"
    and prints: "early arg later = Some (PPrint out) \<Longrightarrow> out \<in> texts"
begin

lemma loop_POk: "variant_parse_loop early argv st = POk st' \<Longrightarrow> parse_loop argv st = POk st'"
proof (induction argv arbitrary: st rule: length_induct)
  case (1 argv)
  show ?case
  proof (cases argv)
    case Nil
    with 1(2) show ?thesis by (simp add: variant_parse_loop.simps [of _ "[]"] parse_loop.simps [of "[]"])
  next
    case (Cons arg later)
    with 1(2) obtain v rest st1 r where step: "later = v # rest" "parse_option arg v rest st = Some (st1, r)"
      "variant_parse_loop early r st1 = POk st'"
      by (auto simp: variant_parse_loop.simps [of _ "_ # _"] never_ok split: list.splits option.splits)
    then have "parse_loop r st1 = POk st'"
      using 1(1) Cons parse_option_consumes [OF step(2)] by auto
    with step parse_option_not_early [OF step(2)] Cons show ?thesis
      by (simp add: parse_loop.simps [of "arg # v # rest"])
  qed
qed

lemma loop_prints: "variant_parse_loop early argv st = PPrint out \<Longrightarrow> out \<in> texts"
proof (induction argv arbitrary: st rule: length_induct)
  case (1 argv)
  show ?case
  proof (cases argv)
    case Nil
    with 1(2) show ?thesis by (simp add: variant_parse_loop.simps [of _ "[]"])
  next
    case (Cons arg later)
    show ?thesis
    proof (cases "early arg later")
      case None
      with Cons 1(2) obtain v rest st1 r where step: "later = v # rest" "parse_option arg v rest st = Some (st1, r)"
        "variant_parse_loop early r st1 = PPrint out"
        by (auto simp: variant_parse_loop.simps [of _ "_ # _"] split: list.splits option.splits)
      moreover have "length r < length argv" using Cons step(1) parse_option_consumes [OF step(2)] by simp
      ultimately show ?thesis using 1(1) by blast
    next
      case (Some r)
      with Cons 1(2) show ?thesis by (auto simp: variant_parse_loop.simps [of _ "_ # _"] intro: prints)
    qed
  qed
qed

lemma parse_POk: "variant_parse_args early argv e = POk r \<Longrightarrow> parse_args argv e = POk r"
  unfolding variant_parse_args_def parse_args_def
  by (auto dest!: loop_POk simp: Let_def split: parse_result.splits)

lemma parse_prints: "variant_parse_args early argv e = PPrint out \<Longrightarrow> out \<in> texts"
  unfolding variant_parse_args_def Let_def by (auto dest: loop_prints split: parse_result.splits)

lemma main_exit:
  assumes "secp_laws lib verify" and "variant_main use sub early lib os argv = Some (RExit code out)" and "use \<in> texts"
  shows "code = 0 \<and> out \<in> texts \<or> code \<in> {0, 2, 4, 5, 6, 8, 22} \<and> out = [] \<or>
         code = 0 \<and> (\<exists>args ev0 ev. parse_args argv (errno0 os) = POk (args, ev0) \<and>
            out = event_text ev (has_flag args HAS_ENVELOPE) \<and> event_valid verify ev \<and>
            event_requested lib os args (ev_tags ev0) ev)"
proof (cases "variant_parse_args early argv (errno0 os)")
  case (POk r)
  obtain args ev0 where r: "r = (args, ev0)" by (cases r)
  note p = parse_POk [OF POk [unfolded r]]
  from assms(2,3) have "code = 0 \<and> out \<in> texts \<or> code = 2 \<and> out = [] \<or>
      (\<exists>n. main_event lib os n args (start_event os args ev0) = Some (RExit code out))"
    unfolding variant_main_def POk r Let_def start_event_def [symmetric]
    by (auto split: if_splits prod.splits option.splits)
  with main_event_cases [OF assms(1) parse_args_ready [OF p]] p show ?thesis by fastforce
qed (use assms(2,3) parse_prints in \<open>auto simp: variant_main_def split: if_splits prod.splits option.splits\<close>)

end

interpretation git: early_stop git_early "{git_usage, version, git_about}"
  by unfold_locales (auto simp: git_early_def openssl_hash_def split: if_splits)

interpretation relay: early_stop relay_early "{relay_usage, version, relay_about, relay_init}"
  by unfold_locales (auto simp: relay_early_def openssl_hash_def split: if_splits)


lemma git_parse_note:
  "variant_parse_args git_early [prog, str ''--sec'', s, str ''--content'', c] e = POk (note_args s c, zero_event)"
  by (simp add: variant_parse_args_def variant_parse_loop.simps git_early_def parse_option_def Let_def str_def)

lemma hd_git_texts: "hd git_usage \<noteq> 123" "hd git_about \<noteq> 123"
  by code_simp+


text \<open>
  \<open>gnostr-xor --xor\<close> computes no exclusive or: whatever the values are, it hashes the text of its own
  option.
\<close>

theorem xor_hashes_its_option:
  "xor_main os (prog # str ''--xor'' # rest) = RSystem (hash_command (Some (str ''--xor'')))"
  by (simp add: xor_main_def try_subcommand_def xor_parse_args_def openssl_hash_def hash_command_def hash_pipe_def
      bytes_simps)

end
