(* ===== verification/Nostri.thy ===== *)
theory Nostri
  imports Variants
begin

unbundle bit_operations_syntax

text \<open>
  The library \<^verbatim>\<open>src/nostril/nostri.c\<close> and the program \<^verbatim>\<open>src/nostril/nostril.c\<close>. Most of their
  functions are those of \<^verbatim>\<open>gnostr.c\<close> line by line, and the definitions of the other theories are
  used for them. What is different is defined here: a null content is allowed and writes nothing,
  \<open>print_event\<close> formats every part of the event in an array of 1024 bytes and returns the text,
  \<open>make_message\<close> is the interface of the library, and the program has fewer options, ends with code 1
  after the usage text, and writes the event to the standard error, twice: once in \<open>print_event\<close> and once
  in \<open>main\<close>. The diagnostic lines on the standard error (errors, the secret key of a generated key, the
  shared secret, the mined bits) are left out. A write past the end of an array is \<open>Abort\<close>.
\<close>

section \<open>Events with a null content\<close>

definition nostri_push_jsonstr :: "cstr option \<Rightarrow> cst \<Rightarrow> bool \<times> cst" where
  "nostri_push_jsonstr s = (case s of None \<Rightarrow> (\<lambda>c. (True, c)) | Some s \<Rightarrow> cursor_push_jsonstr s)"

definition nostri_event_commitment ::
  "nostr_event \<Rightarrow> addr \<Rightarrow> int \<Rightarrow> memory \<Rightarrow> (int \<times> memory) outcome" where
  "nostri_event_commitment ev buf buflen m =
     bind_outcome (hex_encode (ev_pubkey ev) 65) (\<lambda>r.
       case r of
         None \<Rightarrow> Abort
       | Some pubkey \<Rightarrow>
           let cur = make_cursor buf (buf + buflen);
               timebuf = snprintf 16 (dec_u (unat (ev_created_at ev)));
               kindbuf = snprintf 16 (dec_s (sint (ev_kind ev)));
               (ok, (cur, m)) =
                 and_all
                   [cursor_push_str (str ''[0,'' @ [34]),
                    cursor_push_str pubkey,
                    cursor_push_str (34 # str '',''),
                    cursor_push_str timebuf,
                    cursor_push_str (str '',''),
                    cursor_push_str kindbuf,
                    cursor_push_str (str '',''),
                    cursor_push_tags (ev_explicit_tags ev) (ev_tags ev),
                    cursor_push_str (str '',''),
                    nostri_push_jsonstr (ev_content ev),
                    cursor_push_str (str '']'')] (cur, m)
           in Ret (if \<not> ok then (0, m) else (c_p cur - c_start cur, m)))"

definition nostri_generate_event_id :: "nostr_event \<Rightarrow> (bool \<times> nostr_event) outcome" where
  "nostri_generate_event_id ev =
     bind_outcome (nostri_event_commitment ev 0 102400 (\<lambda>_. 0)) (\<lambda>(len, m).
       if len = 0 then Ret (False, ev)
       else bind_outcome (sha256 (mem_read m 0 (nat len))) (\<lambda>h. Ret (True, ev\<lparr>ev_id := h\<rparr>)))"

partial_function (option) nostri_mine_loop ::
  "nat \<Rightarrow> u32 \<Rightarrow> u64 \<Rightarrow> nostr_event \<Rightarrow> (bool \<times> nostr_event) outcome option" where
  "nostri_mine_loop index difficulty nonce ev =
     (let ev = set_nonce index nonce ev
      in case nostri_generate_event_id ev of
           Abort \<Rightarrow> Some Abort
         | Ret (ok, ev') \<Rightarrow>
             if \<not> ok then Some (Ret (False, ev'))
             else if count_leading_zero_bits (ev_id ev') \<ge> sint difficulty then Some (Ret (True, ev'))
             else nostri_mine_loop index difficulty (nonce + 1) ev')"

declare nostri_mine_loop.simps [code]

definition nostri_mine_event :: "nostr_event \<Rightarrow> u32 \<Rightarrow> (bool \<times> nostr_event) outcome option" where
  "nostri_mine_event ev difficulty =
     (case ensure_nonce_tag ev difficulty of (ok, index, ev) \<Rightarrow>
        if \<not> ok then Some (Ret (False, ev))
        else if \<not> (length (ev_tags ev ! index) = 3 \<and> ev_tags ev ! index ! 0 = str ''nonce'') then Some Abort
        else nostri_mine_loop index difficulty 0 ev)"

section \<open>Printing to a string\<close>

text \<open>\<^verbatim>\<open>sprintf(str, ...)\<close> into the array of 1024 bytes and \<^verbatim>\<open>strcat(out, str)\<close> into that of 102400.\<close>

definition str_size :: nat where "str_size = 1024"
definition out_size :: nat where "out_size = 102400"

definition add_part :: "cstr \<Rightarrow> cstr outcome \<Rightarrow> cstr outcome" where
  "add_part part out =
     bind_outcome out (\<lambda>out.
       if length part + 1 > str_size then Abort
       else if length out + length part + 1 > out_size then Abort
       else Ret (out @ part))"

definition quote_part :: "string \<Rightarrow> cstr \<Rightarrow> cstr" where
  "quote_part name v = [34] @ str name @ [34] @ str '': '' @ v"

text \<open>The parts before and after the content.\<close>

definition nostri_head :: "nostr_event \<Rightarrow> cstr \<Rightarrow> cstr \<Rightarrow> cstr \<Rightarrow> cstr outcome" where
  "nostri_head ev id_hex pubkey_hex tags =
     add_part (quote_part ''tags'' (tags @ str '',''))
     (add_part (quote_part ''kind'' (dec_s (sint (ev_kind ev)) @ str '',''))
     (add_part (quote_part ''created_at'' (dec_u (unat (ev_created_at ev)) @ str '',''))
     (add_part (quote_part ''pubkey'' ([34] @ pubkey_hex @ [34] @ str '',''))
     (add_part (str ''{'' @ quote_part ''id'' ([34] @ id_hex @ [34] @ str '',''))
     (add_part (str ''['' @ [34] @ str ''EVENT'' @ [34] @ str '','') (Ret []))))))"

definition nostri_tail :: "cstr \<Rightarrow> cstr \<Rightarrow> cstr outcome \<Rightarrow> cstr outcome" where
  "nostri_tail sig_hex content out =
     add_part (str '']'' @ [10])
     (add_part (quote_part ''sig'' ([34] @ sig_hex @ [34] @ str ''}''))
     (add_part (quote_part ''content'' (content @ str '','')) out))"

definition nostri_print_event :: "nostr_event \<Rightarrow> cstr option outcome" where
  "nostri_print_event ev =
     bind_outcome (hex_encode (ev_id ev) 65) (\<lambda>ri.
     bind_outcome (hex_encode (ev_pubkey ev) 65) (\<lambda>rp.
     bind_outcome (hex_encode (ev_sig ev) 129) (\<lambda>rs.
       case (ri, rp, rs) of
         (Some id_hex, Some pubkey_hex, Some sig_hex) \<Rightarrow>
           (case cursor_push_tags (ev_explicit_tags ev) (ev_tags ev) (make_cursor 0 102400, (\<lambda>_. 0)) of
              (ok, (cur, m)) \<Rightarrow>
                if \<not> ok then Ret None
                else bind_outcome (nostri_head ev id_hex pubkey_hex (mem_read m (c_start cur) (nat (cursor_len cur))))
                  (\<lambda>out.
                    case nostri_push_jsonstr (ev_content ev) (reset_cursor cur, m) of
                      (ok, (cur, m)) \<Rightarrow>
                        if \<not> ok then Ret None
                        else bind_outcome
                          (nostri_tail sig_hex (mem_read m (c_start cur) (nat (cursor_len cur))) (Ret out))
                          (\<lambda>out. Ret (Some out))))
       | _ \<Rightarrow> Abort)))"

section \<open>make_message\<close>

definition nostri_id :: "args \<Rightarrow> nostr_event \<Rightarrow> nostr_event stage option" where
  "nostri_id args ev =
     (if has_flag args HAS_DIFFICULTY \<and> \<not> has_flag args HAS_MINE_PUBKEY then
        (case nostri_mine_event ev (a_difficulty args) of
           None \<Rightarrow> None
         | Some Abort \<Rightarrow> Some (Inl RCrash)
         | Some (Ret (ok, ev)) \<Rightarrow> Some (if \<not> ok then Inl (RExit 22 []) else Inr ev))
      else
        (case nostri_generate_event_id ev of
           Abort \<Rightarrow> Some (Inl RCrash)
         | Ret (ok, ev) \<Rightarrow> Some (if \<not> ok then Inl (RExit 5 []) else Inr ev)))"

definition nostri_publish :: "secp256k1 \<Rightarrow> sys \<Rightarrow> nat \<Rightarrow> key \<Rightarrow> nostr_event \<Rightarrow> run" where
  "nostri_publish lib os n key ev =
     (case sign_event lib os n key ev of (ok, ev, n) \<Rightarrow>
        if \<not> ok then RExit 6 []
        else (case nostri_print_event ev of
                Abort \<Rightarrow> RCrash
              | Ret None \<Rightarrow> RExit 88 []
              | Ret (Some json) \<Rightarrow> RExit 0 json))"

definition nostri_event :: "secp256k1 \<Rightarrow> sys \<Rightarrow> nat \<Rightarrow> args \<Rightarrow> nostr_event \<Rightarrow> run option" where
  "nostri_event lib os n args ev =
     (case main_key lib os n args of
        None \<Rightarrow> None
      | Some (Inl r) \<Rightarrow> Some r
      | Some (Inr (key, n)) \<Rightarrow>
          (case main_dm lib os n args key ev of
             Inl r \<Rightarrow> Some r
           | Inr (ev, n) \<Rightarrow>
               (case nostri_id args (ev\<lparr>ev_pubkey := k_pubkey key\<rparr>) of
                  None \<Rightarrow> None
                | Some (Inl r) \<Rightarrow> Some r
                | Some (Inr ev) \<Rightarrow> Some (nostri_publish lib os n key ev))))"

text \<open>The result is the returned code and the text stored through \<open>json\<close>.\<close>

definition make_message :: "secp256k1 \<Rightarrow> sys \<Rightarrow> args \<Rightarrow> nostr_event \<Rightarrow> run option" where
  "make_message lib os args ev =
     (case init_secp_context lib os 0 of (ok, n) \<Rightarrow>
        if \<not> ok then Some (RExit 2 [])
        else
          let args = set_flag HAS_ENVELOPE args;
              ev = (if a_tags args \<noteq> None then ev\<lparr>ev_explicit_tags := a_tags args\<rparr> else ev)
          in nostri_event lib os n args (make_event_from_args os args ev))"

section \<open>The program nostril\<close>

definition nostril_usage_lines :: "cstr list" where
  "nostril_usage_lines =
     [str ''usage: nostril [OPTIONS]'', [], str ''  OPTIONS'', []] @ take 9 (drop 10 usage_lines) @ drop 22 usage_lines"

definition nostril_usage :: cstr where
  "nostril_usage = concat (map (\<lambda>l. l @ [10]) nostril_usage_lines)"

definition nostril_try_subcommand :: "sys \<Rightarrow> cstr list \<Rightarrow> (cstr \<times> cstr list) option" where
  "nostril_try_subcommand os argv =
     (let sub = argv ! 1
      in if length sub \<ge> 1 \<and> sub ! 0 \<noteq> chr CHR ''-'' then
           let buf = snprintf 127 (str ''nostril-'' @ sub)
           in if execvp os buf (tl argv) then Some (buf, tl argv) else None
         else None)"

text \<open>
  The chain of options is that of \<^verbatim>\<open>gnostr.c\<close> without \<^verbatim>\<open>-s\<close>, which is an unexpected argument; only
  \<^verbatim>\<open>--help\<close> ends the program.
\<close>

definition nostril_early :: early_options where
  "nostril_early arg later =
     (if arg = str ''--help'' then Some (PPrint nostril_usage)
      else if arg = str ''-s'' then Some PFail
      else None)"

definition nostril_parse_args :: "cstr list \<Rightarrow> nat \<Rightarrow> (args \<times> nostr_event) parse_result" where
  "nostril_parse_args = variant_parse_args nostril_early"

text \<open>
  The text of a run is the usage on the standard output, or the event on the standard error: what
  \<open>print_event\<close> writes (\<^verbatim>\<open>nostri.c\<close>) and then the same text again from \<open>main\<close> (\<^verbatim>\<open>nostril.c\<close>).
\<close>

fun written_twice :: "run \<Rightarrow> run" where
  "written_twice (RExit code json) = RExit code (json @ json)"
| "written_twice r = r"

definition nostril_main :: "secp256k1 \<Rightarrow> sys \<Rightarrow> cstr list \<Rightarrow> run option" where
  "nostril_main lib os argv =
     (if length argv < 2 then Some (RExit 1 nostril_usage)
      else (case init_secp_context lib os 0 of (ok, n) \<Rightarrow>
        if \<not> ok then Some (RExit 2 [])
        else (case nostril_try_subcommand os argv of
                Some (prog, av) \<Rightarrow> Some (RExec prog av)
              | None \<Rightarrow>
                  (case nostril_parse_args argv (errno0 os) of
                     PPrint out \<Rightarrow> Some (RExit 1 out)
                   | PSystem cmd \<Rightarrow> Some (RSystem cmd)
                   | PCrash \<Rightarrow> Some RCrash
                   | PFail \<Rightarrow> Some (RExit 1 nostril_usage)
                   | POk (args, ev) \<Rightarrow>
                       let ev = (if a_tags args \<noteq> None then ev\<lparr>ev_explicit_tags := a_tags args\<rparr> else ev)
                       in map_option written_twice (nostri_event lib os n args (make_event_from_args os args ev))))))"

section \<open>With a content, the library computes the same events\<close>

lemma nostri_commitment_eq:
  "ev_content ev = Some c \<Longrightarrow> nostri_event_commitment ev = event_commitment ev"
  by (intro ext, cases "hex_encode (ev_pubkey ev) 65")
    (simp_all add: nostri_event_commitment_def event_commitment_def nostri_push_jsonstr_def del: and_all.simps
      split: option.split)

lemma nostri_id_eq: "ev_content ev \<noteq> None \<Longrightarrow> nostri_generate_event_id ev = generate_event_id ev"
  by (auto simp: nostri_generate_event_id_def generate_event_id_def nostri_commitment_eq)

lemma generate_event_id_content: "generate_event_id ev = Ret (ok, ev') \<Longrightarrow> ev_content ev' = ev_content ev"
  by (auto simp: generate_event_id_def elim!: bind_RetE split: if_splits)

lemma set_nonce_content [simp]: "ev_content (set_nonce i n ev) = ev_content ev"
  by (simp add: set_nonce_def)

lemma mine_loop_nostri:
  assumes "mine_loop index d n ev = Some r" and "ev_content ev \<noteq> None"
  shows "nostri_mine_loop index d n ev = Some r"
proof -
  have "ev_content ev \<noteq> None \<longrightarrow> nostri_mine_loop index d n ev = Some r"
    by (rule mine_loop.raw_induct [where P = "\<lambda>index d n ev r. ev_content ev \<noteq> None \<longrightarrow> nostri_mine_loop index d n ev = Some r",
          OF _ assms(1)], rule impI, subst nostri_mine_loop.simps)
      (auto simp: Let_def nostri_id_eq dest!: generate_event_id_content split: outcome.splits if_splits)
  with assms(2) show ?thesis by blast
qed

lemma nostri_loop_mine:
  assumes "nostri_mine_loop index d n ev = Some r" and "ev_content ev \<noteq> None"
  shows "mine_loop index d n ev = Some r"
proof -
  have "ev_content ev \<noteq> None \<longrightarrow> mine_loop index d n ev = Some r"
    by (rule nostri_mine_loop.raw_induct [where P = "\<lambda>index d n ev r. ev_content ev \<noteq> None \<longrightarrow> mine_loop index d n ev = Some r",
          OF _ assms(1)], rule impI, subst mine_loop.simps)
      (auto simp: Let_def nostri_id_eq dest!: generate_event_id_content split: outcome.splits if_splits)
  with assms(2) show ?thesis by blast
qed

lemma nostri_mine_loop_eq: "ev_content ev \<noteq> None \<Longrightarrow> nostri_mine_loop index d n ev = mine_loop index d n ev"
  using mine_loop_nostri [of index d n ev] nostri_loop_mine [of index d n ev]
  by (cases "mine_loop index d n ev"; cases "nostri_mine_loop index d n ev") auto

lemma ensure_nonce_content: "ensure_nonce_tag ev d = (ok, i, ev') \<Longrightarrow> ev_content ev' = ev_content ev"
  by (auto simp: ensure_nonce_tag_def nostr_add_tag_n_def Let_def split: option.splits if_splits)

lemma nostri_id_main_id: "ev_content ev \<noteq> None \<Longrightarrow> nostri_id args ev = main_id args ev"
proof -
  assume c: "ev_content ev \<noteq> None"
  obtain ok i ev1 where e: "ensure_nonce_tag ev (a_difficulty args) = (ok, i, ev1)" using prod_cases3 by blast
  have "ev_content ev1 \<noteq> None" using ensure_nonce_content [OF e] c by simp
  then have "nostri_mine_event ev (a_difficulty args) = mine_event ev (a_difficulty args)"
    by (simp add: nostri_mine_event_def mine_event_def e nostri_mine_loop_eq)
  with nostri_id_eq [OF c] show ?thesis by (simp only: nostri_id_def main_id_def)
qed

section \<open>Printing\<close>

definition short_parts :: "nostr_event \<Rightarrow> bool" where
  "short_parts ev \<longleftrightarrow>
     length (tags_text (ev_explicit_tags ev) (ev_tags ev)) \<le> 1014 \<and>
     length (json_text (case ev_content ev of Some c \<Rightarrow> c | None \<Rightarrow> [])) \<le> 1011"

lemma add_part_Ret: "add_part part (Ret out) =
    (if length part + 1 > 1024 \<or> length out + length part + 1 > 102400 then Abort else Ret (out @ part))"
  by (simp add: add_part_def str_size_def out_size_def)

lemma nostri_head_spec:
  assumes "length (ev_id ev) = 32" and "length (ev_pubkey ev) = 32"
  shows "nostri_head ev (hex_text (ev_id ev)) (hex_text (ev_pubkey ev)) tags =
     (if length tags \<le> 1014 then Ret (print_head ev True (hex_text (ev_id ev)) (hex_text (ev_pubkey ev)) tags) else Abort)"
proof -
  have k: "length (dec_s (sint (ev_kind ev))) \<le> 11" by (rule length_dec_s_int32)
  have "unat (ev_created_at ev) < 2 ^ LENGTH(64)" by (rule unsigned_less)
  then have t: "length (dec_u (unat (ev_created_at ev))) \<le> 20" by (intro length_dec_u_le) simp_all
  show ?thesis
    using k t assms by (simp add: nostri_head_def add_part_Ret quote_part_def print_head_def)
qed

lemma add_part_Abort [simp]: "add_part part Abort = Abort"
  by (simp add: add_part_def)

lemma nostri_tail_spec:
  assumes "length sig = 64" and "length out + length content + 512 < out_size" and "length content \<le> 1011"
  shows "nostri_tail (hex_text sig) content (Ret out) = Ret (out @ print_tail True (hex_text sig) content)"
  using assms by (simp add: nostri_tail_def add_part_Ret quote_part_def print_tail_def out_size_def)

lemma nostri_tail_long: "\<not> length content \<le> 1011 \<Longrightarrow> nostri_tail s content (Ret out) = Abort"
  by (simp add: nostri_tail_def add_part_Ret quote_part_def)

lemma length_print_head_le:
  assumes "event_wf ev"
  shows "length (print_head ev True (hex_text (ev_id ev)) (hex_text (ev_pubkey ev)) tags) \<le> 300 + length tags"
proof -
  have k: "length (dec_s (sint (ev_kind ev))) \<le> 11" by (rule length_dec_s_int32)
  have "unat (ev_created_at ev) < 2 ^ LENGTH(64)" by (rule unsigned_less)
  then have t: "length (dec_u (unat (ev_created_at ev))) \<le> 20" by (intro length_dec_u_le) simp_all
  show ?thesis using k t assms by (simp add: print_head_def event_wf_def)
qed

lemma nostri_print_event_spec:
  assumes "event_wf ev" and "ev_content ev = Some content"
    and "fits 102400 (tags_pieces (ev_explicit_tags ev) (ev_tags ev))" and "fits 102400 (json_pieces content)"
  shows "nostri_print_event ev = (if short_parts ev then Ret (Some (event_text ev True)) else Abort)"
proof -
  let ?s = "(make_cursor 0 102400, (\<lambda>_. 0)) :: cst"
  let ?tags = "tags_text (ev_explicit_tags ev) (ev_tags ev)"
  have inv: "cursor_inv ?s" by (rule make_cursor_inv) simp_all
  from cursor_sink.pieces_ok [OF inv, of "tags_pieces (ev_explicit_tags ev) (ev_tags ev)"] assms(3)
  obtain cur m where s1: "push_pieces (tags_pieces (ev_explicit_tags ev) (ev_tags ev)) ?s = (True, (cur, m))"
    "cursor_inv (cur, m)" "cursor_frame ?s (cur, m)" "cursor_data (cur, m) = ?tags"
    by (auto simp: push_pieces_def)
  then have "cursor_room (reset_cursor cur, m) = 102400"
    using reset_cursor_sink [OF s1(2), of m] by (simp add: cursor_frame_def make_cursor_def)
  with cursor_sink.pieces_ok [of "(reset_cursor cur, m)" "json_pieces content"] assms(4)
    reset_cursor_sink [OF s1(2), of m]
  obtain cur2 m2 where s2: "push_pieces (json_pieces content) (reset_cursor cur, m) = (True, (cur2, m2))"
    "cursor_data (cur2, m2) = json_text content"
    by (auto simp: push_pieces_def)
  from assms(1) have len: "length (ev_id ev) = 32" "length (ev_pubkey ev) = 32" "length (ev_sig ev) = 64"
    by (auto simp: event_wf_def)
  let ?head = "print_head ev True (hex_text (ev_id ev)) (hex_text (ev_pubkey ev)) ?tags"
  have tail: "nostri_tail (hex_text (ev_sig ev)) (json_text content) (Ret ?head) =
      (if length (json_text content) \<le> 1011
       then Ret (?head @ print_tail True (hex_text (ev_sig ev)) (json_text content)) else Abort)"
    if "length ?tags \<le> 1014"
    using that length_print_head_le [OF assms(1), of ?tags] nostri_tail_long [of "json_text content"]
      nostri_tail_spec [OF len(3)] by (cases "length (json_text content) \<le> 1011") (auto simp: out_size_def)
  show ?thesis
    by (simp add: nostri_print_event_def nostri_push_jsonstr_def hex_encode_spec hex_str_size_def len
        tags_pieces_push jsonstr_pieces s1 s2 assms(2) cursor_data_read event_text_def nostri_head_spec
        short_parts_def tail)
qed

section \<open>The library against gnostr\<close>

lemma nostri_publish_spec:
  assumes "secp_laws lib verify" and "key_ok lib key" and "event_wf ev" and "ev_content ev = Some c"
    and "length (commitment_text ev) < 102400" and env: "has_flag args HAS_ENVELOPE"
  shows "main_publish lib os n args key ev = RExit 6 [] \<and> nostri_publish lib os n key ev = RExit 6 [] \<or>
         (\<exists>sig. main_publish lib os n args key ev = RExit 0 (event_text (ev\<lparr>ev_sig := sig\<rparr>) True) \<and>
                event_wf (ev\<lparr>ev_sig := sig\<rparr>) \<and> verify sig (ev_id ev) (k_pubkey key) \<and>
                nostri_publish lib os n key ev =
                  (if short_parts (ev\<lparr>ev_sig := sig\<rparr>) then RExit 0 (event_text (ev\<lparr>ev_sig := sig\<rparr>) True) else RCrash))"
proof (cases "fst (sign_event lib os n key ev)")
  case True
  then obtain ev' n' where sgn: "sign_event lib os n key ev = (True, ev', n')"
    by (cases "sign_event lib os n key ev") auto
  note v = sign_event_verifies [OF assms(1,2) sgn]
  define sig where "sig = ev_sig ev'"
  with v have ev': "ev' = ev\<lparr>ev_sig := sig\<rparr>" "length sig = 64" by simp_all
  have wf: "event_wf ev'" "ev_content ev' = Some c" "length (commitment_text ev') < 102400"
    using ev' assms(3,4,5) event_wf_sig by simp_all
  note fit = tags_and_content_fit [OF this(3,2)]
  have "print_event ev' True = Ret (True, event_text ev' True)"
    using wf fit by (intro print_event_spec) auto
  moreover have "nostri_print_event ev' = (if short_parts ev' then Ret (Some (event_text ev' True)) else Abort)"
    using wf fit by (intro nostri_print_event_spec) auto
  ultimately show ?thesis using sgn v ev' wf env
    by (intro disjI2 exI [of _ sig]) (simp add: main_publish_def nostri_publish_def)
next
  case False
  then show ?thesis by (auto simp: main_publish_def nostri_publish_def split: prod.splits)
qed

definition same_or_overrun :: "(bytes \<Rightarrow> bytes \<Rightarrow> bytes \<Rightarrow> bool) \<Rightarrow> run option \<Rightarrow> run option \<Rightarrow> bool" where
  "same_or_overrun verify r r' \<longleftrightarrow>
     r' = r \<and> (r = None \<or> r = Some RCrash \<or> (\<exists>code. r = Some (RExit code []))) \<or>
     (\<exists>ev. event_valid verify ev \<and> r = Some (RExit 0 (event_text ev True)) \<and>
           r' = Some (if short_parts ev then RExit 0 (event_text ev True) else RCrash))"

lemma same_or_overrun_exit: "same_or_overrun verify r (Some (RExit code out)) \<Longrightarrow> r = Some (RExit code out)"
  by (auto simp: same_or_overrun_def split: if_splits)

lemma nostri_finish_agrees:
  assumes laws: "secp_laws lib verify" and key: "key_ok lib key" and wf: "event_wf ev"
    and c: "ev_content ev = Some c" and pk: "ev_pubkey ev = k_pubkey key" and env: "has_flag args HAS_ENVELOPE"
  shows "same_or_overrun verify
     (case main_id args ev of None \<Rightarrow> None | Some (Inl r) \<Rightarrow> Some r
      | Some (Inr ev) \<Rightarrow> Some (main_publish lib os n args key ev))
     (case nostri_id args ev of None \<Rightarrow> None | Some (Inl r) \<Rightarrow> Some r
      | Some (Inr ev) \<Rightarrow> Some (nostri_publish lib os n key ev))"
proof -
  have ids: "nostri_id args ev = main_id args ev" using c by (intro nostri_id_main_id) simp
  show ?thesis
  proof (cases "\<exists>ev2. main_id args ev = Some (Inr ev2)")
    case True
    then obtain ev2 where id2: "main_id args ev = Some (Inr ev2)" by blast
    note ok = main_id_ok [OF id2 wf c]
    have "ev_content ev2 = Some c" using ok c by simp
    with nostri_publish_spec [OF laws key _ this _ env, of os n] ok show ?thesis
      using ids id2 pk by (auto simp: same_or_overrun_def event_valid_def)
  next
    case False
    then show ?thesis using main_id_stops [OF _ wf c, of args] ids
      by (auto simp: same_or_overrun_def split: option.splits sum.splits)
  qed
qed

lemma nostri_event_agrees:
  assumes laws: "secp_laws lib verify" and wf: "event_wf ev" and c: "ev_content ev \<noteq> None"
    and env: "has_flag args HAS_ENVELOPE"
  shows "same_or_overrun verify (main_event lib os n args ev) (nostri_event lib os n args ev)"
proof (cases "\<exists>key n' ev1 n''. main_key lib os n args = Some (Inr (key, n')) \<and>
                 main_dm lib os n' args key ev = Inr (ev1, n'')")
  case True
  then obtain key n' ev1 n'' where key: "main_key lib os n args = Some (Inr (key, n'))"
    and dm: "main_dm lib os n' args key ev = Inr (ev1, n'')" by blast
  note kok = conjunct1 [OF main_key_ok [OF key]]
  have "length (k_pubkey key) = 32" using kok laws by (auto simp: key_ok_def secp_laws_def)
  with main_dm_ok [OF dm wf c] obtain c' where
    "event_wf (ev1\<lparr>ev_pubkey := k_pubkey key\<rparr>)" "ev_content (ev1\<lparr>ev_pubkey := k_pubkey key\<rparr>) = Some c'"
    by (auto simp: event_wf_def)
  from nostri_finish_agrees [OF laws kok this _ env, of os n''] show ?thesis
    by (simp add: main_event_def nostri_event_def key dm)
next
  case False
  then show ?thesis using main_key_exit [of lib os n args]
    by (auto simp: same_or_overrun_def main_event_def nostri_event_def dest: main_dm_exit
        split: option.splits sum.splits)
qed

lemma has_set_flag [simp]: "f \<noteq> 0 \<Longrightarrow> has_flag (set_flag f args) f"
  by (simp add: has_flag_def set_flag_def bit.conj_disj_distrib2)

lemma start_event_wf: "event_wf ev \<Longrightarrow> event_wf (start_event os args ev)"
  by (simp add: start_event_def make_event_from_args_def event_wf_def)

lemma start_event_content: "ev_content (start_event os args ev) = a_content args"
  by (simp add: start_event_def make_event_from_args_def)

interpretation nostril: early_stop nostril_early "{nostril_usage}"
  by unfold_locales (auto simp: nostril_early_def split: if_splits)

lemma other_flags [simp]:
  "has_flag (set_flag HAS_ENVELOPE args) HAS_CREATED_AT = has_flag args HAS_CREATED_AT"
  "has_flag (set_flag HAS_ENVELOPE args) HAS_KIND = has_flag args HAS_KIND"
  "has_flag (set_flag HAS_ENVELOPE args) HAS_ENCRYPT = has_flag args HAS_ENCRYPT"
  "has_flag (set_flag HAS_ENVELOPE args) HAS_DIFFICULTY = has_flag args HAS_DIFFICULTY"
  "has_flag (set_flag HAS_ENVELOPE args) HAS_MINE_PUBKEY = has_flag args HAS_MINE_PUBKEY"
  by (simp_all add: has_flag_def set_flag_def bit.conj_disj_distrib2 flag_defs)

lemma nostri_event_envelope: "nostri_event lib os n (set_flag HAS_ENVELOPE args) ev = nostri_event lib os n args ev"
proof -
  have "main_key lib os n (set_flag HAS_ENVELOPE args) = main_key lib os n args"
    by (cases "a_sec args") (simp_all add: main_key_def Let_def)
  moreover have "main_dm lib os n (set_flag HAS_ENVELOPE args) = main_dm lib os n args" for n
    by (intro ext) (simp add: main_dm_def Let_def)
  moreover have "nostri_id (set_flag HAS_ENVELOPE args) = nostri_id args"
    by (intro ext) (simp add: nostri_id_def)
  ultimately show ?thesis unfolding nostri_event_def by presburger
qed

text \<open>
  C32. The library function \<open>make_message\<close> computes what \<open>gnostr --envelope\<close> computes from the same
  arguments and event: it fails in the same way, and where \<open>gnostr\<close> publishes an event it returns the
  same text, provided that the tags and the content fit into its array of 1024 bytes. Where they do not
  fit it overruns the array.
\<close>

theorem nostri_agrees:
  assumes "secp_laws lib verify" and "event_wf ev" and "a_content args = Some c"
    and "init_secp_context lib os 0 = (True, n)"
  shows "same_or_overrun verify
    (main_event lib os n (set_flag HAS_ENVELOPE args) (start_event os (set_flag HAS_ENVELOPE args) ev))
    (make_message lib os args ev)"
proof -
  let ?args = "set_flag HAS_ENVELOPE args"
  have "make_message lib os args ev = nostri_event lib os n ?args (start_event os ?args ev)"
    by (simp add: make_message_def assms(4) start_event_def Let_def)
  moreover have "has_flag ?args HAS_ENVELOPE" by (simp add: flag_defs)
  ultimately show ?thesis
    using assms(3) by (simp add: nostri_event_agrees [OF assms(1) start_event_wf [OF assms(2)]] start_event_content)
qed

theorem nostri_agrees_witness:
  "same_or_overrun toy_verify
    (main_event toy_secp toy_sys 1 (set_flag HAS_ENVELOPE (zero_args\<lparr>a_content := Some (str ''hi'')\<rparr>))
       (start_event toy_sys (set_flag HAS_ENVELOPE (zero_args\<lparr>a_content := Some (str ''hi'')\<rparr>)) zero_event))
    (make_message toy_secp toy_sys (zero_args\<lparr>a_content := Some (str ''hi'')\<rparr>) zero_event)"
proof -
  have "event_wf zero_event" by (simp add: event_wf_def zero_event_def)
  moreover have "init_secp_context toy_secp toy_sys 0 = (True, 1)"
    by (simp add: init_secp_context_def fill_random_def toy_sys_def toy_secp_def)
  ultimately show ?thesis
    using nostri_agrees [OF toy_laws, of zero_event "zero_args\<lparr>a_content := Some (str ''hi'')\<rparr>" "str ''hi''" toy_sys 1]
    by simp
qed

lemma set_flag_keeps [simp]: "a_created_at (set_flag f args) = a_created_at args"
  by (simp add: set_flag_def)

lemma envelope_irrelevant:
  "args_ready (set_flag HAS_ENVELOPE args) ev = args_ready args ev"
  "start_event os (set_flag HAS_ENVELOPE args) ev = start_event os args ev"
  "event_requested lib os (set_flag HAS_ENVELOPE args) ts ev' = event_requested lib os args ts ev'"
  by (simp_all add: args_ready_def start_event_def make_event_from_args_def event_requested_def mines_id_def)

text \<open>A run of the stages that ends with a text ends as that of \<open>gnostr --envelope\<close> does.\<close>

lemma nostri_event_exit:
  assumes "secp_laws lib verify" and "args_ready args ev0"
    and "nostri_event lib os n args (start_event os args ev0) = Some (RExit code out)"
  shows "code \<in> {0, 4, 5, 6, 8, 22} \<and> out = [] \<or>
         code = 0 \<and> (\<exists>ev. out = event_text ev True \<and> event_valid verify ev \<and> event_requested lib os args (ev_tags ev0) ev)"
proof -
  let ?args = "set_flag HAS_ENVELOPE args"
  have env: "has_flag ?args HAS_ENVELOPE" by (simp add: flag_defs)
  have ready: "args_ready ?args ev0" using assms(2) by (simp add: envelope_irrelevant)
  have "same_or_overrun verify (main_event lib os n ?args (start_event os ?args ev0))
          (nostri_event lib os n args (start_event os args ev0))"
    using nostri_event_agrees [OF assms(1) start_event_fields(1,3) [OF ready] env, of os n os]
    by (simp add: nostri_event_envelope envelope_irrelevant)
  then have "main_event lib os n ?args (start_event os ?args ev0) = Some (RExit code out)"
    using assms(3) same_or_overrun_exit by metis
  from main_event_cases [OF assms(1) ready this] env show ?thesis by (auto simp: envelope_irrelevant)
qed


lemma nostril_parse_note:
  "nostril_parse_args [prog, str ''--sec'', s, str ''--content'', c] e = POk (note_args s c, zero_event)"
  by (simp add: nostril_parse_args_def variant_parse_args_def variant_parse_loop.simps nostril_early_def
      parse_option_def Let_def str_def)

lemma plain_note_envelope: "plain_note args s c \<Longrightarrow> plain_note (set_flag HAS_ENVELOPE args) s c"
  by (simp add: plain_note_def)

lemma note_short: "short_parts (note_signed os (str ''hi'') pk sig)"
  by (simp add: short_parts_def note_signed_def note_event_def zero_event_def tags_text_def list_text_def json_text_def
      escape_def escape_piece_def bytes_simps)

lemma toy_nostri_note:
  "\<exists>sig. nostri_event toy_secp toy_sys n (note_args toy_sec (str ''hi''))
           (start_event toy_sys (note_args toy_sec (str ''hi'')) zero_event) =
         Some (RExit 0 (event_text (note_signed toy_sys (str ''hi'') (replicate 32 0xAB) sig) True))"
proof -
  let ?k = "replicate 32 0xAB :: bytes" and ?args = "set_flag HAS_ENVELOPE (note_args toy_sec (str ''hi''))"
  let ?st = "start_event toy_sys ?args zero_event"
  have env: "has_flag ?args HAS_ENVELOPE" by (simp add: flag_defs)
  have plain: "plain_note ?args toy_sec (str ''hi'')" by (rule plain_note_envelope [OF plain_note_args(1)])
  have toy: "\<exists>r. getrandom toy_sys n 32 = Some r \<and> length r = 32" "keypair_create toy_secp ?k = Some ?k"
    "keypair_xonly_pub toy_secp ?k = Some ?k" "xonly_pubkey_serialize toy_secp ?k = Some ?k"
    "\<exists>sig. schnorrsig_sign32 toy_secp msg ?k aux = Some sig" for n msg aux
    by (simp_all add: toy_sys_def toy_secp_def)
  note st = note_stages [OF toy_laws toy(1) toy_sec_decode toy(2-5) _ plain]
  have c: "ev_content (?st\<lparr>ev_pubkey := ?k\<rparr>) \<noteq> None" by (simp add: start_event_content)
  from nostri_publish_spec [OF toy_laws st(2,6,7,8) env, of toy_sys n] st(5) [of n] note_short obtain sig where
    "nostri_publish toy_secp toy_sys n \<lparr>k_pair = ?k, k_secret = ?k, k_pubkey = ?k\<rparr>
       ((note_event toy_sys (str ''hi'') ?k)\<lparr>ev_id := fips_sha256 (commitment_text (note_event toy_sys (str ''hi'') ?k))\<rparr>)
     = RExit 0 (event_text (note_signed toy_sys (str ''hi'') ?k sig) True)"
    by (auto simp: note_signed_def)
  moreover have "\<not> has_flag ?args HAS_ENCRYPT" using plain by (simp add: plain_note_def)
  ultimately have "\<exists>sig. nostri_event toy_secp toy_sys n ?args ?st =
      Some (RExit 0 (event_text (note_signed toy_sys (str ''hi'') ?k sig) True))"
    using st(1) [of n] st(3) nostri_id_main_id [OF c, of ?args] by (auto simp: nostri_event_def main_dm_def)
  then show ?thesis by (simp add: nostri_event_envelope envelope_irrelevant)
qed


end
