(* ===== verification/Json_Value.thy ===== *)
theory Json_Value
  imports Prelude "HOL-Library.List_Lexorder"
begin

text \<open>
  JSON values as the C++ sources use them through the library \<^verbatim>\<open>nlohmann::json\<close>: the value type, element
  access and the conversions to C++ types, which throw (\<open>None\<close>) on a value of another type. Parsing and
  printing of text are functions of the record \<open>json_lib\<close>; what the program relies on is \<open>json_laws\<close>.
\<close>

section \<open>Values\<close>

text \<open>
  Integers are stored unsigned or signed (as their 64 bits), doubles as their 64 bits, and the
  members of an object in the order of their names, as in a \<^verbatim>\<open>std::map\<close>.
\<close>

datatype json = JNull | JBool bool | JUnsigned u64 | JInteger u64 | JFloat u64 | JString bytes
  | JArray "json list" | JObject "(cstr \<times> json) list"

text \<open>
  \<open>js_dump\<close> has the indentation as its first argument and throws on text that is not UTF-8; \<open>js_trunc\<close> is the
  conversion of a double to an integer.
\<close>

record json_lib =
  js_parse :: "cstr \<Rightarrow> json option"
  js_dump :: "nat option \<Rightarrow> json \<Rightarrow> cstr option"
  js_trunc :: "u64 \<Rightarrow> int"

section \<open>Access\<close>

definition at_index :: "json \<Rightarrow> nat \<Rightarrow> json option" where
  "at_index j i = (case j of JArray xs \<Rightarrow> if i < length xs then Some (xs ! i) else None | _ \<Rightarrow> None)"

definition at_key :: "json \<Rightarrow> cstr \<Rightarrow> json option" where
  "at_key j k = (case j of JObject m \<Rightarrow> map_of m k | _ \<Rightarrow> None)"

definition contains :: "json \<Rightarrow> cstr \<Rightarrow> bool" where
  "contains j k \<longleftrightarrow> (case j of JObject m \<Rightarrow> map_of m k \<noteq> None | _ \<Rightarrow> False)"

fun obj_put :: "cstr \<Rightarrow> json \<Rightarrow> (cstr \<times> json) list \<Rightarrow> (cstr \<times> json) list" where
  "obj_put k v [] = [(k, v)]"
| "obj_put k v ((k', v') # m) =
     (if k = k' then (k, v) # m else if k < k' then (k, v) # (k', v') # m else (k', v') # obj_put k v m)"

text \<open>\<^verbatim>\<open>j[k] = v\<close>; the sources assign only to members of null and of objects.\<close>

definition json_put :: "cstr \<Rightarrow> json \<Rightarrow> json \<Rightarrow> json" where
  "json_put k v j = (case j of JNull \<Rightarrow> JObject [(k, v)] | JObject m \<Rightarrow> JObject (obj_put k v m) | _ \<Rightarrow> j)"

section \<open>Conversions\<close>

definition get_string :: "json \<Rightarrow> bytes option" where
  "get_string j = (case j of JString s \<Rightarrow> Some s | _ \<Rightarrow> None)"

text \<open>To \<^verbatim>\<open>int\<close>, which also takes a boolean.\<close>

definition get_int :: "json_lib \<Rightarrow> json \<Rightarrow> u32 option" where
  "get_int lib j =
     (case j of
        JUnsigned w \<Rightarrow> Some (ucast w)
      | JInteger w \<Rightarrow> Some (ucast w)
      | JFloat f \<Rightarrow> Some (word_of_int (js_trunc lib f))
      | JBool b \<Rightarrow> Some (of_bool b)
      | _ \<Rightarrow> None)"

text \<open>To \<^verbatim>\<open>time_t\<close> and \<^verbatim>\<open>size_t\<close>.\<close>

definition get_long :: "json_lib \<Rightarrow> json \<Rightarrow> u64 option" where
  "get_long lib j =
     (case j of
        JUnsigned w \<Rightarrow> Some w
      | JInteger w \<Rightarrow> Some w
      | JFloat f \<Rightarrow> Some (word_of_int (js_trunc lib f))
      | _ \<Rightarrow> None)"

fun get_all :: "(json \<Rightarrow> 'a option) \<Rightarrow> json list \<Rightarrow> 'a list option" where
  "get_all g [] = Some []"
| "get_all g (j # js) =
     (case g j of
        None \<Rightarrow> None
      | Some x \<Rightarrow> (case get_all g js of None \<Rightarrow> None | Some xs \<Rightarrow> Some (x # xs)))"

definition get_vector :: "(json \<Rightarrow> 'a option) \<Rightarrow> json \<Rightarrow> 'a list option" where
  "get_vector g j = (case j of JArray js \<Rightarrow> get_all g js | _ \<Rightarrow> None)"

definition of_strings :: "bytes list \<Rightarrow> json" where
  "of_strings ss = JArray (map JString ss)"

section \<open>What printing and parsing preserve\<close>

text \<open>Non-negative integers come back as unsigned ones.\<close>

fun json_norm :: "json \<Rightarrow> json" where
  "json_norm (JInteger w) = (if 0 \<le> sint w then JUnsigned w else JInteger w)"
| "json_norm (JArray js) = JArray (map json_norm js)"
| "json_norm (JObject m) = JObject (map (\<lambda>(k, v). (k, json_norm v)) m)"
| "json_norm j = j"

text \<open>\<open>json_utf8\<close>: every string is text; \<open>json_std\<close>: no doubles, and members in order.\<close>

fun json_utf8 :: "(bytes \<Rightarrow> bool) \<Rightarrow> json \<Rightarrow> bool" where
  "json_utf8 u (JString s) \<longleftrightarrow> u s"
| "json_utf8 u (JArray js) \<longleftrightarrow> list_all (json_utf8 u) js"
| "json_utf8 u (JObject m) \<longleftrightarrow> list_all (\<lambda>(k, v). u k \<and> json_utf8 u v) m"
| "json_utf8 u j \<longleftrightarrow> True"

fun json_std :: "json \<Rightarrow> bool" where
  "json_std (JFloat f) \<longleftrightarrow> False"
| "json_std (JArray js) \<longleftrightarrow> list_all json_std js"
| "json_std (JObject m) \<longleftrightarrow> sorted_wrt (<) (map fst m) \<and> list_all (\<lambda>(k, v). json_std v) m"
| "json_std j \<longleftrightarrow> True"

definition ascii :: "bytes \<Rightarrow> bool" where
  "ascii s \<longleftrightarrow> list_all (\<lambda>c. c < 128) s"

text \<open>The indentations for which the writer's string of blanks grows fast enough.\<close>

definition indent_ok :: "nat option \<Rightarrow> bool" where
  "indent_ok ind \<longleftrightarrow> (case ind of None \<Rightarrow> True | Some n \<Rightarrow> n \<le> 512)"

lemma indent_ok_simps [simp]: "indent_ok None" "indent_ok (Some n) \<longleftrightarrow> n \<le> 512"
  by (simp_all add: indent_ok_def)

lemma indent_ok_2: "indent_ok (Some 2)"
  by simp

definition json_laws :: "json_lib \<Rightarrow> (bytes \<Rightarrow> bool) \<Rightarrow> bool" where
  "json_laws lib u \<longleftrightarrow>
     (\<forall>ind j. indent_ok ind \<longrightarrow> json_utf8 u j \<longrightarrow> json_std j \<longrightarrow>
        (\<exists>s. js_dump lib ind j = Some s \<and> js_parse lib s = Some (json_norm j))) \<and>
     (\<forall>s j. js_parse lib s = Some j \<longrightarrow> s \<noteq> [] \<and> json_utf8 u j) \<and>
     (\<forall>s. ascii s \<longrightarrow> u s)"

text \<open>The same contract as an interface, for the library that implements it.\<close>

locale json_library =
  fixes lib :: json_lib and u :: "bytes \<Rightarrow> bool"
  assumes parse_dump: "indent_ok ind \<Longrightarrow> json_utf8 u j \<Longrightarrow> json_std j \<Longrightarrow>
      \<exists>s. js_dump lib ind j = Some s \<and> js_parse lib s = Some (json_norm j)"
    and parse_text: "js_parse lib s = Some j \<Longrightarrow> s \<noteq> [] \<and> json_utf8 u j"
    and ascii_text: "ascii s \<Longrightarrow> u s"
begin

lemma laws: "json_laws lib u"
  using parse_dump parse_text ascii_text unfolding json_laws_def by blast

lemma parse_norm_dump:
  assumes "js_parse lib s = Some j" and "json_std j" and "indent_ok ind"
  shows "\<exists>t. js_dump lib ind j = Some t \<and> js_parse lib t = Some (json_norm j)"
  using parse_dump [OF assms(3) _ assms(2)] parse_text [OF assms(1)] by blast

end

lemma json_laws_dump:
  assumes "json_laws lib u" and "json_utf8 u j" and "json_std j" and "indent_ok ind"
  obtains s where "js_dump lib ind j = Some s" and "js_parse lib s = Some (json_norm j)"
  using assms unfolding json_laws_def by blast

lemma json_laws_parse: "json_laws lib u \<Longrightarrow> js_parse lib s = Some j \<Longrightarrow> json_utf8 u j"
  by (simp add: json_laws_def)

lemma json_laws_nonempty: "json_laws lib u \<Longrightarrow> js_parse lib s = Some j \<Longrightarrow> s \<noteq> []"
  by (simp add: json_laws_def)

lemma ascii_str: "list_all (\<lambda>c. of_char c < (128 :: u8)) s \<Longrightarrow> ascii (str s)"
  by (simp add: ascii_def str_def list_all_iff)

lemma json_laws_ascii: "json_laws lib u \<Longrightarrow> ascii s \<Longrightarrow> u s"
  by (simp add: json_laws_def)

section \<open>Lemmas on access and conversion\<close>

lemma map_of_obj_put: "map_of (obj_put k v m) = (map_of m)(k \<mapsto> v)"
  by (induction k v m rule: obj_put.induct) auto

lemma set_fst_obj_put: "fst ` set (obj_put k v m) = insert k (fst ` set m)"
  by (induction k v m rule: obj_put.induct) auto

lemma sorted_obj_put:
  "sorted_wrt (<) (map fst m) \<Longrightarrow> sorted_wrt (<) (map fst (obj_put k v m))"
proof (induction k v m rule: obj_put.induct)
  case (2 k v k' v' m)
  have "fst ` set (obj_put k v m) = insert k (fst ` set m)" by (rule set_fst_obj_put)
  with 2 show ?case by (fastforce simp: not_less_iff_gr_or_eq)
qed simp

lemma list_all_obj_put: "P k v \<Longrightarrow> list_all (\<lambda>(k, v). P k v) m \<Longrightarrow> list_all (\<lambda>(k, v). P k v) (obj_put k v m)"
  by (induction k v m rule: obj_put.induct) auto

definition is_object :: "json \<Rightarrow> bool" where
  "is_object j \<longleftrightarrow> (case j of JObject m \<Rightarrow> True | _ \<Rightarrow> False)"

lemma json_put_object [simp]:
  "j = JNull \<or> is_object j \<Longrightarrow> is_object (json_put k v j)"
  by (auto simp: is_object_def json_put_def split: json.splits)

lemma at_key_put [simp]:
  "j = JNull \<or> is_object j \<Longrightarrow> at_key (json_put k v j) k' = (if k' = k then Some v else at_key j k')"
  by (auto simp: is_object_def json_put_def at_key_def map_of_obj_put split: json.splits)

lemma json_std_put: "json_std v \<Longrightarrow> json_std j \<Longrightarrow> json_std (json_put k v j)"
  by (auto simp: json_put_def sorted_obj_put list_all_obj_put [of "\<lambda>k v. json_std v"] split: json.splits)

lemma json_utf8_put: "u k \<Longrightarrow> json_utf8 u v \<Longrightarrow> json_utf8 u j \<Longrightarrow> json_utf8 u (json_put k v j)"
  by (auto simp: json_put_def list_all_obj_put [of "\<lambda>k v. u k \<and> json_utf8 u v"] split: json.splits)

lemma map_of_norm: "map_of (map (\<lambda>(k, v). (k, json_norm v)) m) k = map_option json_norm (map_of m k)"
  by (induction m) auto

lemma at_key_norm [simp]: "at_key (json_norm j) k = map_option json_norm (at_key j k)"
  by (cases j) (auto simp: at_key_def map_of_norm)

lemma at_index_norm [simp]: "at_index (json_norm j) i = map_option json_norm (at_index j i)"
  by (cases j) (auto simp: at_index_def)

lemma contains_at_key: "contains j k \<longleftrightarrow> at_key j k \<noteq> None"
  by (auto simp: contains_def at_key_def split: json.splits)

lemma get_string_norm [simp]: "get_string (json_norm j) = get_string j"
  by (cases j) (auto simp: get_string_def)

lemma get_int_norm [simp]: "get_int lib (json_norm j) = get_int lib j"
  by (cases j) (auto simp: get_int_def)

lemma get_long_norm [simp]: "get_long lib (json_norm j) = get_long lib j"
  by (cases j) (auto simp: get_long_def)

lemma get_all_norm: "(\<And>j. g (json_norm j) = g j) \<Longrightarrow> get_all g (map json_norm js) = get_all g js"
  by (induction js) (auto split: option.split)

lemma get_vector_norm: "(\<And>j. g (json_norm j) = g j) \<Longrightarrow> get_vector g (json_norm j) = get_vector g j"
  by (cases j) (auto simp: get_vector_def get_all_norm)

lemma get_all_map: "(\<And>x. x \<in> set xs \<Longrightarrow> g (f x) = Some x) \<Longrightarrow> get_all g (map f xs) = Some xs"
  by (induction xs) auto

lemma get_strings [simp]: "get_vector get_string (of_strings ss) = Some ss"
  by (simp add: get_vector_def of_strings_def get_all_map get_string_def)

lemma json_std_strings [simp]: "json_std (of_strings ss)"
  by (simp add: of_strings_def list_all_iff)

lemma json_utf8_strings [simp]: "json_utf8 u (of_strings ss) \<longleftrightarrow> list_all u ss"
  by (simp add: of_strings_def list_all_iff)

lemma json_utf8_at_index: "json_utf8 u j \<Longrightarrow> at_index j i = Some v \<Longrightarrow> json_utf8 u v"
  by (cases j) (auto simp: at_index_def list_all_iff split: if_splits)

lemma json_utf8_at_key: "json_utf8 u j \<Longrightarrow> at_key j k = Some v \<Longrightarrow> json_utf8 u v"
  by (cases j) (auto simp: at_key_def list_all_iff dest: map_of_SomeD)

lemma get_string_utf8: "json_utf8 u j \<Longrightarrow> get_string j = Some s \<Longrightarrow> u s"
  by (cases j) (auto simp: get_string_def)

lemma get_all_induct:
  assumes "get_all g js = Some xs" and "\<And>j x. j \<in> set js \<Longrightarrow> g j = Some x \<Longrightarrow> P x"
  shows "list_all P xs"
  using assms
proof (induction js arbitrary: xs)
  case (Cons j js)
  from Cons.prems(1) obtain x ys where "g j = Some x" "get_all g js = Some ys" "xs = x # ys"
    by (auto split: option.splits)
  moreover have "P x" using Cons.prems(2) [of j x] \<open>g j = Some x\<close> by simp
  moreover have "list_all P ys"
    by (rule Cons.IH [OF \<open>get_all g js = Some ys\<close>]) (meson Cons.prems(2) list.set_intros(2))
  ultimately show ?case by simp
qed simp

lemma get_vector_utf8:
  assumes "json_utf8 u j" and "get_vector g j = Some xs" and "\<And>j x. json_utf8 u j \<Longrightarrow> g j = Some x \<Longrightarrow> P x"
  shows "list_all P xs"
  using assms by (cases j) (auto simp: get_vector_def list_all_iff [of "json_utf8 u"] intro!: get_all_induct)

lemma json_utf8_norm [simp]: "json_utf8 u (json_norm j) = json_utf8 u j"
  by (induction j) (auto simp: list_all_iff snds.intros split: prod.splits)

end
