(* ===== verification/Nostr_Msg.thy ===== *)
theory Nostr_Msg
  imports Json_Value
begin

text \<open>
  The messages of the C++ relay and clients: \<^verbatim>\<open>src/nostr.hh\<close> and the conversions and parsers of
  \<^verbatim>\<open>src/nostr.cc\<close>. A parser changes its reference arguments step by step, so what was stored before an
  exception stays stored; the booleans are the results (\<open>True\<close> for 0) and, inside the conversions,
  whether no exception has been thrown so far. The time at which an event or a filter is constructed
  is a parameter.
\<close>

section \<open>Events and filters\<close>

record event_t =
  e_id :: bytes
  e_pubkey :: bytes
  e_created_at :: u64
  e_kind :: u32
  e_tags :: "bytes list list"
  e_content :: bytes
  e_sig :: bytes

definition event_t0 :: "u64 \<Rightarrow> event_t" where
  "event_t0 now = \<lparr>e_id = [], e_pubkey = [], e_created_at = now, e_kind = 1, e_tags = [], e_content = [], e_sig = []\<rparr>"

record filter_t =
  f_ids :: "bytes list"
  f_authors :: "bytes list"
  f_kinds :: "u32 list"
  f_e :: "bytes list"
  f_p :: "bytes list"
  f_since :: u64
  f_until :: u64
  f_limit :: u64

definition filter_t0 :: "u64 \<Rightarrow> filter_t" where
  "filter_t0 now = \<lparr>f_ids = [], f_authors = [], f_kinds = [], f_e = [], f_p = [], f_since = 0, f_until = now, f_limit = 1\<rparr>"

section \<open>Conversions\<close>

text \<open>\<^verbatim>\<open>j.at(k).get_to(field)\<close>, unconditional and under \<^verbatim>\<open>contains\<close>.\<close>

definition get_to :: "json \<Rightarrow> string \<Rightarrow> (json \<Rightarrow> 'a option) \<Rightarrow> ('a \<Rightarrow> 's \<Rightarrow> 's) \<Rightarrow> 's \<Rightarrow> bool \<times> 's" where
  "get_to j k g upd s =
     (case at_key j (str k) of
        None \<Rightarrow> (False, s)
      | Some v \<Rightarrow> (case g v of None \<Rightarrow> (False, s) | Some x \<Rightarrow> (True, upd x s)))"

definition get_if :: "json \<Rightarrow> string \<Rightarrow> (json \<Rightarrow> 'a option) \<Rightarrow> ('a \<Rightarrow> 's \<Rightarrow> 's) \<Rightarrow> 's \<Rightarrow> bool \<times> 's" where
  "get_if j k g upd s = (if contains j (str k) then get_to j k g upd s else (True, s))"

definition of_int :: "u32 \<Rightarrow> json" where
  "of_int k = JInteger (word_of_int (sint k))"

definition event_to_json :: "event_t \<Rightarrow> json" where
  "event_to_json s =
     json_put (str ''sig'') (JString (e_sig s))
     (json_put (str ''content'') (JString (e_content s))
     (json_put (str ''tags'') (JArray (map of_strings (e_tags s)))
     (json_put (str ''kind'') (of_int (e_kind s))
     (json_put (str ''created_at'') (JInteger (e_created_at s))
     (json_put (str ''pubkey'') (JString (e_pubkey s))
     (json_put (str ''id'') (JString (e_id s)) JNull))))))"

definition event_from_json :: "json_lib \<Rightarrow> json \<Rightarrow> event_t \<Rightarrow> bool \<times> event_t" where
  "event_from_json lib j =
     and_all
       [get_to j ''id'' get_string (\<lambda>v s. s\<lparr>e_id := v\<rparr>),
        get_to j ''pubkey'' get_string (\<lambda>v s. s\<lparr>e_pubkey := v\<rparr>),
        get_to j ''created_at'' (get_long lib) (\<lambda>v s. s\<lparr>e_created_at := v\<rparr>),
        get_to j ''kind'' (get_int lib) (\<lambda>v s. s\<lparr>e_kind := v\<rparr>),
        get_to j ''tags'' (get_vector (get_vector get_string)) (\<lambda>v s. s\<lparr>e_tags := v\<rparr>),
        get_to j ''content'' get_string (\<lambda>v s. s\<lparr>e_content := v\<rparr>),
        get_to j ''sig'' get_string (\<lambda>v s. s\<lparr>e_sig := v\<rparr>)]"

definition put_if :: "bool \<Rightarrow> string \<Rightarrow> json \<Rightarrow> json \<Rightarrow> json" where
  "put_if b k v j = (if b then json_put (str k) v j else j)"

definition filter_to_json :: "filter_t \<Rightarrow> bool \<Rightarrow> json" where
  "filter_to_json s with_time =
     json_put (str ''limit'') (JUnsigned (f_limit s))
     (put_if with_time ''until'' (JInteger (f_until s))
     (put_if with_time ''since'' (JInteger (f_since s))
     (put_if (f_p s \<noteq> []) ''#p'' (of_strings (f_p s))
     (put_if (f_e s \<noteq> []) ''#e'' (of_strings (f_e s))
     (json_put (str ''kinds'') (JArray (map of_int (f_kinds s)))
     (put_if (f_authors s \<noteq> []) ''authors'' (of_strings (f_authors s))
     (put_if (f_ids s \<noteq> []) ''ids'' (of_strings (f_ids s)) JNull)))))))"

definition filter_from_json :: "json_lib \<Rightarrow> json \<Rightarrow> filter_t \<Rightarrow> bool \<times> filter_t" where
  "filter_from_json lib j =
     and_all
       [get_if j ''ids'' (get_vector get_string) (\<lambda>v s. s\<lparr>f_ids := v\<rparr>),
        get_if j ''authors'' (get_vector get_string) (\<lambda>v s. s\<lparr>f_authors := v\<rparr>),
        get_if j ''kinds'' (get_vector (get_int lib)) (\<lambda>v s. s\<lparr>f_kinds := v\<rparr>),
        get_if j ''#e'' (get_vector get_string) (\<lambda>v s. s\<lparr>f_e := v\<rparr>),
        get_if j ''#p'' (get_vector get_string) (\<lambda>v s. s\<lparr>f_p := v\<rparr>),
        get_if j ''since'' (get_long lib) (\<lambda>v s. s\<lparr>f_since := v\<rparr>),
        get_if j ''until'' (get_long lib) (\<lambda>v s. s\<lparr>f_until := v\<rparr>),
        get_if j ''limit'' (get_long lib) (\<lambda>v s. s\<lparr>f_limit := v\<rparr>)]"

section \<open>Messages\<close>

datatype message_type = EVENT | REQ | CLOSE | EOSE | NOTICE | UNKNOWN

text \<open>The parsed message and its first element as a string; \<open>None\<close> when one of the steps throws.\<close>

definition message_head :: "json_lib \<Rightarrow> cstr \<Rightarrow> (bytes \<times> json) option" where
  "message_head lib s =
     (case js_parse lib s of
        None \<Rightarrow> None
      | Some js \<Rightarrow>
          (case at_index js 0 of
             None \<Rightarrow> None
           | Some t \<Rightarrow> (case get_string t of None \<Rightarrow> None | Some type \<Rightarrow> Some (type, js))))"

definition get_message_type :: "json_lib \<Rightarrow> cstr \<Rightarrow> message_type" where
  "get_message_type lib s =
     (case message_head lib s of
        None \<Rightarrow> UNKNOWN
      | Some (type, js) \<Rightarrow>
          if type = str ''EVENT'' then EVENT
          else if type = str ''REQ'' then REQ
          else if type = str ''CLOSE'' then CLOSE
          else if type = str ''EOSE'' then EOSE
          else if type = str ''NOTICE'' then NOTICE
          else UNKNOWN)"

text \<open>A printing error leaves the empty string.\<close>

definition make_request :: "json_lib \<Rightarrow> bytes \<Rightarrow> filter_t \<Rightarrow> cstr" where
  "make_request lib subscription_id filt =
     (case js_dump lib None
             (JArray [JString (str ''REQ''), JString subscription_id, filter_to_json filt False]) of
        None \<Rightarrow> []
      | Some s \<Rightarrow> s)"

definition parse_client_event :: "json_lib \<Rightarrow> cstr \<Rightarrow> event_t \<Rightarrow> bool \<times> event_t" where
  "parse_client_event lib s ev =
     (case message_head lib s of
        None \<Rightarrow> (False, ev)
      | Some (type, js) \<Rightarrow>
          if type = str ''EVENT'' then
            (case at_index js 1 of None \<Rightarrow> (False, ev) | Some j \<Rightarrow> event_from_json lib j ev)
          else (False, ev))"

text \<open>The subscription and what follows it, shared by the next two parsers.\<close>

definition parse_subscription ::
  "string \<Rightarrow> (json \<Rightarrow> 'a \<Rightarrow> bool \<times> 'a) \<Rightarrow> json_lib \<Rightarrow> cstr \<Rightarrow> bytes \<Rightarrow> 'a \<Rightarrow> bool \<times> bytes \<times> 'a" where
  "parse_subscription name from lib s sub x =
     (case message_head lib s of
        None \<Rightarrow> (False, sub, x)
      | Some (type, js) \<Rightarrow>
          if type = str name then
            (case at_index js 1 of
               None \<Rightarrow> (False, sub, x)
             | Some t \<Rightarrow>
                 (case get_string t of
                    None \<Rightarrow> (False, sub, x)
                  | Some sub \<Rightarrow>
                      (case at_index js 2 of
                         None \<Rightarrow> (False, sub, x)
                       | Some j \<Rightarrow> (case from j x of (ok, x) \<Rightarrow> (ok, sub, x)))))
          else (False, sub, x))"

definition parse_relay_event :: "json_lib \<Rightarrow> cstr \<Rightarrow> bytes \<Rightarrow> event_t \<Rightarrow> bool \<times> bytes \<times> event_t" where
  "parse_relay_event lib = parse_subscription ''EVENT'' (event_from_json lib) lib"

definition parse_request :: "json_lib \<Rightarrow> cstr \<Rightarrow> bytes \<Rightarrow> filter_t \<Rightarrow> bool \<times> bytes \<times> filter_t" where
  "parse_request lib = parse_subscription ''REQ'' (filter_from_json lib) lib"

section \<open>Round trips\<close>

lemma of_char_u8_eq [simp]: "(of_char c :: u8) = of_char d \<longleftrightarrow> c = d"
proof -
  have eq: "(of_char c :: u8) = of_nat (of_char c)" for c
    by (simp add: of_char_def horner_sum_of_bool_2_less split: char.split)
  have "unat (of_char c :: u8) = of_char c" for c
    unfolding eq using nat_of_char_less_256 [of c] by (simp add: unsigned_of_nat take_bit_nat_eq_self)
  then show ?thesis by (metis of_char_eq_iff)
qed

lemma str_eq_iff [simp]: "str s = str t \<longleftrightarrow> s = t"
  by (simp add: str_def inj_map_eq_map inj_def)

lemma get_to_norm: "(\<And>v. g (json_norm v) = g v) \<Longrightarrow> get_to (json_norm j) k g upd = get_to j k g upd"
  by (intro ext) (auto simp: get_to_def split: option.split)

lemma get_if_norm: "(\<And>v. g (json_norm v) = g v) \<Longrightarrow> get_if (json_norm j) k g upd = get_if j k g upd"
  by (intro ext) (simp add: get_if_def contains_at_key get_to_norm)

lemma event_from_norm [simp]: "event_from_json lib (json_norm j) = event_from_json lib j"
  by (simp add: event_from_json_def get_to_norm get_vector_norm del: and_all.simps)

lemma filter_from_norm [simp]: "filter_from_json lib (json_norm j) = filter_from_json lib j"
  by (simp add: filter_from_json_def get_if_norm get_vector_norm del: and_all.simps)

lemma get_of_int [simp]: "get_int lib (of_int k) = Some k"
proof -
  have "ucast (word_of_int (sint k) :: u64) = k"
    by (rule bit_word_eqI) (simp add: bit_simps)
  then show ?thesis by (simp add: get_int_def of_int_def)
qed

lemma get_tags [simp]: "get_vector (get_vector get_string) (JArray (map of_strings ts)) = Some ts"
  by (simp add: get_vector_def [of "get_vector get_string"] get_all_map)

lemma get_kinds [simp]: "get_vector (get_int lib) (JArray (map of_int ks)) = Some ks"
  by (simp add: get_vector_def get_all_map)

lemma event_json_roundtrip: "event_from_json lib (event_to_json ev) s = (True, ev)"
  by (cases ev, cases s) (simp add: event_from_json_def event_to_json_def get_to_def get_string_def get_long_def)

text \<open>What an empty list leaves alone, the receiver keeps from its own filter.\<close>

definition filter_received :: "filter_t \<Rightarrow> filter_t \<Rightarrow> filter_t" where
  "filter_received f s =
     s\<lparr>f_ids := (if f_ids f = [] then f_ids s else f_ids f),
       f_authors := (if f_authors f = [] then f_authors s else f_authors f), f_kinds := f_kinds f,
       f_e := (if f_e f = [] then f_e s else f_e f), f_p := (if f_p f = [] then f_p s else f_p f),
       f_limit := f_limit f\<rparr>"

lemma at_key_put_if [simp]:
  "j = JNull \<or> is_object j \<Longrightarrow> at_key (put_if b k v j) k' = (if b \<and> k' = str k then Some v else at_key j k')"
  by (simp add: put_if_def)

lemma put_if_object [simp]: "j = JNull \<or> is_object j \<Longrightarrow> put_if b k v j = JNull \<or> is_object (put_if b k v j)"
  by (auto simp: put_if_def)

lemma at_key_JNull [simp]: "at_key JNull k = None"
  by (simp add: at_key_def)

lemma filter_json_roundtrip: "filter_from_json lib (filter_to_json f False) s = (True, filter_received f s)"
proof -
  have "at_key (filter_to_json f False) k =
      (if k = str ''limit'' then Some (JUnsigned (f_limit f))
       else if k = str ''kinds'' then Some (JArray (map of_int (f_kinds f)))
       else if k = str ''ids'' \<and> f_ids f \<noteq> [] then Some (of_strings (f_ids f))
       else if k = str ''authors'' \<and> f_authors f \<noteq> [] then Some (of_strings (f_authors f))
       else if k = str ''#e'' \<and> f_e f \<noteq> [] then Some (of_strings (f_e f))
       else if k = str ''#p'' \<and> f_p f \<noteq> [] then Some (of_strings (f_p f)) else None)" for k
    by (simp add: filter_to_json_def)
  then show ?thesis
    by (cases s) (simp add: filter_from_json_def get_if_def get_to_def contains_at_key get_long_def filter_received_def)
qed

section \<open>Text that survives printing\<close>

definition event_utf8 :: "(bytes \<Rightarrow> bool) \<Rightarrow> event_t \<Rightarrow> bool" where
  "event_utf8 u ev \<longleftrightarrow>
     u (e_id ev) \<and> u (e_pubkey ev) \<and> u (e_content ev) \<and> u (e_sig ev) \<and> list_all (list_all u) (e_tags ev)"

definition filter_utf8 :: "(bytes \<Rightarrow> bool) \<Rightarrow> filter_t \<Rightarrow> bool" where
  "filter_utf8 u f \<longleftrightarrow> list_all u (f_ids f) \<and> list_all u (f_authors f) \<and> list_all u (f_e f) \<and> list_all u (f_p f)"

named_theorems json_simps

lemmas [json_simps] = json_std_put json_utf8_put

lemma json_std_of_int [simp]: "json_std (of_int k)" "json_utf8 u (of_int k)"
  by (simp_all add: of_int_def)

lemma event_json_std: "json_std (event_to_json ev)"
  by (simp add: event_to_json_def json_simps list_all_iff)

lemma keys_ascii:
  "k \<in> {''id'', ''pubkey'', ''created_at'', ''kind'', ''tags'', ''content'', ''sig'',
         ''ids'', ''authors'', ''kinds'', ''#e'', ''#p'', ''since'', ''until'', ''limit'',
         ''EVENT'', ''REQ'', ''EOSE'', ''NOTICE'', ''Error''} \<Longrightarrow> ascii (str k)"
  by (auto simp: ascii_def bytes_simps)

lemmas key_utf8 = json_laws_ascii [OF _ keys_ascii]

lemma event_json_utf8: "json_laws lib u \<Longrightarrow> event_utf8 u ev \<Longrightarrow> json_utf8 u (event_to_json ev)"
  by (simp add: event_to_json_def json_simps key_utf8 event_utf8_def list_all_iff)

lemma put_if_std: "json_std v \<Longrightarrow> json_std j \<Longrightarrow> json_std (put_if b k v j)"
  by (simp add: put_if_def json_simps)

lemma put_if_utf8: "u (str k) \<Longrightarrow> (b \<Longrightarrow> json_utf8 u v) \<Longrightarrow> json_utf8 u j \<Longrightarrow> json_utf8 u (put_if b k v j)"
  by (simp add: put_if_def json_simps)

lemmas [json_simps] = put_if_std put_if_utf8

lemma filter_json_std: "json_std (filter_to_json f t)"
  by (simp add: filter_to_json_def json_simps list_all_iff)

lemma filter_json_utf8: "json_laws lib u \<Longrightarrow> filter_utf8 u f \<Longrightarrow> json_utf8 u (filter_to_json f t)"
  by (simp add: filter_to_json_def json_simps key_utf8 filter_utf8_def list_all_iff [of _ "map _ _"])

lemma get_to_keeps:
  assumes "json_utf8 u j" and "P s" and "\<And>v x. json_utf8 u v \<Longrightarrow> g v = Some x \<Longrightarrow> P (upd x s)"
  shows "P (snd (get_to j k g upd s))"
  using assms by (auto simp: get_to_def dest: json_utf8_at_key split: option.splits)

lemma and_all_keeps:
  assumes "\<And>s. P s \<Longrightarrow> P (snd (f s))" and "\<And>s. P s \<Longrightarrow> P (snd (and_all fs s))" and "P s"
  shows "P (snd (and_all (f # fs) s))"
  using assms(2) assms(1) [OF assms(3)] by (cases "f s") simp

lemma and_all_Nil_keeps: "P s \<Longrightarrow> P (snd (and_all [] s))"
  by simp

lemma get_strings_utf8: "json_utf8 u j \<Longrightarrow> get_vector get_string j = Some ss \<Longrightarrow> list_all u ss"
  using get_vector_utf8 [of u j get_string ss u] get_string_utf8 by blast

lemma get_tags_utf8: "json_utf8 u j \<Longrightarrow> get_vector (get_vector get_string) j = Some ts \<Longrightarrow> list_all (list_all u) ts"
  using get_vector_utf8 [of u j "get_vector get_string" ts "list_all u"] get_strings_utf8 by blast

lemma event_from_utf8:
  assumes "json_utf8 u j" and "event_utf8 u s"
  shows "event_utf8 u (snd (event_from_json lib j s))"
  unfolding event_from_json_def
  by (intro and_all_keeps [where P = "event_utf8 u"] and_all_Nil_keeps [where P = "event_utf8 u"]
      get_to_keeps [where P = "event_utf8 u", OF assms(1)] assms(2))
    (auto simp: event_utf8_def dest: get_string_utf8 get_tags_utf8)

lemma message_head_utf8: "json_laws lib u \<Longrightarrow> message_head lib s = Some (t, js) \<Longrightarrow> json_utf8 u js"
  by (auto simp: message_head_def json_laws_parse split: option.splits)

lemma parse_client_event_utf8:
  "json_laws lib u \<Longrightarrow> event_utf8 u ev \<Longrightarrow> event_utf8 u (snd (parse_client_event lib s ev))"
  by (auto simp: parse_client_event_def split: option.splits
      dest: message_head_utf8 json_utf8_at_index intro: event_from_utf8)

section \<open>Printed messages\<close>

lemma message_dump:
  assumes "json_laws lib u" and "t \<in> {''EVENT'', ''REQ'', ''EOSE'', ''NOTICE''}"
    and "list_all (json_utf8 u) js" and "list_all json_std js" and "indent_ok ind"
  obtains s where "js_dump lib ind (JArray (JString (str t) # js)) = Some s"
    and "message_head lib s = Some (str t, JArray (JString (str t) # map json_norm js))"
proof -
  have "ascii (str t)" by (rule keys_ascii) (use assms(2) in auto)
  then have "u (str t)" by (rule json_laws_ascii [OF assms(1)])
  then have "json_utf8 u (JArray (JString (str t) # js))" "json_std (JArray (JString (str t) # js))"
    using assms(3,4) by simp_all
  from json_laws_dump [OF assms(1) this assms(5)] obtain s where
    "js_dump lib ind (JArray (JString (str t) # js)) = Some s"
    "js_parse lib s = Some (json_norm (JArray (JString (str t) # js)))" by blast
  then show thesis by (intro that [of s]) (simp_all add: message_head_def at_index_def get_string_def)
qed

definition event_message :: "event_t \<Rightarrow> json" where
  "event_message ev = JArray [JString (str ''EVENT''), event_to_json ev]"

lemma event_message_dump:
  assumes "json_laws lib u" and "event_utf8 u ev" and "indent_ok ind"
  obtains s where "js_dump lib ind (event_message ev) = Some s" and "get_message_type lib s = EVENT"
    and "\<And>ev0. parse_client_event lib s ev0 = (True, ev)"
proof -
  obtain s where "js_dump lib ind (event_message ev) = Some s"
    "message_head lib s = Some (str ''EVENT'', JArray (JString (str ''EVENT'') # map json_norm [event_to_json ev]))"
    using message_dump [OF assms(1), of "''EVENT''" "[event_to_json ev]" ind]
      event_json_utf8 [OF assms(1,2)] event_json_std [of ev] assms(3) by (auto simp: event_message_def)
  then show thesis
    by (intro that [of s]) (simp_all add: get_message_type_def parse_client_event_def at_index_def event_json_roundtrip)
qed

lemma parse_client_event_type: "fst (parse_client_event lib s ev) \<Longrightarrow> get_message_type lib s = EVENT"
  by (auto simp: parse_client_event_def get_message_type_def split: option.splits if_splits)

lemma make_request_head:
  assumes "json_laws lib u" and "u subscription_id" and "filter_utf8 u f"
  shows "message_head lib (make_request lib subscription_id f) = Some (str ''REQ'',
           JArray [JString (str ''REQ''), JString subscription_id, json_norm (filter_to_json f False)])"
proof -
  obtain s where "js_dump lib None (JArray [JString (str ''REQ''), JString subscription_id, filter_to_json f False]) = Some s"
    and head: "message_head lib s = Some (str ''REQ'',
      JArray (JString (str ''REQ'') # map json_norm [JString subscription_id, filter_to_json f False]))"
    using message_dump [OF assms(1), of "''REQ''" "[JString subscription_id, filter_to_json f False]" None]
      assms(2) filter_json_utf8 [OF assms(1,3)] filter_json_std by auto
  then have "make_request lib subscription_id f = s" by (simp add: make_request_def)
  with head show ?thesis by simp
qed

lemma make_request_parses:
  assumes "json_laws lib u" and "u subscription_id" and "filter_utf8 u f"
  shows "get_message_type lib (make_request lib subscription_id f) = REQ"
    and "parse_request lib (make_request lib subscription_id f) sub0 f0 = (True, subscription_id, filter_received f f0)"
  using make_request_head [OF assms]
  by (simp_all add: get_message_type_def parse_request_def parse_subscription_def at_index_def get_string_def
      filter_json_roundtrip)

end
