(* ===== verification/Relay.thy ===== *)
theory Relay
  imports Nostr_Msg
begin

text \<open>
  The relay: the files of \<^verbatim>\<open>src/log.cc\<close>, the database of events in the file \<^verbatim>\<open>database.json\<close>
  (\<^verbatim>\<open>src/database.cc\<close>), and the class \<^verbatim>\<open>relay_t\<close> (\<^verbatim>\<open>src/relay.cc\<close>), whose state is a list of events in
  memory beside the file. Files are a map from names to contents, and opening one for writing succeeds.
  An exception that nobody catches is \<open>Abort\<close>. The relay is specified by \<open>relay_spec\<close> on the two lists of
  events; the code refines it.
\<close>

section \<open>Files\<close>

type_synonym files = "cstr \<Rightarrow> cstr option"

definition json_to_file :: "json_lib \<Rightarrow> string \<Rightarrow> cstr \<Rightarrow> files \<Rightarrow> files" where
  "json_to_file lib name buf fs =
     (case js_parse lib buf of
        None \<Rightarrow> fs
      | Some js \<Rightarrow> (case js_dump lib (Some 1) js of None \<Rightarrow> fs | Some json \<Rightarrow> fs(str name \<mapsto> json)))"

text \<open>Text files: a string, a list of lines, and reading one back; 0 is \<open>True\<close>, and a failure leaves the buffer alone.\<close>

definition to_file :: "cstr \<Rightarrow> cstr \<Rightarrow> files \<Rightarrow> files" where
  "to_file name buf fs = fs(name \<mapsto> buf)"

fun file_lines :: "cstr list \<Rightarrow> cstr \<Rightarrow> cstr" where
  "file_lines [] ofs = ofs"
| "file_lines (v # vec) ofs = file_lines vec (ofs @ v @ [10])"

definition lines_to_file :: "cstr \<Rightarrow> cstr list \<Rightarrow> files \<Rightarrow> files" where
  "lines_to_file name vec fs = fs(name \<mapsto> file_lines vec [])"

definition from_file :: "cstr \<Rightarrow> cstr \<Rightarrow> files \<Rightarrow> bool \<times> cstr" where
  "from_file name buf fs = (case fs name of None \<Rightarrow> (False, buf) | Some ifs \<Rightarrow> (True, ifs))"

lemma file_lines_eq: "file_lines vec ofs = ofs @ concat (map (\<lambda>v. v @ [10]) vec)"
  by (induction vec arbitrary: ofs) simp_all

lemma from_file_to_file: "from_file name buf0 (to_file name buf fs) = (True, buf)"
  "from_file name buf0 (lines_to_file name vec fs) = (True, concat (map (\<lambda>v. v @ [10]) vec))"
  by (simp_all add: from_file_def to_file_def lines_to_file_def file_lines_eq)

section \<open>The database\<close>

text \<open>An event as an element of a vector; every field is stored when the conversion succeeds.\<close>

definition get_event :: "json_lib \<Rightarrow> json \<Rightarrow> event_t option" where
  "get_event lib j = (case event_from_json lib j (event_t0 0) of (ok, ev) \<Rightarrow> if ok then Some ev else None)"

definition database_read :: "json_lib \<Rightarrow> files \<Rightarrow> event_t list" where
  "database_read lib fs =
     (case fs (str ''database.json'') of
        None \<Rightarrow> []
      | Some ifs \<Rightarrow>
          (case js_parse lib ifs of
             None \<Rightarrow> []
           | Some js \<Rightarrow> (case get_vector (get_event lib) js of None \<Rightarrow> [] | Some evs \<Rightarrow> evs)))"

definition database_save :: "json_lib \<Rightarrow> event_t list \<Rightarrow> files \<Rightarrow> bool \<times> files" where
  "database_save lib database fs =
     (case js_dump lib (Some 2) (JArray (map event_to_json database)) of
        None \<Rightarrow> (False, fs)
      | Some json \<Rightarrow> (True, fs(str ''database.json'' \<mapsto> json)))"

fun append_loop :: "event_t list \<Rightarrow> event_t list \<Rightarrow> event_t list" where
  "append_loop [] database = database"
| "append_loop (ev # events) database = append_loop events (database @ [ev])"

definition database_append :: "json_lib \<Rightarrow> event_t list \<Rightarrow> files \<Rightarrow> bool \<times> files" where
  "database_append lib events fs =
     (let database = append_loop events (database_read lib fs)
      in case js_dump lib (Some 2) (JArray (map event_to_json database)) of
           None \<Rightarrow> (False, fs)
         | Some json \<Rightarrow> (True, fs(str ''database.json'' \<mapsto> json)))"

fun author_loop :: "event_t \<Rightarrow> bytes list \<Rightarrow> event_t list \<Rightarrow> event_t list" where
  "author_loop ev [] events = events"
| "author_loop ev (author # authors) events =
     (if e_pubkey ev = author then events @ [ev] else author_loop ev authors events)"

fun request_loop :: "filter_t \<Rightarrow> event_t list \<Rightarrow> event_t list \<Rightarrow> event_t list" where
  "request_loop filt [] events = events"
| "request_loop filt (ev # database) events = request_loop filt database (author_loop ev (f_authors filt) events)"

definition database_request :: "json_lib \<Rightarrow> filter_t \<Rightarrow> files \<Rightarrow> event_t list" where
  "database_request lib filt fs = request_loop filt (database_read lib fs) []"

section \<open>The relay\<close>

definition relay_t :: "json_lib \<Rightarrow> files \<Rightarrow> event_t list" where
  "relay_t lib fs = database_read lib fs"

text \<open>The answer, the list in memory and the files after a message.\<close>

definition make_response ::
  "json_lib \<Rightarrow> u64 \<Rightarrow> cstr \<Rightarrow> event_t list \<times> files \<Rightarrow> (cstr \<times> event_t list \<times> files) outcome" where
  "make_response lib now msg st =
     (case st of (database, fs) \<Rightarrow>
        let fs = json_to_file lib ''relay_message.json'' msg fs;
            (js, database, fs) =
              (case get_message_type lib msg of
                 EVENT \<Rightarrow>
                   let (r, ev) = parse_client_event lib msg (event_t0 now);
                       js = JArray [JString (str ''EOSE''), JString (e_id ev)];
                       database = database @ [ev];
                       (r, fs) = database_append lib database fs
                   in (js, database, fs)
               | REQ \<Rightarrow>
                   let (r, request_id, filt) = parse_request lib msg [] (filter_t0 now);
                       events = database_request lib filt fs
                   in (if events \<noteq> [] then JArray [JString (str ''EVENT''), JString request_id, event_to_json (events ! 0)]
                       else JArray [JString (str ''EOSE''), JString request_id],
                       database, fs)
               | _ \<Rightarrow> (JArray [JString (str ''NOTICE''), JString (str ''Error'')], database, fs))
        in case js_dump lib None js of
             None \<Rightarrow> Abort
           | Some json \<Rightarrow> Ret (json, database, json_to_file lib ''relay_response.json'' json fs))"

section \<open>Specification\<close>

datatype query = Publish event_t | Query bytes "bytes list" | Other

datatype answer = Stored bytes | Found bytes event_t | Nothing bytes | Failed

fun relay_spec :: "query \<Rightarrow> event_t list \<times> event_t list \<Rightarrow> answer \<times> event_t list \<times> event_t list" where
  "relay_spec (Publish ev) (mem, disk) = (Stored (e_id ev), mem @ [ev], disk @ mem @ [ev])"
| "relay_spec (Query sub authors) (mem, disk) =
     (case filter (\<lambda>ev. e_pubkey ev \<in> set authors) disk of [] \<Rightarrow> Nothing sub | ev # evs \<Rightarrow> Found sub ev, mem, disk)"
| "relay_spec Other (mem, disk) = (Failed, mem, disk)"

definition relay_query :: "json_lib \<Rightarrow> u64 \<Rightarrow> cstr \<Rightarrow> query" where
  "relay_query lib now msg =
     (case get_message_type lib msg of
        EVENT \<Rightarrow> Publish (snd (parse_client_event lib msg (event_t0 now)))
      | REQ \<Rightarrow> (case parse_request lib msg [] (filter_t0 now) of (ok, sub, filt) \<Rightarrow> Query sub (f_authors filt))
      | _ \<Rightarrow> Other)"

fun answer_json :: "answer \<Rightarrow> json" where
  "answer_json (Stored i) = JArray [JString (str ''EOSE''), JString i]"
| "answer_json (Found sub ev) = JArray [JString (str ''EVENT''), JString sub, event_to_json ev]"
| "answer_json (Nothing sub) = JArray [JString (str ''EOSE''), JString sub]"
| "answer_json Failed = JArray [JString (str ''NOTICE''), JString (str ''Error'')]"

section \<open>The database functions\<close>

lemma append_loop_eq: "append_loop events database = database @ events"
  by (induction events arbitrary: database) auto

lemma author_loop_eq: "author_loop ev authors events = (if e_pubkey ev \<in> set authors then events @ [ev] else events)"
  by (induction authors) auto

lemma request_loop_eq: "request_loop filt database events = events @ filter (\<lambda>ev. e_pubkey ev \<in> set (f_authors filt)) database"
  by (induction database arbitrary: events) (auto simp: author_loop_eq)

lemma database_request_eq:
  "database_request lib filt fs = filter (\<lambda>ev. e_pubkey ev \<in> set (f_authors filt)) (database_read lib fs)"
  by (simp add: database_request_def request_loop_eq)

lemma json_to_file_read [simp]:
  "name \<noteq> ''database.json'' \<Longrightarrow> database_read lib (json_to_file lib name buf fs) = database_read lib fs"
  by (auto simp: json_to_file_def database_read_def split: option.split)

lemma get_event_norm: "get_event lib (json_norm j) = get_event lib j"
  by (simp add: get_event_def)

lemma get_event_to_json [simp]: "get_event lib (event_to_json ev) = Some ev"
  by (simp add: get_event_def event_json_roundtrip)

lemma event_t0_utf8: "json_laws lib u \<Longrightarrow> event_utf8 u (event_t0 now)"
  by (simp add: event_utf8_def event_t0_def json_laws_ascii ascii_def)

lemma get_event_utf8:
  assumes "json_laws lib u" and "json_utf8 u j" and "get_event lib j = Some ev"
  shows "event_utf8 u ev"
  using event_from_utf8 [OF assms(2) event_t0_utf8 [OF assms(1)], of lib 0] assms(3)
  by (auto simp: get_event_def split: prod.splits if_splits)

lemma database_read_utf8:
  assumes "json_laws lib u"
  shows "list_all (event_utf8 u) (database_read lib fs)"
proof -
  have "list_all (event_utf8 u) evs"
    if "js_parse lib t = Some js" "get_vector (get_event lib) js = Some evs" for t js evs
    using get_vector_utf8 [OF json_laws_parse [OF assms that(1)] that(2), of "event_utf8 u"]
      get_event_utf8 [OF assms] by blast
  then show ?thesis by (simp add: database_read_def split: option.split)
qed

lemma database_append_spec:
  assumes "json_laws lib u" and "list_all (event_utf8 u) events"
  shows "\<exists>fs'. database_append lib events fs = (True, fs') \<and> database_read lib fs' = database_read lib fs @ events"
proof -
  let ?evs = "database_read lib fs @ events"
  have "list_all (event_utf8 u) ?evs" using assms database_read_utf8 by simp
  then have "json_utf8 u (JArray (map event_to_json ?evs))" "json_std (JArray (map event_to_json ?evs))"
    using event_json_utf8 [OF assms(1)] event_json_std by (auto simp: list_all_iff)
  from json_laws_dump [OF assms(1) this, of "Some 2"] obtain json where
    json: "js_dump lib (Some 2) (JArray (map event_to_json ?evs)) = Some json"
    "js_parse lib json = Some (json_norm (JArray (map event_to_json ?evs)))" by auto
  have "get_vector (get_event lib) (json_norm (JArray (map event_to_json ?evs))) = Some ?evs"
    by (simp only: get_vector_norm [of "get_event lib", OF get_event_norm]) (simp add: get_vector_def get_all_map del: map_append)
  with json show ?thesis by (simp add: database_append_def append_loop_eq database_read_def [of lib "_(_ \<mapsto> _)"])
qed

section \<open>Refinement\<close>

lemma parse_request_utf8:
  assumes "json_laws lib u" and "u sub0" and "parse_request lib s sub0 f = (ok, sub, f')"
  shows "u sub"
proof -
  have "u sub1" if "message_head lib s = Some (t, js)" "at_index js 1 = Some j" "get_string j = Some sub1" for t js j sub1
    using message_head_utf8 [OF assms(1) that(1)] json_utf8_at_index get_string_utf8 that(2,3) by blast
  with assms(2,3) show ?thesis
    by (auto simp: parse_request_def parse_subscription_def split: option.splits if_splits prod.splits)
qed

definition answer_utf8 :: "(bytes \<Rightarrow> bool) \<Rightarrow> answer \<Rightarrow> bool" where
  "answer_utf8 u a \<longleftrightarrow>
     (case a of Stored i \<Rightarrow> u i | Found sub ev \<Rightarrow> u sub \<and> event_utf8 u ev | Nothing sub \<Rightarrow> u sub | Failed \<Rightarrow> True)"

lemma answer_dump:
  assumes "json_laws lib u" and "answer_utf8 u a"
  obtains out where "js_dump lib None (answer_json a) = Some out" and "js_parse lib out = Some (json_norm (answer_json a))"
proof -
  have "json_utf8 u (answer_json a)" using assms
    by (cases a) (simp_all add: answer_utf8_def key_utf8 event_json_utf8)
  moreover have "json_std (answer_json a)" by (cases a) (simp_all add: event_json_std)
  ultimately show thesis using json_laws_dump [OF assms(1), of _ None] that indent_ok_simps(1) by blast
qed

lemma make_response_body:
  assumes "json_laws lib u" and "list_all (event_utf8 u) db"
    and "relay_spec (relay_query lib now msg) (db, database_read lib fs) = (a, db', disk')"
  shows "\<exists>fs'. make_response lib now msg (db, fs) =
           (case js_dump lib None (answer_json a) of
              None \<Rightarrow> Abort | Some json \<Rightarrow> Ret (json, db', json_to_file lib ''relay_response.json'' json fs')) \<and>
           database_read lib fs' = disk' \<and> list_all (event_utf8 u) db' \<and> answer_utf8 u a"
proof (cases "get_message_type lib msg")
  case EVENT
  obtain r ev where ev: "parse_client_event lib msg (event_t0 now) = (r, ev)" by fastforce
  have "event_utf8 u ev"
    using parse_client_event_utf8 [OF assms(1) event_t0_utf8 [OF assms(1)], of msg now] ev by simp
  then have utf8: "list_all (event_utf8 u) (db @ [ev])" "u (e_id ev)" using assms(2) by (auto simp: event_utf8_def)
  from database_append_spec [OF assms(1) utf8(1), of "json_to_file lib ''relay_message.json'' msg fs"] obtain fs' where
    "database_append lib (db @ [ev]) (json_to_file lib ''relay_message.json'' msg fs) = (True, fs')"
    "database_read lib fs' = database_read lib fs @ db @ [ev]" by auto
  with EVENT ev utf8 assms(3) show ?thesis
    by (intro exI [of _ fs']) (auto simp: make_response_def relay_query_def answer_utf8_def)
next
  case REQ
  obtain r sub f where p: "parse_request lib msg [] (filter_t0 now) = (r, sub, f)" using prod_cases3 by blast
  have "u []" using json_laws_ascii [OF assms(1)] by (simp add: ascii_def)
  then have "u sub" using parse_request_utf8 [OF assms(1) _ p] by blast
  moreover have "event_utf8 u ev" if "ev \<in> set (database_read lib fs)" for ev
    using database_read_utf8 [OF assms(1), of fs] that by (auto simp: list_all_iff)
  ultimately show ?thesis using REQ p assms(2,3)
    by (intro exI [of _ "json_to_file lib ''relay_message.json'' msg fs"])
      (auto simp: make_response_def relay_query_def answer_utf8_def database_request_eq filter_eq_Cons_iff
        split: list.splits)
qed (use assms in \<open>auto simp: make_response_def relay_query_def answer_utf8_def
       intro!: exI [of _ "json_to_file lib ''relay_message.json'' msg fs"]\<close>)

lemma make_response_refines:
  assumes "json_laws lib u" and "list_all (event_utf8 u) db"
    and "relay_spec (relay_query lib now msg) (db, database_read lib fs) = (a, db', disk')"
  obtains out fs' where "make_response lib now msg (db, fs) = Ret (out, db', fs')"
    and "database_read lib fs' = disk'" and "list_all (event_utf8 u) db'"
    and "js_parse lib out = Some (json_norm (answer_json a))"
proof -
  from make_response_body [OF assms] obtain fs' where fs': "make_response lib now msg (db, fs) =
      (case js_dump lib None (answer_json a) of
         None \<Rightarrow> Abort | Some json \<Rightarrow> Ret (json, db', json_to_file lib ''relay_response.json'' json fs'))"
    "database_read lib fs' = disk'" "list_all (event_utf8 u) db'" "answer_utf8 u a" by blast
  obtain out where "js_dump lib None (answer_json a) = Some out" "js_parse lib out = Some (json_norm (answer_json a))"
    using answer_dump [OF assms(1) fs'(4)] by blast
  with fs' show thesis
    by (intro that [of out "json_to_file lib ''relay_response.json'' out fs'"]) simp_all
qed

section \<open>Stores of events\<close>

text \<open>
  What a client relies on in a relay, whichever way the messages travel: an event that is accepted is
  stored beside what was stored before.
\<close>

locale event_store =
  fixes inv :: "'s \<Rightarrow> bool" and accepts :: "event_t \<Rightarrow> bool" and stored :: "'s \<Rightarrow> event_t set"
    and publish :: "event_t \<Rightarrow> 's \<Rightarrow> 's option"
  assumes publish_ok: "inv s \<Longrightarrow> accepts ev \<Longrightarrow> \<exists>s'. publish ev s = Some s' \<and> inv s' \<and> stored s' = insert ev (stored s)"
begin

primrec publish_all :: "event_t list \<Rightarrow> 's \<Rightarrow> 's option" where
  "publish_all [] s = Some s"
| "publish_all (ev # evs) s = (case publish ev s of None \<Rightarrow> None | Some s' \<Rightarrow> publish_all evs s')"

lemma publish_all_ok:
  "inv s \<Longrightarrow> list_all accepts evs \<Longrightarrow> \<exists>s'. publish_all evs s = Some s' \<and> inv s' \<and> stored s' = set evs \<union> stored s"
proof (induction evs arbitrary: s)
  case (Cons ev evs)
  obtain s1 where "publish ev s = Some s1" "inv s1" "stored s1 = insert ev (stored s)"
    using publish_ok [of s ev] Cons.prems by auto
  with Cons.IH [of s1] Cons.prems(2) show ?case by auto
qed simp

end

definition relay_inv :: "json_lib \<Rightarrow> (bytes \<Rightarrow> bool) \<Rightarrow> event_t list \<times> files \<Rightarrow> bool" where
  "relay_inv lib u st \<longleftrightarrow> json_laws lib u \<and> list_all (event_utf8 u) (fst st)"

definition relay_stored :: "json_lib \<Rightarrow> event_t list \<times> files \<Rightarrow> event_t set" where
  "relay_stored lib st = set (fst st) \<union> set (database_read lib (snd st))"

text \<open>Publishing through the web socket: the printed message is answered by \<open>make_response\<close>.\<close>

definition wss_publish :: "json_lib \<Rightarrow> u64 \<Rightarrow> event_t \<Rightarrow> event_t list \<times> files \<Rightarrow> (event_t list \<times> files) option" where
  "wss_publish lib now ev st =
     (case js_dump lib None (event_message ev) of
        None \<Rightarrow> None
      | Some msg \<Rightarrow> (case make_response lib now msg st of Abort \<Rightarrow> None | Ret (out, st) \<Rightarrow> Some st))"

lemma event_query:
  assumes "json_laws lib u" and "event_utf8 u ev" and "indent_ok ind" and "js_dump lib ind (event_message ev) = Some json"
  shows "relay_query lib now json = Publish ev"
proof -
  from event_message_dump [OF assms(1-3)] assms(4) have
    "get_message_type lib json = EVENT" "parse_client_event lib json (event_t0 now) = (True, ev)" by auto
  then show ?thesis by (simp add: relay_query_def)
qed

lemma wss_publish_ok:
  assumes "relay_inv lib u st" and "event_utf8 u ev"
  shows "\<exists>st'. wss_publish lib now ev st = Some st' \<and> relay_inv lib u st' \<and> relay_stored lib st' = insert ev (relay_stored lib st)"
proof -
  obtain db fs where st: "st = (db, fs)" by (cases st)
  from assms(1) have laws: "json_laws lib u" and utf8: "list_all (event_utf8 u) db" by (simp_all add: relay_inv_def st)
  obtain msg where msg: "js_dump lib None (event_message ev) = Some msg" using event_message_dump [OF laws assms(2) indent_ok_simps(1)] by blast
  have "relay_spec (relay_query lib now msg) (db, database_read lib fs) = (Stored (e_id ev), db @ [ev], database_read lib fs @ db @ [ev])"
    by (simp add: event_query [OF laws assms(2) indent_ok_simps(1) msg])
  from make_response_refines [OF laws utf8 this] obtain out fs' where
    "make_response lib now msg (db, fs) = Ret (out, db @ [ev], fs')" "database_read lib fs' = database_read lib fs @ db @ [ev]" by blast
  with laws utf8 assms(2) show ?thesis
    by (auto simp: st wss_publish_def msg relay_inv_def relay_stored_def)
qed

interpretation wss_store: event_store "relay_inv lib u" "event_utf8 u" "relay_stored lib" "wss_publish lib now" for lib u now
  by unfold_locales (rule wss_publish_ok)

section \<open>Runs of the relay\<close>

text \<open>
  Runs of the program \<^verbatim>\<open>src/wss_relay.cc\<close>: it constructs the relay and answers every message with
  \<open>make_response\<close>. A run has the times, messages and answers so far, and the state reached.
\<close>

inductive relay_run :: "json_lib \<Rightarrow> files \<Rightarrow> (u64 \<times> cstr \<times> cstr) list \<Rightarrow> event_t list \<times> files \<Rightarrow> bool"
  for lib fs0 where
  start: "relay_run lib fs0 [] (relay_t lib fs0, fs0)"
| message: "relay_run lib fs0 tr st \<Longrightarrow> make_response lib now msg st = Ret (out, st') \<Longrightarrow>
     relay_run lib fs0 (tr @ [(now, msg, out)]) st'"

definition published :: "json_lib \<Rightarrow> (u64 \<times> cstr \<times> cstr) list \<Rightarrow> event_t list" where
  "published lib tr =
     concat (map (\<lambda>(now, msg, out). case relay_query lib now msg of Publish ev \<Rightarrow> [ev] | _ \<Rightarrow> []) tr)"

text \<open>Each event makes \<open>append\<close> write the whole list in memory once more.\<close>

definition run_inv :: "json_lib \<Rightarrow> (bytes \<Rightarrow> bool) \<Rightarrow> files \<Rightarrow> (u64 \<times> cstr \<times> cstr) list \<Rightarrow> event_t list \<times> files \<Rightarrow> bool" where
  "run_inv lib u fs0 tr st \<longleftrightarrow>
     list_all (event_utf8 u) (fst st) \<and> fst st = relay_t lib fs0 @ published lib tr \<and>
     set (published lib tr) \<union> set (relay_t lib fs0) \<subseteq> set (database_read lib (snd st)) \<and>
     (let n = length (published lib tr); m = length (relay_t lib fs0)
      in 2 * length (database_read lib (snd st)) = 2 * m * (n + 1) + n * (n + 1))"

lemma run_inv_utf8: "run_inv lib u fs0 tr (db, fs) \<Longrightarrow> list_all (event_utf8 u) db"
  unfolding run_inv_def fst_conv by blast

lemma published_snoc:
  "published lib (tr @ [(now, msg, out)]) =
   published lib tr @ (case relay_query lib now msg of Publish ev \<Rightarrow> [ev] | _ \<Rightarrow> [])"
  by (simp add: published_def)

lemma run_inv_step:
  assumes laws: "json_laws lib u" and inv: "run_inv lib u fs0 tr (db, fs)"
    and step: "make_response lib now msg (db, fs) = Ret (out, db', fs')"
  shows "run_inv lib u fs0 (tr @ [(now, msg, out)]) (db', fs')"
proof -
  obtain a db1 disk1 where spec: "relay_spec (relay_query lib now msg) (db, database_read lib fs) = (a, db1, disk1)"
    using prod_cases3 by blast
  from inv have "list_all (event_utf8 u) db" by (rule run_inv_utf8)
  from make_response_refines [OF laws this spec] step
  have r: "db' = db1" "database_read lib fs' = disk1" "list_all (event_utf8 u) db'" by auto
  show ?thesis
  proof (cases "relay_query lib now msg")
    case (Publish ev)
    with spec r have "db' = db @ [ev]" "database_read lib fs' = database_read lib fs @ db @ [ev]" by auto
    with inv r(3) Publish show ?thesis
      by (auto simp: run_inv_def published_snoc Let_def algebra_simps)
  qed (use spec r inv in \<open>auto simp: run_inv_def published_snoc\<close>)
qed

lemma run_inv_holds:
  assumes "json_laws lib u" and "relay_run lib fs0 tr st"
  shows "run_inv lib u fs0 tr st"
  using assms(2)
proof induction
  case start
  show ?case using database_read_utf8 [OF assms(1)] by (simp add: run_inv_def published_def relay_t_def)
next
  case (message tr st now msg out st')
  then show ?case using run_inv_step [OF assms(1), of fs0 tr "fst st" "snd st" now msg out "fst st'" "snd st'"] by simp
qed

text \<open>
  The relay never fails and refines its specification: in every state that it reaches from its
  start, whatever the message is, it answers with the JSON text of the specified answer, and its
  list in memory and the list in its file change as specified. In particular it stores what is
  published, answers a request with the first stored event of one of the authors, and reports
  everything else as an error.
\<close>

lemma relay_refines:
  assumes "json_laws lib u" and "relay_run lib fs0 tr (db, fs)"
  shows "\<exists>a out db' fs'. make_response lib now msg (db, fs) = Ret (out, db', fs') \<and>
           relay_spec (relay_query lib now msg) (db, database_read lib fs) = (a, db', database_read lib fs') \<and>
           js_parse lib out = Some (json_norm (answer_json a))"
proof -
  obtain a db1 disk1 where spec: "relay_spec (relay_query lib now msg) (db, database_read lib fs) = (a, db1, disk1)"
    using prod_cases3 by blast
  have "list_all (event_utf8 u) db" by (rule run_inv_utf8 [OF run_inv_holds [OF assms]])
  from make_response_refines [OF assms(1) this spec] obtain out fs' where
    "make_response lib now msg (db, fs) = Ret (out, db1, fs')" "database_read lib fs' = disk1"
    "js_parse lib out = Some (json_norm (answer_json a))" by blast
  with spec show ?thesis by blast
qed

text \<open>
  What was published can be retrieved: after any run in which a well-formed event was published,
  a request that names its author is answered with a stored event of one of the requested authors.
\<close>

lemma found_if_published:
  assumes laws: "json_laws lib u" and run: "relay_run lib fs0 tr (db, fs)" and "(t, msg, out0) \<in> set tr"
    and ev: "parse_client_event lib msg (event_t0 t) = (True, ev)"
    and q: "relay_query lib now req = Query sub authors" and a: "e_pubkey ev \<in> set authors"
  shows "\<exists>out db' fs' ev'. make_response lib now req (db, fs) = Ret (out, db', fs') \<and>
           parse_relay_event lib out sub0 ev0 = (True, sub, ev') \<and> e_pubkey ev' \<in> set authors \<and>
           ev' \<in> set (database_read lib fs)"
proof -
  note inv = run_inv_holds [OF laws run]
  have "relay_query lib t msg = Publish ev"
    using parse_client_event_type [of lib msg "event_t0 t"] ev by (simp add: relay_query_def)
  with assms(3) have "ev \<in> set (published lib tr)" by (force simp: published_def)
  with inv have "ev \<in> set (database_read lib fs)" by (auto simp: run_inv_def)
  with a obtain ev' evs where f: "filter (\<lambda>ev. e_pubkey ev \<in> set authors) (database_read lib fs) = ev' # evs"
    by (metis (mono_tags, lifting) filter_empty_conv list.exhaust)
  then have "ev' \<in> set (database_read lib fs)" "e_pubkey ev' \<in> set authors"
    by (auto simp: filter_eq_Cons_iff)
  moreover have "relay_spec (relay_query lib now req) (db, database_read lib fs) = (Found sub ev', db, database_read lib fs)"
    by (simp add: q f)
  moreover from inv have "list_all (event_utf8 u) db" by (rule run_inv_utf8)
  ultimately obtain out fs' where "make_response lib now req (db, fs) = Ret (out, db, fs')"
    "js_parse lib out = Some (json_norm (answer_json (Found sub ev')))"
    using make_response_refines [OF laws] by blast
  then show ?thesis using \<open>ev' \<in> _\<close> \<open>e_pubkey ev' \<in> _\<close>
    by (simp add: parse_relay_event_def parse_subscription_def message_head_def at_index_def get_string_def
        event_json_roundtrip)
qed

text \<open>
  The file is not the list of published events: every event makes \<open>append\<close> write the whole
  list in memory behind what the file already holds. A relay that starts with \<open>m\<close> events and accepts
  \<open>n\<close> more leaves \<open>m * (n + 1) + n * (n + 1) / 2\<close> of them in its file.
\<close>

lemma database_length:
  assumes "json_laws lib u" and "relay_run lib fs0 tr (db, fs)"
    and "m = length (database_read lib fs0)" and "n = length (published lib tr)"
  shows "2 * length (database_read lib fs) = 2 * m * (n + 1) + n * (n + 1)"
  using run_inv_holds [OF assms(1,2)] unfolding run_inv_def Let_def relay_t_def assms(3,4) snd_conv by blast

end
