(* ===== verification/Uuid.thy ===== *)
theory Uuid
  imports Prelude
begin

text \<open>
  The identifiers of subscriptions: \<^verbatim>\<open>src/uuid.cc\<close>. The random generator with its two distributions
  \<^verbatim>\<open>dis\<close> and \<^verbatim>\<open>dis2\<close> is a parameter; the number of draws so far is the state.
\<close>

record uuid_gen =
  dis :: "nat \<Rightarrow> nat"
  dis2 :: "nat \<Rightarrow> nat"

definition uuid_gen_ok :: "uuid_gen \<Rightarrow> bool" where
  "uuid_gen_ok g \<longleftrightarrow> (\<forall>n. dis g n \<le> 15 \<and> 8 \<le> dis2 g n \<and> dis2 g n \<le> 11)"

text \<open>A number after \<^verbatim>\<open>ss << std::hex\<close>, and \<^verbatim>\<open>toupper\<close>.\<close>

fun hex_u :: "nat \<Rightarrow> cstr" where
  "hex_u n = (if n < 16 then [hex_digit n] else hex_u (n div 16) @ [hex_digit (n mod 16)])"

declare hex_u.simps [simp del]

definition toupper :: "u8 \<Rightarrow> u8" where
  "toupper c = (if 97 \<le> c \<and> c \<le> 122 then c - 32 else c)"

text \<open>One of the loops: \<open>k\<close> draws from \<^verbatim>\<open>dis\<close> printed to the stream.\<close>

fun dis_loop :: "uuid_gen \<Rightarrow> nat \<Rightarrow> cstr \<times> nat \<Rightarrow> cstr \<times> nat" where
  "dis_loop g 0 (ss, n) = (ss, n)"
| "dis_loop g (Suc k) (ss, n) = dis_loop g k (ss @ hex_u (dis g n), n + 1)"

definition generate_uuid_v4 :: "uuid_gen \<Rightarrow> nat \<Rightarrow> cstr \<times> nat" where
  "generate_uuid_v4 g n =
     (let (ss, n) = dis_loop g 8 ([], n);
          (ss, n) = dis_loop g 4 (ss @ str ''-'', n);
          (ss, n) = dis_loop g 3 (ss @ str ''-4'', n);
          (ss, n) = dis_loop g 3 (ss @ str ''-'' @ hex_u (dis2 g n), n + 1);
          (ss, n) = dis_loop g 12 (ss @ str ''-'', n)
      in (map toupper ss, n))"

section \<open>The format\<close>

definition hex_upper :: "u8 \<Rightarrow> bool" where
  "hex_upper c \<longleftrightarrow> c \<in> set (str ''0123456789ABCDEF'')"

definition uuid_v4 :: "cstr \<Rightarrow> bool" where
  "uuid_v4 s \<longleftrightarrow>
     (\<exists>a b c d e. s = a @ str ''-'' @ b @ str ''-4'' @ c @ str ''-'' @ d @ str ''-'' @ e \<and>
        map length [a, b, c, d, e] = [8, 4, 3, 4, 12] \<and>
        list_all (list_all hex_upper) [a, b, c, d, e] \<and> hd d \<in> set (str ''89AB''))"

lemma dis_loop_eq: "dis_loop g k (ss, n) = (ss @ concat (map (\<lambda>i. hex_u (dis g i)) [n..<n + k]), n + k)"
proof (induction k arbitrary: ss n)
  case (Suc k)
  have "[n..<n + Suc k] = n # [Suc n..<n + Suc k]" by (simp add: upt_conv_Cons)
  then show ?case using Suc [of _ "Suc n"] by simp
qed simp

lemma hex_u_draw: "d \<le> 15 \<Longrightarrow> hex_u d = [hex_digit d]"
  by (simp add: hex_u.simps)

lemma toupper_digit:
  assumes "d \<le> 15"
  shows "toupper (hex_digit d) = str ''0123456789ABCDEF'' ! d"
proof -
  have "d \<in> {0, 1, 2, 3, 4, 5, 6, 7, 8, 9, 10, 11, 12, 13, 14, 15}" using assms by (auto simp: le_Suc_eq numeral_eq_Suc)
  then show ?thesis by (auto simp: toupper_def hex_digit_def bytes_simps)
qed

lemma concat_draws:
  "(\<And>i. dis g i \<le> 15) \<Longrightarrow> concat (map (\<lambda>i. hex_u (dis g i)) is) = map (\<lambda>i. hex_digit (dis g i)) is"
  by (induction "is") (simp_all add: hex_u_draw)

definition draws :: "uuid_gen \<Rightarrow> nat \<Rightarrow> nat \<Rightarrow> cstr" where
  "draws g k n = map (\<lambda>i. toupper (hex_digit (dis g i))) [n..<n + k]"

lemma hex_upper_nth: "d \<le> 15 \<Longrightarrow> hex_upper (str ''0123456789ABCDEF'' ! d)"
  unfolding hex_upper_def by (rule nth_mem) simp

lemma draws_ok: "uuid_gen_ok g \<Longrightarrow> length (draws g k n) = k \<and> list_all hex_upper (draws g k n)"
  by (auto simp: draws_def uuid_gen_ok_def list_all_iff toupper_digit hex_upper_nth)

lemma toupper_variant:
  assumes "8 \<le> d" and "d \<le> 11"
  shows "toupper (hex_digit d) \<in> set (str ''89AB'')" and "hex_upper (toupper (hex_digit d))"
proof -
  from assms have "d \<in> {8, 9, 10, 11}" by auto
  then show "toupper (hex_digit d) \<in> set (str ''89AB'')" "hex_upper (toupper (hex_digit d))"
    by (auto simp: toupper_digit hex_upper_nth) (auto simp: bytes_simps)
qed

lemma toupper_literals: "map toupper (str ''-'') = str ''-''" "map toupper (str ''-4'') = str ''-4''"
  by (simp_all add: toupper_def bytes_simps)

lemma uuid_v4I:
  assumes "map length [a, b, c, d, e] = [8, 4, 3, 4, 12]" and "list_all (list_all hex_upper) [a, b, c, d, e]"
    and "hd d \<in> set (str ''89AB'')"
  shows "uuid_v4 (a @ str ''-'' @ b @ str ''-4'' @ c @ str ''-'' @ d @ str ''-'' @ e)"
  unfolding uuid_v4_def
  by (rule exI [of _ a], rule exI [of _ b], rule exI [of _ c], rule exI [of _ d], rule exI [of _ e])
    (use assms in simp)

lemma generate_uuid_v4_eq:
  assumes "uuid_gen_ok g"
  shows "generate_uuid_v4 g n =
    (draws g 8 n @ str ''-'' @ draws g 4 (n + 8) @ str ''-4'' @ draws g 3 (n + 12) @ str ''-'' @
     (toupper (hex_digit (dis2 g (n + 15))) # draws g 3 (n + 16)) @ str ''-'' @ draws g 12 (n + 19), n + 31)"
proof -
  have "dis g i \<le> 15" for i using assms by (simp add: uuid_gen_ok_def)
  moreover have "dis2 g (n + 15) \<le> 11" using assms by (simp add: uuid_gen_ok_def)
  ultimately show ?thesis
    by (simp add: generate_uuid_v4_def dis_loop_eq concat_draws hex_u_draw draws_def comp_def toupper_literals ac_simps)
qed

text \<open>
  C19. \<open>generate_uuid_v4\<close> returns a version 4 identifier, whatever the generator draws: 36 characters
  in groups of 8, 4, 4, 4 and 12 upper-case hexadecimal digits, with the version digit 4 and a variant
  digit from 8 to B, after 31 draws.
\<close>

theorem uuid_is_v4:
  assumes "uuid_gen_ok g"
  shows "uuid_v4 (fst (generate_uuid_v4 g n)) \<and> snd (generate_uuid_v4 g n) = n + 31"
proof -
  have "8 \<le> dis2 g (n + 15)" "dis2 g (n + 15) \<le> 11" using assms by (auto simp: uuid_gen_ok_def)
  note v = toupper_variant [OF this]
  show ?thesis
    unfolding generate_uuid_v4_eq [OF assms] fst_conv snd_conv
    using v draws_ok [OF assms] by (intro conjI uuid_v4I) simp_all
qed

definition toy_gen :: uuid_gen where
  "toy_gen = \<lparr>dis = (\<lambda>n. n mod 16), dis2 = (\<lambda>n. 8 + n mod 4)\<rparr>"

lemma toy_gen_ok: "uuid_gen_ok toy_gen"
  using mod_less_divisor [of 16] mod_less_divisor [of 4]
  by (simp add: uuid_gen_ok_def toy_gen_def less_Suc_eq_le [symmetric])

theorem uuid_is_v4_witness:
  "uuid_v4 (fst (generate_uuid_v4 toy_gen 0)) \<and> snd (generate_uuid_v4 toy_gen 0) = 31"
  using uuid_is_v4 [OF toy_gen_ok, of 0] by simp

end
