(* ===== verification/Http.thy ===== *)
theory Http
  imports Args Relay
begin

text \<open>
  Nostr over HTTP: \<^verbatim>\<open>src/http/http.cc\<close>, and the receive loops of asio that it calls. What a socket
  delivers is the list of the segments that successive receive calls return; the end of the list is
  the end of the stream, where asio throws. A call that asks for fewer bytes leaves the others. An
  exception is \<open>None\<close> until \<open>http_parse\<close> catches it.
\<close>

section \<open>Strings\<close>

text \<open>
  \<^verbatim>\<open>std::string::find\<close>, where \<open>None\<close> is \<^verbatim>\<open>npos\<close>, its value as a \<^verbatim>\<open>size_t\<close>, and \<^verbatim>\<open>substr\<close>, which throws
  past the end.
\<close>

fun find_str :: "cstr \<Rightarrow> cstr \<Rightarrow> nat option" where
  "find_str [] pat = (if pat = [] then Some 0 else None)"
| "find_str (c # s) pat =
     (if take (length pat) (c # s) = pat then Some 0
      else (case find_str s pat of None \<Rightarrow> None | Some i \<Rightarrow> Some (Suc i)))"

definition pos_of :: "nat option \<Rightarrow> nat" where
  "pos_of r = (case r of None \<Rightarrow> 2 ^ 64 - 1 | Some i \<Rightarrow> i)"

definition substr :: "cstr \<Rightarrow> nat \<Rightarrow> nat \<Rightarrow> cstr option" where
  "substr s pos n = (if pos > length s then None else Some (take n (drop pos s)))"

text \<open>Subtraction in \<^verbatim>\<open>size_t\<close>.\<close>

definition size_minus :: "nat \<Rightarrow> nat \<Rightarrow> nat" where
  "size_minus a b = nat ((int a - int b) mod 2 ^ 64)"

text \<open>\<^verbatim>\<open>atoi(s.c_str())\<close>, converted from \<^verbatim>\<open>int\<close> to \<^verbatim>\<open>size_t\<close>.\<close>

definition atoi_size :: "cstr \<Rightarrow> nat" where
  "atoi_size s =
     (case strtol10 (takeWhile (\<lambda>c. c \<noteq> 0) s) 0 of (v, errno) \<Rightarrow> size_of_int (sint (word_of_int v :: u32)))"

text \<open>\<^verbatim>\<open>std::getline\<close>: the line without its newline and what is left.\<close>

definition getline :: "cstr \<Rightarrow> (cstr \<times> cstr) option" where
  "getline buf =
     (if buf = [] then None
      else Some (takeWhile (\<lambda>c. c \<noteq> 10) buf, drop 1 (dropWhile (\<lambda>c. c \<noteq> 10) buf)))"

section \<open>Receiving\<close>

fun asio_read_until :: "cstr \<Rightarrow> bytes list \<Rightarrow> bytes \<Rightarrow> (bytes \<times> bytes list) option" where
  "asio_read_until delim sock buf =
     (if find_str buf delim \<noteq> None then Some (buf, sock)
      else (case sock of [] \<Rightarrow> None | seg # sock \<Rightarrow> asio_read_until delim sock (buf @ seg)))"

declare asio_read_until.simps [simp del]

fun asio_read_exactly :: "nat \<Rightarrow> bytes list \<Rightarrow> (bytes \<times> bytes list) option" where
  "asio_read_exactly n sock =
     (if n = 0 then Some ([], sock)
      else (case sock of
              [] \<Rightarrow> None
            | seg # sock \<Rightarrow>
                if n < length seg then Some (take n seg, drop n seg # sock)
                else (case asio_read_exactly (n - length seg) sock of
                        None \<Rightarrow> None
                      | Some (bs, sock) \<Rightarrow> Some (seg @ bs, sock))))"

declare asio_read_exactly.simps [simp del]

section \<open>Messages\<close>

record http_msg_t =
  h_content_size :: nat
  h_method :: cstr
  h_url :: cstr
  h_header :: "cstr list"
  h_msg :: cstr

definition http_msg_t0 :: http_msg_t where
  "http_msg_t0 = \<lparr>h_content_size = 0, h_method = [], h_url = [], h_header = [], h_msg = []\<rparr>"

definition crlf :: cstr where "crlf = [13, 10]"

definition make_post :: "cstr \<Rightarrow> cstr \<Rightarrow> cstr" where
  "make_post host json =
     str ''POST / HTTP/1.1'' @ crlf @
     str ''Host: '' @ host @ crlf @
     str ''Connection: close'' @ crlf @
     str ''Content-Type: application/json'' @ crlf @
     str ''Content-Length: '' @ dec_u (length json) @ crlf @
     crlf @
     json"

definition get_method :: "cstr \<Rightarrow> cstr option" where
  "get_method header =
     (case substr header 0 4 of
        None \<Rightarrow> None
      | Some s \<Rightarrow>
          if s = str ''HTTP'' then Some []
          else (case find_str header (str '' '') of
                  None \<Rightarrow> Some []
                | Some pos \<Rightarrow> substr header 0 pos))"

definition get_url :: "cstr \<Rightarrow> cstr option" where
  "get_url header =
     (case substr header 0 4 of
        None \<Rightarrow> None
      | Some s \<Rightarrow>
          if s = str ''HTTP'' then Some []
          else (case find_str header (str '' '') of
                  None \<Rightarrow> Some []
                | Some pos \<Rightarrow>
                    let ver_pos = pos_of (find_str header (str '' HTTP''))
                    in if pos = ver_pos then Some []
                       else substr header (pos + 1) (size_minus (size_minus ver_pos pos) 1)))"

function header_loop :: "cstr \<Rightarrow> cstr list \<Rightarrow> cstr list \<times> cstr" where
  "header_loop stream header =
     (case getline stream of
        None \<Rightarrow> (header, stream)
      | Some (line, stream) \<Rightarrow>
          if line \<noteq> [13] then header_loop stream (header @ [line]) else (header, stream))"
  by auto
termination
proof (relation "measure (\<lambda>(stream, header). length stream)")
  fix stream header p line rest
  assume "getline stream = Some p" "(line, rest) = p"
  then have "stream \<noteq> []" "rest = drop 1 (dropWhile (\<lambda>c. c \<noteq> 10) stream)" by (auto simp: getline_def split: if_splits)
  then show "((rest, header @ [line]), stream, header) \<in> measure (\<lambda>(stream, header). length stream)"
    using length_dropWhile_le [of "\<lambda>c. c \<noteq> 10" stream] by (cases stream) auto
qed simp

declare header_loop.simps [simp del]

text \<open>The loop that looks for the length; \<open>cs\<close> is the local \<^verbatim>\<open>content_size\<close>.\<close>

fun length_loop :: "cstr list \<Rightarrow> nat \<Rightarrow> http_msg_t \<Rightarrow> bool \<times> nat \<times> http_msg_t" where
  "length_loop [] cs http = (True, cs, http)"
| "length_loop (line # lines) cs http =
     (if find_str line (str ''Content-Length: '') \<noteq> None then
        let start = pos_of (find_str line (str '':'')) + 2;
            last_pos = pos_of (find_str line [13])
        in case substr line start (size_minus last_pos 1) of
             None \<Rightarrow> (False, cs, http)
           | Some s \<Rightarrow> let cs = atoi_size s in length_loop lines cs (http\<lparr>h_content_size := cs\<rparr>)
      else length_loop lines cs http)"

text \<open>The result is 0 or -1 (\<open>True\<close> or \<open>False\<close>), the message as far as it was stored, and what is left on the socket.\<close>

definition http_body :: "nat \<Rightarrow> bytes \<Rightarrow> bytes list \<Rightarrow> http_msg_t \<Rightarrow> bool \<times> http_msg_t \<times> bytes list" where
  "http_body content_size buf sock http =
     (if h_content_size http = 0 then (True, http, sock)
      else
        let (ss, read_left) =
              (if length buf > 0 then (buf, size_minus content_size (length buf)) else ([], content_size))
        in case asio_read_exactly read_left sock of
             None \<Rightarrow> (False, http, [])
           | Some (recv, sock) \<Rightarrow> (True, http\<lparr>h_msg := ss @ recv\<rparr>, sock))"

definition http_parse :: "bytes list \<Rightarrow> http_msg_t \<Rightarrow> bool \<times> http_msg_t \<times> bytes list" where
  "http_parse sock http =
     (case asio_read_until (crlf @ crlf) sock [] of
        None \<Rightarrow> (False, http, [])
      | Some (buf, sock) \<Rightarrow>
          (case header_loop buf (h_header http) of (header, buf) \<Rightarrow>
             let http = http\<lparr>h_header := header\<rparr>
             in case header of
                  [] \<Rightarrow> (False, http, sock)
                | line # _ \<Rightarrow>
                    (case get_method line of
                       None \<Rightarrow> (False, http, sock)
                     | Some method \<Rightarrow>
                         let http = http\<lparr>h_method := method\<rparr>
                         in case get_url line of
                              None \<Rightarrow> (False, http, sock)
                            | Some url \<Rightarrow>
                                let http = http\<lparr>h_url := url\<rparr>
                                in case length_loop header 0 http of
                                     (ok, content_size, http) \<Rightarrow>
                                       if ok then http_body content_size buf sock http else (False, http, sock))))"

section \<open>Searching\<close>

lemma all_nat_Suc: "(\<forall>i \<le> Suc n. P i) \<longleftrightarrow> P 0 \<and> (\<forall>i \<le> n. P (Suc i))"
  by (metis Suc_le_mono le0 not0_implies_Suc)

lemma find_str_None: "find_str s pat = None \<longleftrightarrow> (\<forall>i \<le> length s. take (length pat) (drop i s) \<noteq> pat)"
proof (induction s)
  case (Cons c s)
  have "(\<forall>i \<le> length (c # s). take (length pat) (drop i (c # s)) \<noteq> pat) \<longleftrightarrow>
      take (length pat) (c # s) \<noteq> pat \<and> (\<forall>i \<le> length s. take (length pat) (drop i s) \<noteq> pat)"
    by (auto simp: all_nat_Suc)
  with Cons show ?case by (auto split: option.splits)
qed simp

lemma find_str_SomeE:
  assumes "find_str s pat \<noteq> None"
  obtains i where "i + length pat \<le> length s" and "\<forall>k < length pat. s ! (i + k) = pat ! k"
proof -
  from assms obtain i where i: "i \<le> length s" "take (length pat) (drop i s) = pat" unfolding find_str_None by blast
  then have "length pat = min (length pat) (length s - i)" by (metis length_drop length_take min.commute)
  then have "i + length pat \<le> length s" using i(1) by linarith
  moreover have "\<forall>k < length pat. s ! (i + k) = pat ! k" using i by (metis nth_drop nth_take)
  ultimately show thesis by (rule that)
qed

lemma find_byte: "b \<notin> set s \<Longrightarrow> find_str (s @ b # r) [b] = Some (length s)"
  by (induction s) auto

lemma size_minus_le: "b \<le> a \<Longrightarrow> a < 2 ^ 64 \<Longrightarrow> size_minus a b = a - b"
  by (simp add: size_minus_def)

section \<open>Headers\<close>

definition http_header :: "cstr list \<Rightarrow> cstr" where
  "http_header ls = concat (map (\<lambda>l. l @ crlf) ls) @ crlf"

definition line_ok :: "cstr \<Rightarrow> bool" where
  "line_ok l \<longleftrightarrow> 10 \<notin> set l \<and> l \<noteq> [] \<and> hd l \<noteq> 13"

lemma http_header_simps [simp]: "http_header [] = crlf" "http_header (l # ls) = l @ crlf @ http_header ls"
  by (simp_all add: http_header_def)

text \<open>The first empty line ends the header.\<close>

lemma header_delim:
  assumes "list_all line_ok ls" and "i + 4 \<le> length (http_header ls @ r)"
    and "\<And>k. k < 4 \<Longrightarrow> (http_header ls @ r) ! (i + k) = [13, 10, 13, 10] ! k"
  shows "length (http_header ls) \<le> i + 4"
  using assms
proof (induction ls arbitrary: i)
  case (Cons l ls)
  let ?n = "length l" and ?s = "http_header (l # ls) @ r"
  have s: "?s ! i = 13" "?s ! (i + 1) = 10" "?s ! (i + 2) = 13"
    using Cons.prems(3) [of 0] Cons.prems(3) [of 1] Cons.prems(3) [of 2] by simp_all
  have l: "10 \<notin> set l" using Cons.prems(1) by (simp add: line_ok_def)
  consider "?n + 2 \<le> i" | "i + 1 < ?n" | "i + 1 = ?n" | "i = ?n" | "i = ?n + 1" by linarith
  then show ?case
  proof cases
    case 1
    have "length (http_header ls) \<le> i - (?n + 2) + 4"
    proof (rule Cons.IH)
      show "(http_header ls @ r) ! (i - (?n + 2) + k) = [13, 10, 13, 10] ! k" if "k < 4" for k
        using Cons.prems(3) [OF that] 1 by (simp add: nth_append crlf_def)
    qed (use Cons.prems(1,2) 1 in \<open>simp_all add: crlf_def\<close>)
    with 1 show ?thesis by (simp add: crlf_def)
  next
    case 2
    with s(2) have "10 \<in> set l" by (simp add: nth_append) (metis nth_mem)
    with l show ?thesis by simp
  next
    case 4
    have "ls = []"
    proof (rule ccontr)
      assume "ls \<noteq> []"
      then obtain l' ls' where "ls = l' # ls'" by (cases ls) auto
      with s(3) Cons.prems(1) 4 show False by (cases l') (simp_all add: nth_append crlf_def line_ok_def)
    qed
    with 4 show ?thesis by (simp add: crlf_def)
  qed (use s in \<open>simp_all add: nth_append crlf_def\<close>)
qed (simp add: crlf_def)

lemma getline_crlf: "10 \<notin> set l \<Longrightarrow> getline (l @ crlf @ r) = Some (l @ [13], r)"
proof -
  assume "10 \<notin> set l"
  then have "takeWhile (\<lambda>c. c \<noteq> 10) (l @ 13 # 10 # r) = l @ [13]" "dropWhile (\<lambda>c. c \<noteq> 10) (l @ 13 # 10 # r) = 10 # r"
    by (induction l) auto
  then show ?thesis by (simp add: getline_def crlf_def)
qed

lemma header_loop_text:
  "list_all line_ok ls \<Longrightarrow> header_loop (http_header ls @ r) hdr = (hdr @ map (\<lambda>l. l @ [13]) ls, r)"
proof (induction ls arbitrary: hdr)
  case Nil
  show ?case using getline_crlf [of "[]" r] by (simp add: header_loop.simps)
next
  case (Cons l ls)
  then have "l \<noteq> []" "10 \<notin> set l" by (auto simp: line_ok_def)
  with Cons show ?case using getline_crlf [of l "http_header ls @ r"] by (subst header_loop.simps) simp
qed

section \<open>Receiving a message\<close>

lemma asio_read_until_ok:
  assumes "find_str (buf @ concat sock) delim \<noteq> None"
  obtains buf' sock' where "asio_read_until delim sock buf = Some (buf', sock')"
    and "buf' @ concat sock' = buf @ concat sock" and "find_str buf' delim \<noteq> None"
  using assms
proof (induction sock arbitrary: buf thesis)
  case Nil
  then show ?case by (intro Nil.prems(1) [of buf "[]"]) (simp_all add: asio_read_until.simps)
next
  case (Cons seg sock)
  show ?case
  proof (cases "find_str buf delim")
    case None
    obtain buf' sock' where "asio_read_until delim sock (buf @ seg) = Some (buf', sock')"
      "buf' @ concat sock' = (buf @ seg) @ concat sock" "find_str buf' delim \<noteq> None"
      using Cons.IH [of "buf @ seg"] Cons.prems(2) by auto
    then show ?thesis by (intro Cons.prems(1) [of buf' sock']) (simp_all add: asio_read_until.simps [of delim "seg # sock"] None)
  next
    case (Some i)
    then show ?thesis by (intro Cons.prems(1) [of buf "seg # sock"]) (simp_all add: asio_read_until.simps)
  qed
qed

lemma asio_read_exactly_ok:
  "length (concat sock) \<ge> n \<Longrightarrow>
   \<exists>sock'. asio_read_exactly n sock = Some (take n (concat sock), sock') \<and> concat sock' = drop n (concat sock)"
proof (induction sock arbitrary: n)
  case (Cons seg sock)
  show ?case
  proof (cases "n < length seg")
    case False
    with Cons.prems have "n - length seg \<le> length (concat sock)" by simp
    with Cons.IH [OF this] False show ?thesis by (auto simp: asio_read_exactly.simps [of n])
  qed (auto simp: asio_read_exactly.simps)
qed (simp add: asio_read_exactly.simps)

lemma asio_read_exactly_eof: "length (concat sock) < n \<Longrightarrow> asio_read_exactly n sock = None"
proof (induction sock arbitrary: n)
  case (Cons seg sock)
  then show ?case using Cons.IH [of "n - length seg"] by (simp add: asio_read_exactly.simps [of n])
qed (simp add: asio_read_exactly.simps)

lemma read_until_header:
  assumes "list_all line_ok ls" and "concat sock = http_header ls @ body" and "ls \<noteq> []"
  obtains pre sock' where "asio_read_until (crlf @ crlf) sock [] = Some (http_header ls @ pre, sock')"
    and "pre @ concat sock' = body"
proof -
  obtain front l where ls: "ls = front @ [l]" using assms(3) by (metis rev_exhaust)
  have "find_str (http_header ls @ body) (crlf @ crlf) \<noteq> None" unfolding find_str_None
    by (auto simp: ls http_header_def crlf_def intro!: exI [of _ "length (concat (map (\<lambda>l. l @ [13, 10]) front) @ l)"])
  then have "find_str ([] @ concat sock) (crlf @ crlf) \<noteq> None" using assms(2) by simp
  from asio_read_until_ok [OF this] obtain buf sock' where b: "asio_read_until (crlf @ crlf) sock [] = Some (buf, sock')"
    "buf @ concat sock' = http_header ls @ body" "find_str buf (crlf @ crlf) \<noteq> None"
    using assms(2) by auto
  from find_str_SomeE [OF b(3)] obtain i where i: "i + 4 \<le> length buf" "\<And>k. k < 4 \<Longrightarrow> buf ! (i + k) = [13, 10, 13, 10] ! k"
    by (auto simp: crlf_def numeral_eq_Suc)
  have "length (http_header ls) \<le> i + 4"
  proof (rule header_delim [OF assms(1), of i body])
    show "i + 4 \<le> length (http_header ls @ body)" using i(1) b(2) by (metis length_append trans_le_add1)
    show "(http_header ls @ body) ! (i + k) = [13, 10, 13, 10] ! k" if "k < 4" for k
      using i that b(2) [symmetric] by (simp add: nth_append)
  qed
  with i(1) have "length (http_header ls) \<le> length buf" by simp
  then obtain pre where pre: "buf = http_header ls @ pre" using b(2)
    by (metis append_eq_append_conv_if append_take_drop_id)
  with b show thesis by (intro that [of pre sock']) simp_all
qed

section \<open>Posts\<close>

definition post_lines :: "cstr \<Rightarrow> nat \<Rightarrow> cstr list" where
  "post_lines host n =
     [str ''POST / HTTP/1.1'', str ''Host: '' @ host, str ''Connection: close'',
      str ''Content-Type: application/json'', str ''Content-Length: '' @ dec_u n]"

definition host_ok :: "cstr \<Rightarrow> bool" where
  "host_ok host \<longleftrightarrow> 10 \<notin> set host \<and> 32 \<notin> set host"

lemma make_post_lines: "make_post host json = http_header (post_lines host (length json)) @ json"
  by (simp add: make_post_def post_lines_def)

lemma dec_u_set: "c \<in> set (dec_u n) \<Longrightarrow> isdigit c"
  using dec_u_isdigit [of n] by (simp add: list_all_iff)

lemma dec_u_no: "\<not> isdigit c \<Longrightarrow> c \<notin> set (dec_u n)"
  using dec_u_set by blast

lemma post_lines_ok: "host_ok host \<Longrightarrow> list_all line_ok (post_lines host n)"
  using dec_u_no [of 10 n] by (simp add: post_lines_def line_ok_def host_ok_def isdigit_def bytes_simps)

lemma host_line_no_length:
  assumes "32 \<notin> set host"
  shows "find_str (str ''Host: '' @ host @ [13]) (str ''Content-Length: '') = None" (is "find_str ?s ?pat = None")
proof (rule ccontr)
  assume "find_str ?s ?pat \<noteq> None"
  then obtain i where i: "i + length ?pat \<le> length ?s" "\<forall>k < length ?pat. ?s ! (i + k) = ?pat ! k"
    by (rule find_str_SomeE)
  have "?s ! (i + 15) = 32" using i(2) [rule_format, of 15] by (simp add: bytes_simps)
  moreover have "?s ! (i + 15) = (host @ [13]) ! (i + 9)"
    by (simp add: nth_append bytes_simps add.commute)
  moreover have "(host @ [13]) ! (i + 9) \<in> set (host @ [13])" using i(1) by (intro nth_mem) simp
  ultimately show False using assms by simp
qed

lemma atoi_dec_u: "n < 2 ^ 31 \<Longrightarrow> atoi_size (dec_u n @ [13]) = n"
proof -
  assume n: "n < 2 ^ 31"
  obtain c r where cr: "dec_u n = c # r" using dec_u_nonempty [of n] by (cases "dec_u n") auto
  have c: "isdigit c" using dec_u_set [of c n] cr by simp
  then have "\<not> isspace c" "c \<noteq> chr CHR ''-''" "c \<noteq> chr CHR ''+''" by (auto simp: isdigit_def isspace_def chr_def)
  moreover have "takeWhile (\<lambda>c. c \<noteq> 0) (dec_u n @ [13]) = dec_u n @ [13]"
    using dec_u_no [of 0 n] by (auto simp: isdigit_def)
  moreover have "takeWhile isdigit (dec_u n @ [13]) = dec_u n"
    using dec_u_isdigit [of n] by (simp add: list_all_iff isdigit_def)
  moreover have "dec_val (c # r) = n" using dec_val_dec_u [of n] cr by simp
  ultimately have "strtol10 (takeWhile (\<lambda>c. c \<noteq> 0) (dec_u n @ [13])) 0 = (int n, 0)"
    using n by (simp add: strtol10_def cr clamp_long_def)
  then show ?thesis using n by (simp add: atoi_size_def signed_of_nat signed_take_bit_int_eq_self)
qed

lemma length_line:
  assumes "n < 2 ^ 31"
  shows "length_loop [str ''Content-Length: '' @ dec_u n @ [13]] cs http = (True, n, http\<lparr>h_content_size := n\<rparr>)"
proof -
  let ?l = "str ''Content-Length: '' @ dec_u n @ [13]"
  have "find_str ?l (str ''Content-Length: '') \<noteq> None" "find_str ?l (str '':'') = Some 14" by (simp_all add: bytes_simps)
  moreover have "find_str ?l [13] = Some (16 + length (dec_u n))"
    using find_byte [of 13 "str ''Content-Length: '' @ dec_u n" "[]"] dec_u_no [of 13 n]
    by (simp add: isdigit_def bytes_simps)
  moreover have "length (dec_u n) \<le> 10" using assms by (intro length_dec_u_le) simp_all
  ultimately show ?thesis using assms atoi_dec_u [OF assms]
    by (simp add: pos_of_def substr_def size_minus_le)
qed

lemma length_loop_append:
  "length_loop (xs @ ys) cs http =
     (case length_loop xs cs http of (ok, cs, http) \<Rightarrow> if ok then length_loop ys cs http else (False, cs, http))"
  by (induction xs cs http rule: length_loop.induct) (auto simp: Let_def split: option.splits)

lemma length_loop_post:
  assumes "host_ok host" and "n < 2 ^ 31"
  shows "length_loop (map (\<lambda>l. l @ [13]) (post_lines host n)) cs http = (True, n, http\<lparr>h_content_size := n\<rparr>)"
proof -
  have "find_str (str ''POST / HTTP/1.1'' @ [13]) (str ''Content-Length: '') = None"
    "find_str (str ''Connection: close'' @ [13]) (str ''Content-Length: '') = None"
    "find_str (str ''Content-Type: application/json'' @ [13]) (str ''Content-Length: '') = None"
    by (simp_all add: bytes_simps)
  then show ?thesis using assms host_line_no_length [of host] length_line [OF assms(2)]
    by (simp add: post_lines_def host_ok_def del: length_loop.simps(2))
      (simp add: length_loop.simps(2) del: find_str.simps)
qed

lemma post_method_url:
  "get_method (str ''POST / HTTP/1.1'' @ [13]) = Some (str ''POST'')"
  "get_url (str ''POST / HTTP/1.1'' @ [13]) = Some (str ''/'')"
  by (simp_all add: get_method_def get_url_def substr_def pos_of_def size_minus_le bytes_simps)

definition posted :: "cstr \<Rightarrow> nat \<Rightarrow> cstr \<Rightarrow> http_msg_t" where
  "posted host n msg = \<lparr>h_content_size = n, h_method = str ''POST'', h_url = str ''/'',
     h_header = map (\<lambda>l. l @ [13]) (post_lines host n), h_msg = msg\<rparr>"

lemma http_parse_post:
  assumes "host_ok host" and "length json < 2 ^ 31" and "concat sock = make_post host json @ extra"
  obtains pre sock' where "pre @ concat sock' = json @ extra"
    and "http_parse sock http_msg_t0 = http_body (length json) pre sock' (posted host (length json) [])"
    and "asio_read_until (crlf @ crlf) sock [] = Some (http_header (post_lines host (length json)) @ pre, sock')"
proof -
  let ?ls = "post_lines host (length json)"
  note ok = post_lines_ok [OF assms(1), of "length json"]
  have "?ls \<noteq> []" "concat sock = http_header ?ls @ json @ extra"
    using assms(3) by (simp_all add: make_post_lines) (simp add: post_lines_def)
  from read_until_header [OF ok this(2,1)] obtain pre sock' where r:
    "asio_read_until (crlf @ crlf) sock [] = Some (http_header ?ls @ pre, sock')" "pre @ concat sock' = json @ extra" by blast
  obtain ls' where hd: "map (\<lambda>l. l @ [13]) ?ls = (str ''POST / HTTP/1.1'' @ [13]) # ls'" by (simp add: post_lines_def)
  have "http_parse sock http_msg_t0 = http_body (length json) pre sock' (posted host (length json) [])"
    using length_loop_post [OF assms(1,2)] hd
    by (simp add: http_parse_def r header_loop_text [OF ok] http_msg_t0_def posted_def post_method_url Let_def)
  with r show thesis by (intro that [of pre sock']) simp_all
qed

lemma http_body_exact:
  assumes "pre @ concat sock = json" and "json \<noteq> []" and "length json < 2 ^ 31"
  shows "\<exists>sock'. http_body (length json) pre sock (posted host (length json) []) =
           (True, posted host (length json) json, sock') \<and> concat sock' = []"
proof -
  let ?n = "length json - length pre"
  have len: "length json = length pre + length (concat sock)" using assms(1) by (metis length_append)
  from asio_read_exactly_ok [of ?n sock] len obtain sock' where
    "asio_read_exactly ?n sock = Some (concat sock, sock')" "concat sock' = []" by auto
  moreover have "size_minus (length json) (length pre) = ?n" using assms(3) len by (intro size_minus_le) simp_all
  ultimately show ?thesis using assms(1,2) by (auto simp: http_body_def posted_def)
qed

text \<open>
  C16. A message sent with \<open>make_post\<close> is received by \<open>http_parse\<close>, however the network cuts the stream
  into segments: the method, the path, the length and the text are the ones sent, and nothing is left
  on the socket.
\<close>

theorem http_roundtrip:
  assumes "host_ok host" and "json \<noteq> []" and "length json < 2 ^ 31" and "concat sock = make_post host json"
  shows "\<exists>sock'. http_parse sock http_msg_t0 = (True, posted host (length json) json, sock') \<and> concat sock' = []"
proof -
  have "concat sock = make_post host json @ []" using assms(4) by simp
  from http_parse_post [OF assms(1,3) this] obtain pre sock' where r: "pre @ concat sock' = json @ []"
    "http_parse sock http_msg_t0 = http_body (length json) pre sock' (posted host (length json) [])" by blast
  from http_body_exact [OF r(1) [unfolded append_Nil2] assms(2,3)] r(2) show ?thesis by simp
qed

theorem http_roundtrip_witness:
  "\<exists>sock'. http_parse (map (\<lambda>c. [c]) (make_post (str ''h'') (str ''[]''))) http_msg_t0 =
     (True, posted (str ''h'') 2 (str ''[]''), sock') \<and> concat sock' = []"
proof -
  have "host_ok (str ''h'')" "str ''[]'' \<noteq> []" "length (str ''[]'') < 2 ^ 31"
    "concat (map (\<lambda>c. [c]) (make_post (str ''h'') (str ''[]''))) = make_post (str ''h'') (str ''[]'')"
    by (simp_all add: host_ok_def bytes_simps)
  from http_roundtrip [OF this] show ?thesis by (simp add: numeral_2_eq_2)
qed

text \<open>
  A post whose end arrives together with further bytes is lost: the number of bytes that are left to
  read wraps around, and the end of the stream is reported as a failure.
\<close>

lemma http_parse_overlong:
  assumes "host_ok host" and "json \<noteq> []" and "length json < 2 ^ 31" and "extra \<noteq> []" and "length extra < 2 ^ 32"
  shows "http_parse [make_post host json @ extra] http_msg_t0 = (False, posted host (length json) [], [])"
proof -
  have "concat [make_post host json @ extra] = make_post host json @ extra" by simp
  from http_parse_post [OF assms(1,3) this] obtain pre sock' where r: "pre @ concat sock' = json @ extra"
    "http_parse [make_post host json @ extra] http_msg_t0 = http_body (length json) pre sock' (posted host (length json) [])"
    "asio_read_until (crlf @ crlf) [make_post host json @ extra] [] =
       Some (http_header (post_lines host (length json)) @ pre, sock')" by blast
  from r(3) have "sock' = []" by (auto simp: asio_read_until.simps crlf_def split: if_splits)
  with r(1) have pre: "pre = json @ extra" by simp
  have "size_minus (length json) (length pre) = 2 ^ 64 - length extra"
    using assms(4,5) by (simp add: pre size_minus_def nat_diff_distrib' zmod_zminus1_eq_if)
  then show ?thesis using assms(2,4,5) r(2)
    by (simp add: http_body_def posted_def pre \<open>sock' = []\<close> asio_read_exactly.simps)
qed

end
