(* ===== verification/Http_Relay.thy ===== *)
theory Http_Relay
  imports Http
begin

text \<open>
  The programs \<^verbatim>\<open>src/http/http_relay.cc\<close> and \<^verbatim>\<open>src/http/http_client.cc\<close>, which exchange Nostr messages by
  HTTP. One turn of the relay's loop takes what the accepted socket delivers and gives the bytes
  written to it, if any; exceptions end the turn. The values of \<^verbatim>\<open>rand()\<close> are a parameter, with the number
  of calls as the state.
\<close>

section \<open>The relay\<close>

definition http_relay_start :: "json_lib \<Rightarrow> files \<Rightarrow> event_t list \<times> files" where
  "http_relay_start lib fs = (let database = [] in (database, snd (database_save lib database fs)))"

definition http_relay_turn ::
  "json_lib \<Rightarrow> u64 \<Rightarrow> cstr \<Rightarrow> bytes list \<Rightarrow> event_t list \<times> files \<Rightarrow> bytes option \<times> event_t list \<times> files" where
  "http_relay_turn lib now client_ip sock st =
     (case st of (database, fs) \<Rightarrow>
        (case http_parse sock http_msg_t0 of (r, http, sock) \<Rightarrow>
           (case message_head lib (h_msg http) of
              None \<Rightarrow> (None, database, fs)
            | Some (message_type, js_message) \<Rightarrow>
                if message_type = str ''EVENT'' then
                  (case at_index js_message 1 of
                     None \<Rightarrow> (None, database, fs)
                   | Some j \<Rightarrow>
                       (case event_from_json lib j (event_t0 now) of (ok, ev) \<Rightarrow>
                          if \<not> ok then (None, database, fs)
                          else
                            let database = database @ [ev];
                                (r, fs) = database_append lib database fs
                            in (Some (str ''HTTP/1.1 200 OK'' @ crlf @ crlf), database, fs)))
                else if message_type = str ''REQ'' then
                  (case at_index js_message 1 of
                     None \<Rightarrow> (None, database, fs)
                   | Some t \<Rightarrow>
                       (case get_string t of
                          None \<Rightarrow> (None, database, fs)
                        | Some subscription_id \<Rightarrow>
                            (case at_index js_message 2 of
                               None \<Rightarrow> (None, database, fs)
                             | Some j \<Rightarrow>
                                 (case filter_from_json lib j (filter_t0 now) of (ok, filt) \<Rightarrow>
                                    if \<not> ok then (None, database, fs)
                                    else
                                      let events = database_request lib filt fs
                                      in case js_dump lib (Some 2) (JArray (map event_to_json events)) of
                                           None \<Rightarrow> (None, database, fs)
                                         | Some json \<Rightarrow> (Some (make_post client_ip json), database, fs)))))
                else (None, database, fs))))"

section \<open>The client\<close>

definition hex_characters :: cstr where
  "hex_characters = str ''0123456789ABCDEF''"

definition tolower :: "u8 \<Rightarrow> u8" where
  "tolower c = (if 65 \<le> c \<and> c \<le> 90 then c + 32 else c)"

fun hex_string_loop :: "(nat \<Rightarrow> nat) \<Rightarrow> nat \<Rightarrow> cstr \<times> nat \<Rightarrow> cstr \<times> nat" where
  "hex_string_loop rnd 0 (hex, n) = (hex, n)"
| "hex_string_loop rnd (Suc k) (hex, n) = hex_string_loop rnd k (hex @ [hex_characters ! (rnd n mod 16)], n + 1)"

definition hex_string :: "(nat \<Rightarrow> nat) \<Rightarrow> nat \<Rightarrow> nat \<Rightarrow> bool \<Rightarrow> cstr \<times> nat" where
  "hex_string rnd n len to_lower =
     (case hex_string_loop rnd len ([], n) of (hex, n) \<Rightarrow> (if to_lower then map tolower hex else hex, n))"

definition demo_pubkey :: cstr where
  "demo_pubkey = str ''b2b41e936821bb48572c2295ec5f1741''"

text \<open>The text, the event in it, the number of calls of \<^verbatim>\<open>rand()\<close> and the files; \<open>Abort\<close> when the printer throws.\<close>

definition http_make_event ::
  "json_lib \<Rightarrow> (nat \<Rightarrow> nat) \<Rightarrow> nat \<Rightarrow> u64 \<Rightarrow> files \<Rightarrow> (cstr \<times> event_t \<times> nat \<times> files) outcome" where
  "http_make_event lib rnd n now fs =
     (let pubkey = demo_pubkey;
          (i, n) = hex_string rnd n 32 True;
          e = [str ''e'', i];
          p = [str ''p'', pubkey];
          (sig, n) = hex_string rnd n 64 False;
          ev = (event_t0 now)\<lparr>e_id := i, e_pubkey := pubkey, e_created_at := now, e_kind := 1, e_tags := [e, p],
                 e_content := str ''some great content'', e_sig := sig\<rparr>
      in case js_dump lib (Some 2) (JArray [JString (str ''EVENT''), event_to_json ev]) of
           None \<Rightarrow> Abort
         | Some json \<Rightarrow> Ret (json, ev, n, fs(str ''event.json'' \<mapsto> json)))"

definition http_make_request ::
  "json_lib \<Rightarrow> (nat \<Rightarrow> nat) \<Rightarrow> nat \<Rightarrow> u64 \<Rightarrow> files \<Rightarrow> (cstr \<times> nat \<times> files) outcome" where
  "http_make_request lib rnd n now fs =
     (let pubkey = demo_pubkey;
          (i, n) = hex_string rnd n 32 True;
          filt = (filter_t0 now)\<lparr>f_ids := [i], f_authors := [pubkey], f_kinds := [1], f_e := [i], f_p := [pubkey],
                   f_since := 1643873040, f_until := now, f_limit := 100\<rparr>
      in case js_dump lib (Some 2)
                (JArray [JString (str ''REQ''), JString (str ''subscription_1''), filter_to_json filt False]) of
           None \<Rightarrow> Abort
         | Some json \<Rightarrow> Ret (json, n, fs(str ''request.json'' \<mapsto> json)))"

text \<open>What \<^verbatim>\<open>send\<close> gets back for the post it writes.\<close>

datatype http_answer = HFailed | HEmpty | HEvents "event_t list"

definition http_reply :: "json_lib \<Rightarrow> bytes list \<Rightarrow> http_answer" where
  "http_reply lib sock =
     (case http_parse sock http_msg_t0 of (ok, http, sock) \<Rightarrow>
        if \<not> ok then HFailed
        else if h_header http = [] then HFailed
        else if h_msg http \<noteq> [] then
          (case js_parse lib (h_msg http) of
             None \<Rightarrow> HFailed
           | Some js_events \<Rightarrow>
               (case get_vector (get_event lib) js_events of None \<Rightarrow> HFailed | Some events \<Rightarrow> HEvents events))
        else HEmpty)"

text \<open>
  A connection takes the bytes written and gives the segments to read, or \<open>None\<close> when it fails; \<open>w\<close> is the
  state of the world behind it.
\<close>

definition http_send ::
  "json_lib \<Rightarrow> (bytes \<Rightarrow> 'w \<Rightarrow> bytes list option \<times> 'w) \<Rightarrow> cstr \<Rightarrow> cstr \<Rightarrow> 'w \<Rightarrow> http_answer \<times> 'w" where
  "http_send lib net host json w =
     (case net (make_post host json) w of
        (None, w) \<Rightarrow> (HFailed, w)
      | (Some sock, w) \<Rightarrow> (http_reply lib sock, w))"

text \<open>The replies to the two messages of the client, sent at the times \<open>t1\<close> and \<open>t2\<close>.\<close>

definition http_client_main ::
  "json_lib \<Rightarrow> (nat \<Rightarrow> nat) \<Rightarrow> u64 \<Rightarrow> u64 \<Rightarrow> (bytes \<Rightarrow> 'w \<Rightarrow> bytes list option \<times> 'w) \<Rightarrow> files \<Rightarrow> 'w \<Rightarrow>
   (http_answer \<times> http_answer \<times> files \<times> 'w) outcome" where
  "http_client_main lib rnd t1 t2 net fs w =
     (let url_relay = str ''127.0.0.1''
      in bind_outcome (http_make_event lib rnd 0 t1 fs) (\<lambda>(json, ev, n, fs).
         case http_send lib net url_relay json w of (r1, w) \<Rightarrow>
         bind_outcome (http_make_request lib rnd n t2 fs) (\<lambda>(json, n, fs).
         case http_send lib net url_relay json w of (r2, w) \<Rightarrow> Ret (r1, r2, fs, w))))"

section \<open>Requests\<close>

text \<open>How the network may deliver bytes: in segments of any lengths.\<close>

definition delivers :: "bytes list \<Rightarrow> bytes \<Rightarrow> bool" where
  "delivers sock bs \<longleftrightarrow> concat sock = bs"

lemma http_receive:
  assumes "host_ok host" and "json \<noteq> []" and "length json < 2 ^ 31" and "delivers sock (make_post host json)"
  obtains sock' where "http_parse sock http_msg_t0 = (True, posted host (length json) json, sock')"
proof -
  have "concat sock = make_post host json @ []" using assms(4) by (simp add: delivers_def)
  from http_parse_post [OF assms(1,3) this] obtain pre sock1 where r: "pre @ concat sock1 = json @ []"
    "http_parse sock http_msg_t0 = http_body (length json) pre sock1 (posted host (length json) [])" by blast
  from http_body_exact [OF r(1) [unfolded append_Nil2] assms(2,3)] r(2) that show thesis by metis
qed

lemma events_dump:
  assumes "json_laws lib u" and "list_all (event_utf8 u) events" and "indent_ok ind"
  obtains json where "js_dump lib ind (JArray (map event_to_json events)) = Some json"
    and "js_parse lib json = Some (json_norm (JArray (map event_to_json events)))" and "json \<noteq> []"
    and "get_vector (get_event lib) (json_norm (JArray (map event_to_json events))) = Some events"
proof -
  have "json_utf8 u (JArray (map event_to_json events))" "json_std (JArray (map event_to_json events))"
    using assms(2) event_json_utf8 [OF assms(1)] event_json_std by (auto simp: list_all_iff)
  from json_laws_dump [OF assms(1) this assms(3)] obtain json where
    json: "js_dump lib ind (JArray (map event_to_json events)) = Some json"
    "js_parse lib json = Some (json_norm (JArray (map event_to_json events)))" by blast
  have "get_vector (get_event lib) (json_norm (JArray (map event_to_json events))) = Some events"
    by (simp only: get_vector_norm [of "get_event lib", OF get_event_norm]) (simp add: get_vector_def get_all_map)
  with json json_laws_nonempty [OF assms(1) json(2)] show thesis by (intro that) simp_all
qed

lemma http_reply_events:
  assumes "json_laws lib u" and "host_ok host" and "list_all (event_utf8 u) events"
    and "js_dump lib ind (JArray (map event_to_json events)) = Some json" and "length json < 2 ^ 31"
    and "delivers sock (make_post host json)" and "indent_ok ind"
  shows "http_reply lib sock = HEvents events"
proof -
  from events_dump [OF assms(1,3,7)] assms(4) have j: "js_parse lib json = Some (json_norm (JArray (map event_to_json events)))"
    "json \<noteq> []" "get_vector (get_event lib) (json_norm (JArray (map event_to_json events))) = Some events" by auto
  from http_receive [OF assms(2) j(2) assms(5,6)] obtain sock' where
    "http_parse sock http_msg_t0 = (True, posted host (length json) json, sock')" .
  with j show ?thesis by (simp add: http_reply_def posted_def post_lines_def)
qed

lemma database_request_utf8: "json_laws lib u \<Longrightarrow> list_all (event_utf8 u) (database_request lib filt fs)"
  using database_read_utf8 [of lib u fs] by (auto simp: database_request_eq list_all_iff)

lemma http_turn_request:
  assumes "json_laws lib u" and "host_ok host" and "u sub" and "filter_utf8 u f"
    and "js_dump lib ind (JArray [JString (str ''REQ''), JString sub, filter_to_json f False]) = Some json"
    and "length json < 2 ^ 31" and "delivers sock (make_post host json)" and "indent_ok ind"
  obtains out where "http_relay_turn lib now ip sock (db, fs) = (Some (make_post ip out), db, fs)"
    and "js_dump lib (Some 2) (JArray (map event_to_json (database_request lib (filter_received f (filter_t0 now)) fs))) = Some out"
proof -
  let ?evs = "database_request lib (filter_received f (filter_t0 now)) fs"
  obtain s where "js_dump lib ind (JArray (JString (str ''REQ'') # [JString sub, filter_to_json f False])) = Some s"
    "message_head lib s = Some (str ''REQ'', JArray (JString (str ''REQ'') # map json_norm [JString sub, filter_to_json f False]))"
    by (rule message_dump [OF assms(1), of "''REQ''" "[JString sub, filter_to_json f False]" ind])
      (use assms(3,8) filter_json_utf8 [OF assms(1,4)] filter_json_std in auto)
  with assms(5) have head: "message_head lib json = Some (str ''REQ'',
      JArray [JString (str ''REQ''), JString sub, json_norm (filter_to_json f False)])" by simp
  then have "json \<noteq> []" using json_laws_nonempty [OF assms(1)] by (auto simp: message_head_def split: option.splits)
  from http_receive [OF assms(2) this assms(6,7)] obtain sock' where
    p: "http_parse sock http_msg_t0 = (True, posted host (length json) json, sock')" .
  obtain out where out: "js_dump lib (Some 2) (JArray (map event_to_json ?evs)) = Some out"
    using events_dump [OF assms(1) database_request_utf8 [OF assms(1)] indent_ok_2] by blast
  show thesis
    by (rule that [OF _ out]) (simp add: http_relay_turn_def p posted_def head at_index_def get_string_def
        filter_json_roundtrip out)
qed

text \<open>
  A client that posts a request to the HTTP relay gets back exactly the stored events of the
  requested authors, in the order of the file, however the network cuts both messages into segments;
  the relay's state does not change.
\<close>

lemma http_request_answered:
  assumes "json_laws lib u" and "host_ok host" and "host_ok ip" and "u sub" and "filter_utf8 u f" and "f_authors f \<noteq> []"
    and "js_dump lib ind (JArray [JString (str ''REQ''), JString sub, filter_to_json f False]) = Some json"
    and "length json < 2 ^ 31" and "delivers sock (make_post host json)" and "indent_ok ind"
  shows "\<exists>out. http_relay_turn lib now ip sock (db, fs) = (Some (make_post ip out), db, fs) \<and>
           (length out < 2 ^ 31 \<longrightarrow> (\<forall>sock'. delivers sock' (make_post ip out) \<longrightarrow>
              http_reply lib sock' =
                HEvents (filter (\<lambda>ev. e_pubkey ev \<in> set (f_authors f)) (database_read lib fs))))"
proof -
  from http_turn_request [OF assms(1,2,4,5,7-10)] obtain out where out:
    "http_relay_turn lib now ip sock (db, fs) = (Some (make_post ip out), db, fs)"
    "js_dump lib (Some 2) (JArray (map event_to_json (database_request lib (filter_received f (filter_t0 now)) fs))) = Some out" by blast
  have "database_request lib (filter_received f (filter_t0 now)) fs =
      filter (\<lambda>ev. e_pubkey ev \<in> set (f_authors f)) (database_read lib fs)"
    using assms(6) by (simp add: database_request_eq filter_received_def)
  with http_reply_events [OF assms(1,3) database_request_utf8 [OF assms(1)] out(2) _ _ indent_ok_2] out(1) show ?thesis by auto
qed

section \<open>The client and the relay\<close>

text \<open>
  The connection to a relay: \<open>split1\<close> and \<open>split2\<close> are how the network cuts what the client and the relay write.
\<close>

definition via_relay ::
  "json_lib \<Rightarrow> u64 \<Rightarrow> cstr \<Rightarrow> (bytes \<Rightarrow> bytes list) \<Rightarrow> (bytes \<Rightarrow> bytes list) \<Rightarrow>
   bytes \<Rightarrow> event_t list \<times> files \<Rightarrow> bytes list option \<times> event_t list \<times> files" where
  "via_relay lib now ip split1 split2 bs st =
     (case http_relay_turn lib now ip (split1 bs) st of (out, st) \<Rightarrow> (map_option split2 out, st))"

lemma http_reply_ok:
  assumes "delivers sock (str ''HTTP/1.1 200 OK'' @ crlf @ crlf)"
  shows "http_reply lib sock = HEmpty"
proof -
  let ?ls = "[str ''HTTP/1.1 200 OK'']"
  have ok: "list_all line_ok ?ls" by (simp add: line_ok_def bytes_simps)
  have "concat sock = http_header ?ls @ []" using assms by (simp add: delivers_def)
  from read_until_header [OF ok this] obtain sock' where
    "asio_read_until (crlf @ crlf) sock [] = Some (http_header ?ls @ [], sock')" by auto
  then have "http_parse sock http_msg_t0 =
      (True, http_msg_t0\<lparr>h_header := [str ''HTTP/1.1 200 OK'' @ [13]]\<rparr>, sock')"
    using header_loop_text [OF ok, of "[]" "[]"]
    by (simp add: http_parse_def http_msg_t0_def get_method_def get_url_def substr_def http_body_def bytes_simps
        del: http_header_simps)
  then show ?thesis by (simp add: http_reply_def http_msg_t0_def)
qed

lemma http_turn_event:
  assumes "json_laws lib u" and "host_ok host" and "event_utf8 u ev" and "list_all (event_utf8 u) db"
    and "js_dump lib ind (event_message ev) = Some json"
    and "length json < 2 ^ 31" and "delivers sock (make_post host json)" and "indent_ok ind"
  obtains fs' where "http_relay_turn lib now ip sock (db, fs) = (Some (str ''HTTP/1.1 200 OK'' @ crlf @ crlf), db @ [ev], fs')"
    and "database_read lib fs' = database_read lib fs @ db @ [ev]"
proof -
  obtain s where "js_dump lib ind (JArray (JString (str ''EVENT'') # [event_to_json ev])) = Some s"
    "message_head lib s = Some (str ''EVENT'', JArray (JString (str ''EVENT'') # map json_norm [event_to_json ev]))"
    by (rule message_dump [OF assms(1), of "''EVENT''" "[event_to_json ev]" ind])
      (use event_json_utf8 [OF assms(1,3)] event_json_std assms(8) in auto)
  with assms(5) have head: "message_head lib json = Some (str ''EVENT'',
      JArray [JString (str ''EVENT''), json_norm (event_to_json ev)])" by (simp add: event_message_def)
  then have "json \<noteq> []" using json_laws_nonempty [OF assms(1)] by (auto simp: message_head_def split: option.splits)
  from http_receive [OF assms(2) this assms(6,7)] obtain sock' where
    p: "http_parse sock http_msg_t0 = (True, posted host (length json) json, sock')" .
  from database_append_spec [OF assms(1), of "db @ [ev]" fs] assms(3,4) obtain fs' where
    fs': "database_append lib (db @ [ev]) fs = (True, fs')" "database_read lib fs' = database_read lib fs @ db @ [ev]" by auto
  show thesis
    by (rule that [OF _ fs'(2)])
      (simp add: http_relay_turn_def p posted_def head at_index_def event_json_roundtrip fs'(1))
qed

text \<open>Publishing by HTTP; an event is accepted when its message is shorter than 2 GB.\<close>

definition http_publish ::
  "json_lib \<Rightarrow> u64 \<Rightarrow> cstr \<Rightarrow> (bytes \<Rightarrow> bytes list) \<Rightarrow> event_t \<Rightarrow> event_t list \<times> files \<Rightarrow> (event_t list \<times> files) option" where
  "http_publish lib now ip split1 ev st =
     (case js_dump lib (Some 2) (event_message ev) of
        None \<Rightarrow> None
      | Some msg \<Rightarrow>
          (case http_relay_turn lib now ip (split1 (make_post (str ''127.0.0.1'') msg)) st of
             (None, st) \<Rightarrow> None
           | (Some out, st) \<Rightarrow> if out = str ''HTTP/1.1 200 OK'' @ crlf @ crlf then Some st else None))"

definition http_inv :: "json_lib \<Rightarrow> (bytes \<Rightarrow> bool) \<Rightarrow> (bytes \<Rightarrow> bytes list) \<Rightarrow> event_t list \<times> files \<Rightarrow> bool" where
  "http_inv lib u split1 st \<longleftrightarrow> relay_inv lib u st \<and> (\<forall>bs. delivers (split1 bs) bs)"

definition http_accepts :: "json_lib \<Rightarrow> (bytes \<Rightarrow> bool) \<Rightarrow> event_t \<Rightarrow> bool" where
  "http_accepts lib u ev \<longleftrightarrow>
     event_utf8 u ev \<and> (\<forall>msg. js_dump lib (Some 2) (event_message ev) = Some msg \<longrightarrow> length msg < 2 ^ 31)"

lemma http_publish_ok:
  assumes "http_inv lib u split1 st" and "http_accepts lib u ev"
  shows "\<exists>st'. http_publish lib now ip split1 ev st = Some st' \<and> http_inv lib u split1 st' \<and>
           relay_stored lib st' = insert ev (relay_stored lib st)"
proof -
  obtain db fs where st: "st = (db, fs)" by (cases st)
  from assms have laws: "json_laws lib u" and utf8: "list_all (event_utf8 u) db" "event_utf8 u ev"
    and cut: "\<And>bs. delivers (split1 bs) bs" by (simp_all add: http_inv_def relay_inv_def http_accepts_def st)
  obtain msg where msg: "js_dump lib (Some 2) (event_message ev) = Some msg" using event_message_dump [OF laws utf8(2) indent_ok_2] by blast
  have h: "host_ok (str ''127.0.0.1'')" by (simp add: host_ok_def bytes_simps)
  have "length msg < 2 ^ 31" using assms(2) msg by (simp add: http_accepts_def)
  from http_turn_event [OF laws h utf8(2,1) msg this cut indent_ok_2] obtain fs' where
    "http_relay_turn lib now ip (split1 (make_post (str ''127.0.0.1'') msg)) (db, fs) =
       (Some (str ''HTTP/1.1 200 OK'' @ crlf @ crlf), db @ [ev], fs')"
    "database_read lib fs' = database_read lib fs @ db @ [ev]" by blast
  with laws utf8 cut show ?thesis
    by (auto simp: st http_publish_def msg http_inv_def relay_inv_def relay_stored_def)
qed

interpretation http_store: event_store "http_inv lib u split1" "http_accepts lib u" "relay_stored lib" "http_publish lib now ip split1"
  for lib u split1 now ip
  by unfold_locales (rule http_publish_ok)

lemma http_relay_start_ok:
  assumes "json_laws lib u" and "\<And>bs. delivers (split1 bs) bs"
  shows "http_inv lib u split1 (http_relay_start lib fs) \<and> relay_stored lib (http_relay_start lib fs) = {}"
proof -
  obtain json where "js_dump lib (Some 2) (JArray []) = Some json" "js_parse lib json = Some (json_norm (JArray []))"
    "get_vector (get_event lib) (json_norm (JArray [])) = Some []"
    using events_dump [OF assms(1), of "[]" "Some 2"] by auto
  with assms show ?thesis
    by (simp add: http_relay_start_def database_save_def http_inv_def relay_inv_def relay_stored_def database_read_def)
qed

lemma hex_string_loop_ascii:
  "ascii hex \<Longrightarrow> ascii (fst (hex_string_loop rnd k (hex, n)))"
proof (induction k arbitrary: hex n)
  case (Suc k)
  have "hex_characters ! (rnd n mod 16) \<in> set hex_characters" by (rule nth_mem) (simp add: hex_characters_def)
  then have "hex_characters ! (rnd n mod 16) < 128" by (auto simp: hex_characters_def bytes_simps)
  with Suc show ?case by (simp add: ascii_def)
qed simp

lemma tolower_ascii: "c < 128 \<Longrightarrow> tolower c < 128"
proof (cases "65 \<le> c \<and> c \<le> 90")
  case True
  then have "65 \<le> unat c" "unat c \<le> 90" by (simp_all add: word_le_nat_alt)
  then show ?thesis using True by (simp add: tolower_def word_less_nat_alt unat_word_ariths)
qed (auto simp: tolower_def)

lemma hex_string_ascii: "ascii (fst (hex_string rnd n len low))"
  using hex_string_loop_ascii [of "[]" rnd len n]
  by (auto simp: hex_string_def ascii_def list_all_iff tolower_ascii split: prod.splits)

lemma demo_ascii: "ascii demo_pubkey" "ascii (str ''some great content'')" "ascii (str ''e'')" "ascii (str ''p'')"
  "ascii (str ''subscription_1'')" "host_ok (str ''127.0.0.1'')"
  by (simp_all add: demo_pubkey_def ascii_def host_ok_def bytes_simps)

lemma http_make_event_spec:
  assumes "json_laws lib u" and "http_make_event lib rnd n now fs = Ret (json, ev, n', fs')"
  shows "event_utf8 u ev \<and> js_dump lib (Some 2) (event_message ev) = Some json \<and> e_pubkey ev = demo_pubkey"
proof -
  obtain i n1 where i: "hex_string rnd n 32 True = (i, n1)" by fastforce
  obtain s n2 where s: "hex_string rnd n1 64 False = (s, n2)" by fastforce
  have "ascii i" "ascii s" using hex_string_ascii [of rnd n 32 True] hex_string_ascii [of rnd n1 64 False] i s by simp_all
  with demo_ascii json_laws_ascii [OF assms(1)] assms(2) show ?thesis
    by (auto simp: http_make_event_def i s event_utf8_def event_message_def Let_def split: option.splits)
qed

lemma http_make_request_spec:
  assumes "json_laws lib u" and "http_make_request lib rnd n now fs = Ret (json, n', fs')"
  obtains f where "filter_utf8 u f" and "f_authors f = [demo_pubkey]"
    and "js_dump lib (Some 2) (JArray [JString (str ''REQ''), JString (str ''subscription_1''), filter_to_json f False]) = Some json"
proof -
  obtain i n1 where i: "hex_string rnd n 32 True = (i, n1)" by fastforce
  have "ascii i" using hex_string_ascii [of rnd n 32 True] i by simp
  let ?f = "(filter_t0 now)\<lparr>f_ids := [i], f_authors := [demo_pubkey], f_kinds := [1], f_e := [i], f_p := [demo_pubkey],
                   f_since := 1643873040, f_until := now, f_limit := 100\<rparr>"
  have "filter_utf8 u ?f" using json_laws_ascii [OF assms(1)] \<open>ascii i\<close> demo_ascii by (simp add: filter_utf8_def)
  then show thesis
    by (rule that) (use assms(2) i in \<open>auto simp: http_make_request_def Let_def split: option.splits\<close>)
qed

text \<open>
  The HTTP client and the HTTP relay work together: whatever the relay has stored before and
  however the network cuts the messages, the client's event is acknowledged with an empty response, and
  its request is answered with a list of events that contains the event it has just sent.
\<close>

lemma http_client_answered:
  assumes "json_laws lib u" and "list_all (event_utf8 u) db" and "host_ok ip"
    and "\<And>bs. delivers (split1 bs) bs" and "\<And>bs. delivers (split2 bs) bs"
    and "http_make_event lib rnd 0 t1 cfs = Ret (json1, ev, n1, cfs1)" and "length json1 < 2 ^ 31"
    and "http_make_request lib rnd n1 t2 cfs1 = Ret (json2, n2, cfs2)" and "length json2 < 2 ^ 31"
    and "evs = filter (\<lambda>ev. e_pubkey ev = demo_pubkey) (database_read lib fs @ db @ [ev])"
    and "js_dump lib (Some 2) (JArray (map event_to_json evs)) = Some out" and "length out < 2 ^ 31"
  shows "\<exists>fs'. http_client_main lib rnd t1 t2 (via_relay lib now ip split1 split2) cfs (db, fs) =
           Ret (HEmpty, HEvents evs, cfs2, db @ [ev], fs') \<and> ev \<in> set evs"
proof -
  note h = demo_ascii(6)
  have ev: "event_utf8 u ev" "js_dump lib (Some 2) (event_message ev) = Some json1" "e_pubkey ev = demo_pubkey"
    using http_make_event_spec [OF assms(1,6)] by auto
  obtain fs1 where t1: "http_relay_turn lib now ip (split1 (make_post (str ''127.0.0.1'') json1)) (db, fs) =
      (Some (str ''HTTP/1.1 200 OK'' @ crlf @ crlf), db @ [ev], fs1)" "database_read lib fs1 = database_read lib fs @ db @ [ev]"
    using http_turn_event [OF assms(1) h ev(1) assms(2) ev(2) assms(7,4) indent_ok_2] by blast
  obtain f where f: "filter_utf8 u f" "f_authors f = [demo_pubkey]"
    "js_dump lib (Some 2) (JArray [JString (str ''REQ''), JString (str ''subscription_1''), filter_to_json f False]) = Some json2"
    by (rule http_make_request_spec [OF assms(1,8)])
  have "u (str ''subscription_1'')" by (rule json_laws_ascii [OF assms(1) demo_ascii(5)])
  from http_turn_request [OF assms(1) h this f(1,3) assms(9,4) indent_ok_2] obtain out' where t2:
    "http_relay_turn lib now ip (split1 (make_post (str ''127.0.0.1'') json2)) (db @ [ev], fs1) = (Some (make_post ip out'), db @ [ev], fs1)"
    "js_dump lib (Some 2) (JArray (map event_to_json (database_request lib (filter_received f (filter_t0 now)) fs1))) = Some out'" by blast
  have "database_request lib (filter_received f (filter_t0 now)) fs1 = evs"
    by (simp add: database_request_eq filter_received_def f(2) t1(2) assms(10))
  with t2(2) assms(11) have "out' = out" "list_all (event_utf8 u) evs" using database_request_utf8 [OF assms(1)] by auto
  with http_reply_events [OF assms(1,3) _ assms(11,12,5) indent_ok_2] have "http_reply lib (split2 (make_post ip out')) = HEvents evs" by simp
  with t1(1) t2(1) http_reply_ok [OF assms(5)] ev(3) show ?thesis
    by (auto simp: http_client_main_def http_send_def via_relay_def assms(6,8,10))
qed

end
