(* ===== verification/Client.thy ===== *)
theory Client
  imports Nostri Relay Uuid
begin

text \<open>
  The clients: \<^verbatim>\<open>make_event\<close>, \<^verbatim>\<open>get_follows\<close>, \<^verbatim>\<open>get_feed\<close> and \<^verbatim>\<open>get_metadata\<close> of \<^verbatim>\<open>src/nostr.cc\<close>, and the program
  \<^verbatim>\<open>src/wss_client.cc\<close> (\<^verbatim>\<open>src/wss_req.cc\<close> is the same file). The web socket is a parameter \<open>relay_to\<close> that maps
  the address, the message and the state \<open>w\<close> of the world behind it to the messages received before the
  connection closes and the new state. \<open>Abort\<close> is an
  exception that nobody catches. What is printed on the terminal or logged is left out.
\<close>

section \<open>make_event\<close>

text \<open>\<^verbatim>\<open>s.c_str()\<close> as a C string.\<close>

definition c_string :: "bytes \<Rightarrow> cstr" where
  "c_string s = takeWhile (\<lambda>c. c \<noteq> 0) s"

text \<open>Without a difficulty \<open>generate_key\<close> returns.\<close>

definition client_key :: "secp256k1 \<Rightarrow> sys \<Rightarrow> nat \<Rightarrow> bytes option \<Rightarrow> key option \<times> nat" where
  "client_key lib os n seckey =
     (case seckey of
        Some sec \<Rightarrow> (case decode_key lib (c_string sec) stack_key of (ok, key) \<Rightarrow> (if ok then Some key else None, n))
      | None \<Rightarrow>
          (case generate_key lib os n stack_key None of
             None \<Rightarrow> (None, n)
           | Some (ok, key, n) \<Rightarrow> (if ok then Some key else None, n)))"

text \<open>The text, the event with its three new fields, and the number of random draws; the text is empty after a failure.\<close>

definition make_event ::
  "json_lib \<Rightarrow> secp256k1 \<Rightarrow> sys \<Rightarrow> nat \<Rightarrow> event_t \<Rightarrow> bytes option \<Rightarrow> (cstr \<times> event_t \<times> nat) outcome" where
  "make_event jl lib os n ev seckey =
     (case init_secp_context lib os n of (ok, n) \<Rightarrow>
        if \<not> ok then Ret ([], ev, n)
        else (case client_key lib os n seckey of
          (None, n) \<Rightarrow> Ret ([], ev, n)
        | (Some key, n) \<Rightarrow>
            let nev = zero_event\<lparr>ev_created_at := e_created_at ev, ev_content := Some (c_string (e_content ev)),
                        ev_kind := e_kind ev, ev_pubkey := k_pubkey key\<rparr>
            in bind_outcome (nostri_generate_event_id nev) (\<lambda>(ok, nev).
                 if \<not> ok then Ret ([], ev, n)
                 else (case sign_event lib os n key nev of (ok, nev, n) \<Rightarrow>
                   if \<not> ok then Ret ([], ev, n)
                   else
                     bind_outcome (hex_encode (ev_id nev) 65) (\<lambda>ri.
                     bind_outcome (hex_encode (ev_pubkey nev) 65) (\<lambda>rp.
                     bind_outcome (hex_encode (ev_sig nev) 129) (\<lambda>rs.
                       case (ri, rp, rs) of
                         (Some i, Some pubkey, Some sig) \<Rightarrow>
                           let ev = ev\<lparr>e_pubkey := pubkey, e_id := i, e_sig := sig\<rparr>
                           in (case js_dump jl None (JArray [JString (str ''EVENT''), event_to_json ev]) of
                                 None \<Rightarrow> Abort
                               | Some json \<Rightarrow> Ret (json, ev, n))
                       | _ \<Rightarrow> Abort)))))))"

section \<open>Queries\<close>

fun follows_loop :: "json_lib \<Rightarrow> u64 \<Rightarrow> cstr list \<Rightarrow> event_t list \<times> files \<Rightarrow> event_t list \<times> files" where
  "follows_loop lib now [] st = st"
| "follows_loop lib now (message # responses) (subs_events, fs) =
     follows_loop lib now responses
       (case message_head lib message of
          None \<Rightarrow> (subs_events, fs)
        | Some (type, js) \<Rightarrow>
            if type = str ''EVENT'' then
              (case at_index js 2 of
                 None \<Rightarrow> (subs_events, fs)
               | Some j \<Rightarrow>
                   (case event_from_json lib j (event_t0 now) of (ok, ev) \<Rightarrow>
                      if ok then (subs_events @ [ev], json_to_file lib ''follows_event.json'' message fs)
                      else (subs_events, fs)))
            else (subs_events, fs))"

fun tags_loop :: "bytes list list \<Rightarrow> bytes list \<Rightarrow> bytes list" where
  "tags_loop [] pubkeys = pubkeys"
| "tags_loop (tag # tags) pubkeys =
     tags_loop tags (if length tag > 1 \<and> tag ! 0 = str ''p'' then pubkeys @ [tag ! 1] else pubkeys)"

definition get_follows ::
  "json_lib \<Rightarrow> uuid_gen \<Rightarrow> nat \<Rightarrow> u64 \<Rightarrow> (cstr \<Rightarrow> cstr \<Rightarrow> 'w \<Rightarrow> cstr list \<times> 'w) \<Rightarrow> cstr \<Rightarrow> bytes \<Rightarrow> bytes list \<times> files \<Rightarrow> 'w \<Rightarrow>
   (bytes list \<times> files) \<times> nat \<times> 'w" where
  "get_follows lib g n now relay_to uri pubkey st w =
     (case st of (pubkeys, fs) \<Rightarrow>
        let (subscription_id, n) = generate_uuid_v4 g n;
            filt = (filter_t0 now)\<lparr>f_authors := [pubkey], f_kinds := [3], f_limit := 1\<rparr>;
            json = make_request lib subscription_id filt;
            fs = json_to_file lib ''follows_request.json'' json fs;
            (responses, w) = relay_to uri json w;
            (subs_events, fs) = follows_loop lib now responses ([], fs)
        in if subs_events = [] then ((pubkeys, fs), n, w)
           else ((tags_loop (e_tags (subs_events ! 0)) pubkeys, fs), n, w))"

fun feed_loop :: "json_lib \<Rightarrow> u64 \<Rightarrow> cstr list \<Rightarrow> cstr list \<times> files \<Rightarrow> cstr list \<times> files" where
  "feed_loop lib now [] st = st"
| "feed_loop lib now (message # messages) (response, fs) =
     feed_loop lib now messages
       (case message_head lib message of
          None \<Rightarrow> (response, fs)
        | Some (type, js) \<Rightarrow>
            if type = str ''EVENT'' then
              (case at_index js 2 of
                 None \<Rightarrow> (response, fs)
               | Some j \<Rightarrow>
                   if fst (event_from_json lib j (event_t0 now))
                   then (response @ [message], json_to_file lib ''follows_event.json'' message fs)
                   else (response, fs))
            else (response, fs))"

definition get_feed ::
  "json_lib \<Rightarrow> uuid_gen \<Rightarrow> nat \<Rightarrow> u64 \<Rightarrow> (cstr \<Rightarrow> cstr \<Rightarrow> 'w \<Rightarrow> cstr list \<times> 'w) \<Rightarrow> cstr \<Rightarrow> bytes \<Rightarrow> cstr list \<times> files \<Rightarrow> 'w \<Rightarrow>
   (cstr list \<times> files) \<times> nat \<times> 'w" where
  "get_feed lib g n now relay_to uri pubkey st w =
     (case st of (response, fs) \<Rightarrow>
        let (subscription_id, n) = generate_uuid_v4 g n;
            filt = (filter_t0 now)\<lparr>f_authors := [pubkey], f_kinds := [1], f_limit := 2\<rparr>;
            json = make_request lib subscription_id filt;
            fs = json_to_file lib ''req_feed.json'' json fs;
            (messages, w) = relay_to uri json w
        in (feed_loop lib now messages (response, fs), n, w))"

fun metadata_loop :: "cstr list \<Rightarrow> cstr list \<Rightarrow> cstr list" where
  "metadata_loop [] response = response"
| "metadata_loop (message # messages) response = metadata_loop messages (response @ [message])"

definition get_metadata ::
  "json_lib \<Rightarrow> uuid_gen \<Rightarrow> nat \<Rightarrow> u64 \<Rightarrow> (cstr \<Rightarrow> cstr \<Rightarrow> 'w \<Rightarrow> cstr list \<times> 'w) \<Rightarrow> cstr \<Rightarrow> bytes \<Rightarrow> cstr list \<times> files \<Rightarrow> 'w \<Rightarrow>
   (cstr list \<times> files) \<times> nat \<times> 'w" where
  "get_metadata lib g n now relay_to uri pubkey st w =
     (case st of (response, fs) \<Rightarrow>
        let (subscription_id, n) = generate_uuid_v4 g n;
            filt = (filter_t0 now)\<lparr>f_authors := [pubkey], f_kinds := [0]\<rparr>;
            json = make_request lib subscription_id filt;
            fs = json_to_file lib ''req_metadata.json'' json fs;
            (messages, w) = relay_to uri json w
        in ((metadata_loop messages response, fs), n, w))"

section \<open>The program\<close>

text \<open>\<^verbatim>\<open>std::stoi\<close>: \<open>None\<close> is an exception, for a text without a number or one out of range.\<close>

definition stoi :: "cstr \<Rightarrow> u32 option" where
  "stoi s =
     (let r = dropWhile isspace s;
          d = (if r \<noteq> [] \<and> (hd r = chr CHR ''-'' \<or> hd r = chr CHR ''+'') then tl r else r);
          v = fst (strtol10 s 0)
      in if d = [] \<or> \<not> isdigit (hd d) then None
         else if - (2 ^ 31) \<le> v \<and> v < 2 ^ 31 then Some (word_of_int v)
         else None)"

record client_opts =
  o_uri :: cstr
  o_content :: cstr
  o_authors :: cstr
  o_seckey :: "cstr option"
  o_kind :: u32
  o_is_req :: bool

definition client_opts0 :: client_opts where
  "client_opts0 = \<lparr>o_uri = [], o_content = [], o_authors = [], o_seckey = None, o_kind = 1, o_is_req = False\<rparr>"

text \<open>
  \<open>Ret None\<close> is the usage text, after which the program ends. An option at the end of the line reads the
  null pointer behind the arguments.
\<close>

fun client_args :: "cstr list \<Rightarrow> client_opts \<Rightarrow> client_opts option outcome" where
  "client_args [] opts = Ret (Some opts)"
| "client_args (arg # args) opts =
     (if arg = str ''--help'' then Ret None
      else if arg = str ''--req'' then client_args args (opts\<lparr>o_is_req := True\<rparr>)
      else if arg \<in> {str ''--uri'', str ''--authors'', str ''--content'', str ''--sec'', str ''--kind''} then
        (case args of
           [] \<Rightarrow> Abort
         | v # rest \<Rightarrow>
             if arg = str ''--uri'' then client_args rest (opts\<lparr>o_uri := v\<rparr>)
             else if arg = str ''--authors'' then client_args rest (opts\<lparr>o_authors := v\<rparr>)
             else if arg = str ''--content'' then client_args rest (opts\<lparr>o_content := v\<rparr>)
             else if arg = str ''--sec'' then client_args rest (opts\<lparr>o_seckey := Some v\<rparr>)
             else (case stoi v of None \<Rightarrow> Abort | Some k \<Rightarrow> client_args rest (opts\<lparr>o_kind := k\<rparr>)))
      else client_args args opts)"

text \<open>The message that is sent, and the files.\<close>

definition client_message ::
  "json_lib \<Rightarrow> secp256k1 \<Rightarrow> sys \<Rightarrow> uuid_gen \<Rightarrow> client_opts \<Rightarrow> files \<Rightarrow> (cstr \<times> files) outcome" where
  "client_message jl lib os g opts fs =
     (if o_is_req opts then
        let subscription_id = fst (generate_uuid_v4 g 0);
            filt = filter_t0 (time_now os);
            filt = (if o_authors opts \<noteq> [] then filt\<lparr>f_authors := [o_authors opts], f_kinds := [1]\<rparr> else filt);
            json = make_request jl subscription_id filt
        in Ret (json, json_to_file jl ''nostro_request.json'' json fs)
      else
        let ev = (event_t0 (time_now os))\<lparr>e_content := o_content opts, e_kind := o_kind opts\<rparr>
        in bind_outcome (make_event jl lib os 0 ev (o_seckey opts)) (\<lambda>(json, ev, n).
             Ret (json, json_to_file jl ''nostro_event.json'' json fs)))"

fun store_loop :: "json_lib \<Rightarrow> cstr list \<Rightarrow> cstr list \<times> files \<Rightarrow> cstr list \<times> files" where
  "store_loop jl [] st = st"
| "store_loop jl (m # ms) (store, fs) = store_loop jl ms (store @ [m], json_to_file jl ''response.txt'' m fs)"

text \<open>The received messages, the files and the world; \<open>None\<close> after the usage text.\<close>

definition client_main ::
  "json_lib \<Rightarrow> secp256k1 \<Rightarrow> sys \<Rightarrow> uuid_gen \<Rightarrow> (cstr \<Rightarrow> cstr \<Rightarrow> 'w \<Rightarrow> cstr list \<times> 'w) \<Rightarrow> cstr list \<Rightarrow> files \<Rightarrow> 'w \<Rightarrow>
   (cstr list \<times> files \<times> 'w) option outcome" where
  "client_main jl lib os g relay_to argv fs w =
     bind_outcome (client_args (tl argv) client_opts0) (\<lambda>r.
       case r of
         None \<Rightarrow> Ret None
       | Some opts \<Rightarrow>
           let uri = (if o_uri opts = [] then str ''localhost:8080'' else o_uri opts)
           in bind_outcome (client_message jl lib os g opts fs) (\<lambda>(json, fs).
                case relay_to uri json w of (messages, w) \<Rightarrow>
                  (case store_loop jl messages ([], fs) of (store, fs) \<Rightarrow> Ret (Some (store, fs, w)))))"

section \<open>Signed events\<close>

text \<open>What \<open>make_event\<close> signs and what it publishes: \<open>nev\<close> is the event in the form of the library.\<close>

definition event_signed :: "event_t \<Rightarrow> nostr_event \<Rightarrow> event_t \<Rightarrow> bool" where
  "event_signed ev nev ev' \<longleftrightarrow>
     ev_created_at nev = e_created_at ev \<and> ev_kind nev = e_kind ev \<and> ev_content nev = Some (c_string (e_content ev)) \<and>
     ev_tags nev = [] \<and> ev_explicit_tags nev = None \<and>
     ev' = ev\<lparr>e_pubkey := hex_text (ev_pubkey nev), e_id := hex_text (ev_id nev), e_sig := hex_text (ev_sig nev)\<rparr>"

text \<open>
  When an event can be made: the context is set up, there is a key, the text to be hashed fits into its
  buffer, and the hash is signed.
\<close>

definition client_nev :: "event_t \<Rightarrow> key \<Rightarrow> nostr_event" where
  "client_nev ev key = zero_event\<lparr>ev_created_at := e_created_at ev, ev_content := Some (c_string (e_content ev)),
     ev_kind := e_kind ev, ev_pubkey := k_pubkey key\<rparr>"

definition can_sign :: "secp256k1 \<Rightarrow> sys \<Rightarrow> nat \<Rightarrow> event_t \<Rightarrow> bytes option \<Rightarrow> bool" where
  "can_sign lib os n ev seckey \<longleftrightarrow>
     (case init_secp_context lib os n of (ok, n) \<Rightarrow>
        ok \<and> (case client_key lib os n seckey of
                (None, n) \<Rightarrow> False
              | (Some key, n) \<Rightarrow>
                  length (commitment_text (client_nev ev key)) < 102400 \<and>
                  fst (make_sig lib os n key (fips_sha256 (commitment_text (client_nev ev key)))) \<noteq> None))"

lemma hex_digit_ascii: "v < 16 \<Longrightarrow> hex_digit v < 128"
  by (rule all_below [where n = 16 and P = "\<lambda>v. hex_digit v < 128"]) code_simp

lemma hex_text_ascii: "ascii (hex_text bs)"
proof (induction bs)
  case (Cons b bs)
  have "unat b div 16 < 16" using u8_less [of b] by linarith
  with Cons show ?case by (simp add: ascii_def hex2_def hex_digit_ascii)
qed (simp add: ascii_def)

lemma client_key_ok: "client_key lib os n seckey = (Some key, n') \<Longrightarrow> key_ok lib key"
  by (auto simp: client_key_def stack_key_def dest!: decode_key_ok generate_key_ok
      split: option.splits prod.splits if_splits)

lemma client_id:
  assumes "length (k_pubkey key) = 32"
  shows "nostri_generate_event_id (client_nev ev key) =
     Ret (if length (commitment_text (client_nev ev key)) < 102400
          then (True, (client_nev ev key)\<lparr>ev_id := fips_sha256 (commitment_text (client_nev ev key))\<rparr>)
          else (False, client_nev ev key))"
  using generate_event_id_spec [of "client_nev ev key" "c_string (e_content ev)"] assms
  by (simp add: nostri_id_eq client_nev_def)

lemma signed_client_nev:
  assumes "secp_laws lib verify" and "key_ok lib key"
    and "sign_event lib os n key ((client_nev ev key)\<lparr>ev_id := fips_sha256 (commitment_text (client_nev ev key))\<rparr>) = (True, nev, n')"
  shows "event_valid verify nev"
    and "event_signed ev nev (ev\<lparr>e_pubkey := hex_text (ev_pubkey nev), e_id := hex_text (ev_id nev), e_sig := hex_text (ev_sig nev)\<rparr>)"
proof -
  note v = sign_event_verifies [OF assms]
  define sig where "sig = ev_sig nev"
  have nev: "nev = (client_nev ev key)\<lparr>ev_id := fips_sha256 (commitment_text (client_nev ev key)), ev_sig := sig\<rparr>" "length sig = 64"
    using v by (simp_all add: sig_def)
  have "commitment_text nev = commitment_text (client_nev ev key)" by (simp add: nev commitment_text_def commitment_head_def)
  then show "event_valid verify nev" using v nev by (simp add: event_valid_def event_wf_def client_nev_def zero_event_def)
  show "event_signed ev nev (ev\<lparr>e_pubkey := hex_text (ev_pubkey nev), e_id := hex_text (ev_id nev), e_sig := hex_text (ev_sig nev)\<rparr>)"
    by (simp add: event_signed_def nev client_nev_def zero_event_def)
qed

lemma make_event_fails:
  assumes "secp_laws lib verify" and "\<not> can_sign lib os n ev seckey"
  shows "\<exists>n'. make_event jl lib os n ev seckey = Ret ([], ev, n')"
proof -
  obtain ok0 n0 where i: "init_secp_context lib os n = (ok0, n0)" by fastforce
  obtain kr n1 where k: "client_key lib os n0 seckey = (kr, n1)" by fastforce
  show ?thesis
  proof (cases "ok0 \<and> kr \<noteq> None")
    case True
    then obtain key where kr: "kr = Some key" by auto
    have "length (k_pubkey key) = 32" using assms(1) client_key_ok [OF k [unfolded kr]] by (auto simp: key_ok_def secp_laws_def)
    from client_id [OF this] assms(2) True show ?thesis
      by (cases "make_sig lib os n1 key (fips_sha256 (commitment_text (client_nev ev key)))")
        (auto simp: make_event_def i k kr client_nev_def [symmetric] can_sign_def sign_event_def)
  qed (auto simp: make_event_def i k)
qed

lemma make_event_signs:
  assumes "secp_laws lib verify" and "json_laws jl u" and "event_utf8 u ev" and "can_sign lib os n ev seckey"
  obtains json ev' n' nev where "make_event jl lib os n ev seckey = Ret (json, ev', n')" and "event_valid verify nev"
    and "event_signed ev nev ev'" and "event_utf8 u ev'" and "js_dump jl None (event_message ev') = Some json"
proof -
  obtain n0 key n1 where s: "init_secp_context lib os n = (True, n0)" "client_key lib os n0 seckey = (Some key, n1)"
    "length (commitment_text (client_nev ev key)) < 102400"
    "fst (make_sig lib os n1 key (fips_sha256 (commitment_text (client_nev ev key)))) \<noteq> None"
    using assms(4) by (auto simp: can_sign_def split: prod.splits option.splits)
  note key = client_key_ok [OF s(2)]
  let ?nev1 = "(client_nev ev key)\<lparr>ev_id := fips_sha256 (commitment_text (client_nev ev key))\<rparr>"
  obtain sig n2 where "make_sig lib os n1 key (fips_sha256 (commitment_text (client_nev ev key))) = (Some sig, n2)"
    using s(4) by (metis option.exhaust prod.collapse)
  then obtain nev where sg: "sign_event lib os n1 key ?nev1 = (True, nev, n2)" by (simp add: sign_event_def)
  note nev = signed_client_nev [OF assms(1) key sg]
  let ?ev' = "ev\<lparr>e_pubkey := hex_text (ev_pubkey nev), e_id := hex_text (ev_id nev), e_sig := hex_text (ev_sig nev)\<rparr>"
  have u': "event_utf8 u ?ev'"
    using assms(3) json_laws_ascii [OF assms(2) hex_text_ascii] by (simp add: event_utf8_def)
  from event_message_dump [OF assms(2) this indent_ok_simps(1)] obtain json where
    json: "js_dump jl None (event_message ?ev') = Some json" by blast
  have "length (k_pubkey key) = 32" "length (ev_id nev) = 32" "length (ev_pubkey nev) = 32" "length (ev_sig nev) = 64"
    using nev(1) key assms(1) by (auto simp: event_valid_def event_wf_def key_ok_def secp_laws_def)
  with client_id [of key ev] s(1-3) sg json have "make_event jl lib os n ev seckey = Ret (json, ?ev', n2)"
    by (simp add: make_event_def client_nev_def [symmetric] hex_encode_spec hex_str_size_def event_message_def)
  with nev u' json that show thesis by blast
qed

text \<open>
  \<open>make_event\<close> never ends with an exception on valid UTF-8. It returns the empty text, with the event
  unchanged, exactly when the event cannot be signed, and otherwise a message that a relay parses back to
  the event it has completed: the identifier, the public key and the signature are the hexadecimal texts of
  a valid event of the same time and kind, whose content ends at the first NUL and which has no tags. The
  tags of the event are published but not covered by the identifier and the signature.
\<close>

lemma make_event_valid:
  assumes "secp_laws lib verify" and "json_laws jl u" and "event_utf8 u ev"
  shows "\<exists>json ev' n'. make_event jl lib os n ev seckey = Ret (json, ev', n') \<and>
           (if can_sign lib os n ev seckey
            then parse_client_event jl json ev0 = (True, ev') \<and>
                 (\<exists>nev. event_valid verify nev \<and> event_signed ev nev ev')
            else json = [] \<and> ev' = ev)"
proof (cases "can_sign lib os n ev seckey")
  case True
  from make_event_signs [OF assms this] obtain json ev' n' nev where
    m: "make_event jl lib os n ev seckey = Ret (json, ev', n')" "event_valid verify nev" "event_signed ev nev ev'"
    and e: "event_utf8 u ev'" "js_dump jl None (event_message ev') = Some json" by blast
  from event_message_dump [OF assms(2) e(1) indent_ok_simps(1)] e(2) have "parse_client_event jl json ev0 = (True, ev')"
    by (metis option.inject)
  with m True show ?thesis by auto
qed (use make_event_fails [OF assms(1)] in auto)

section \<open>The client and the relay\<close>

text \<open>A web socket to the relay, which answers one message.\<close>

definition wss_relay_to :: "json_lib \<Rightarrow> u64 \<Rightarrow> cstr \<Rightarrow> cstr \<Rightarrow> event_t list \<times> files \<Rightarrow> cstr list \<times> event_t list \<times> files" where
  "wss_relay_to jl now uri msg st =
     (case make_response jl now msg st of Abort \<Rightarrow> ([], st) | Ret (out, st) \<Rightarrow> ([out], st))"

lemma wss_relay_answers:
  assumes "json_laws jl u" and "relay_run jl fs0 tr (db, fs)"
    and "relay_spec (relay_query jl now msg) (db, database_read jl fs) = (a, db', disk')"
  obtains out fs' where "wss_relay_to jl now uri msg (db, fs) = ([out], db', fs')"
    and "database_read jl fs' = disk'" and "js_parse jl out = Some (json_norm (answer_json a))"
proof -
  have "list_all (event_utf8 u) db" by (rule run_inv_utf8 [OF run_inv_holds [OF assms(1,2)]])
  from make_response_refines [OF assms(1) this assms(3)] obtain out fs' where
    "make_response jl now msg (db, fs) = Ret (out, db', fs')" "database_read jl fs' = disk'"
    "js_parse jl out = Some (json_norm (answer_json a))" by blast
  then show thesis by (intro that [of out fs']) (simp_all add: wss_relay_to_def)
qed

lemma empty_query: "json_laws jl u \<Longrightarrow> relay_query jl now [] = Other"
  using json_laws_nonempty [of jl u "[]"]
  by (cases "js_parse jl []") (auto simp: relay_query_def get_message_type_def message_head_def)

lemma request_query:
  assumes "json_laws jl u" and "u sub" and "filter_utf8 u f" and "f_authors f \<noteq> []"
  shows "relay_query jl now (make_request jl sub f) = Query sub (f_authors f)"
  using make_request_parses [OF assms(1-3)] assms(4) by (simp add: relay_query_def filter_received_def)

text \<open>
  The program that publishes and the relay together: when the command line asks for an event, the
  client ends with one answer. If the event can be signed, the relay has stored a valid event with the
  content and the kind of the command line, in memory and in its file, and has answered with its
  identifier; otherwise it has reported an error and stored nothing.
\<close>

lemma client_publishes:
  assumes "secp_laws lib verify" and "json_laws jl u" and "relay_run jl fs0 tr (db, fs)"
    and "client_args (tl argv) client_opts0 = Ret (Some opts)" and "\<not> o_is_req opts" and "u (o_content opts)"
    and "ev = (event_t0 (time_now os))\<lparr>e_content := o_content opts, e_kind := o_kind opts\<rparr>"
  shows "\<exists>out cfs' db' fs'. client_main jl lib os g (wss_relay_to jl now) argv cfs (db, fs) = Ret (Some ([out], cfs', db', fs')) \<and>
           (if can_sign lib os 0 ev (o_seckey opts)
            then \<exists>nev ev'. event_valid verify nev \<and> event_signed ev nev ev' \<and>
                   js_parse jl out = Some (answer_json (Stored (e_id ev'))) \<and> db' = db @ [ev'] \<and> ev' \<in> set (database_read jl fs')
            else js_parse jl out = Some (answer_json Failed) \<and> db' = db \<and> database_read jl fs' = database_read jl fs)"
proof -
  have u: "event_utf8 u ev" using event_t0_utf8 [OF assms(2), of "time_now os"] assms(6,7) by (simp add: event_utf8_def)
  have main: "client_main jl lib os g (wss_relay_to jl now) argv cfs (db, fs) =
      bind_outcome (make_event jl lib os 0 ev (o_seckey opts)) (\<lambda>(json, ev, n).
        case wss_relay_to jl now (if o_uri opts = [] then str ''localhost:8080'' else o_uri opts) json (db, fs) of (messages, w) \<Rightarrow>
          (case store_loop jl messages ([], json_to_file jl ''nostro_event.json'' json cfs) of (store, cfs) \<Rightarrow> Ret (Some (store, cfs, w))))"
    using assms(4,5,7)
    by (cases "make_event jl lib os 0 ev (o_seckey opts)") (auto simp: client_main_def client_message_def Let_def)
  show ?thesis
  proof (cases "can_sign lib os 0 ev (o_seckey opts)")
    case True
    from make_event_signs [OF assms(1,2) u True] obtain json ev' n' nev where
      m: "make_event jl lib os 0 ev (o_seckey opts) = Ret (json, ev', n')" "event_valid verify nev" "event_signed ev nev ev'"
      and e: "event_utf8 u ev'" "js_dump jl None (event_message ev') = Some json" by blast
    have "relay_spec (relay_query jl now json) (db, database_read jl fs) = (Stored (e_id ev'), db @ [ev'], database_read jl fs @ db @ [ev'])"
      by (simp add: event_query [OF assms(2) e(1) indent_ok_simps(1) e(2)])
    from wss_relay_answers [OF assms(2,3) this] obtain out fs' where
      "wss_relay_to jl now (if o_uri opts = [] then str ''localhost:8080'' else o_uri opts) json (db, fs) = ([out], db @ [ev'], fs')"
      "database_read jl fs' = database_read jl fs @ db @ [ev']" "js_parse jl out = Some (json_norm (answer_json (Stored (e_id ev'))))"
      by blast
    then show ?thesis using m True by (auto simp: main)
  next
    case False
    from make_event_fails [OF assms(1) False] obtain n' where m: "make_event jl lib os 0 ev (o_seckey opts) = Ret ([], ev, n')" by blast
    have "relay_spec (relay_query jl now []) (db, database_read jl fs) = (Failed, db, database_read jl fs)"
      by (simp add: empty_query [OF assms(2)])
    from wss_relay_answers [OF assms(2,3) this] obtain out fs' where
      "wss_relay_to jl now (if o_uri opts = [] then str ''localhost:8080'' else o_uri opts) [] (db, fs) = ([out], db, fs')"
      "database_read jl fs' = database_read jl fs" "js_parse jl out = Some (json_norm (answer_json Failed))" by blast
    then show ?thesis using m False by (simp add: main)
  qed
qed

lemma uuid_ascii:
  assumes "uuid_gen_ok g"
  shows "ascii (fst (generate_uuid_v4 g n))"
proof -
  have h: "hex_upper c \<Longrightarrow> c < 128" for c by (auto simp: hex_upper_def bytes_simps)
  have "8 \<le> dis2 g (n + 15)" "dis2 g (n + 15) \<le> 11" using assms by (auto simp: uuid_gen_ok_def)
  from toupper_variant(2) [OF this] have "toupper (hex_digit (dis2 g (n + 15))) < 128" by (rule h)
  moreover have "list_all (\<lambda>c. c < 128) (draws g k m)" for k m
    using draws_ok [OF assms, of k m] h by (auto simp: list_all_iff)
  ultimately show ?thesis by (simp add: generate_uuid_v4_eq [OF assms] ascii_def) (simp add: bytes_simps)
qed

text \<open>One query of a client for an author, and the relay's answer.\<close>

lemma author_query:
  assumes "json_laws jl u" and "uuid_gen_ok g" and "u pubkey" and "relay_run jl fs0 tr (db, fs)"
    and "generate_uuid_v4 g n = (sub, n')" and "f = (filter_t0 now)\<lparr>f_authors := [pubkey], f_kinds := ks, f_limit := l\<rparr>"
  obtains out fs' where "wss_relay_to jl t uri (make_request jl sub f) (db, fs) = ([out], db, fs')"
    and "database_read jl fs' = database_read jl fs"
    and "js_parse jl out = Some (json_norm (answer_json
           (case filter (\<lambda>ev. e_pubkey ev = pubkey) (database_read jl fs) of [] \<Rightarrow> Nothing sub | ev # _ \<Rightarrow> Found sub ev)))"
proof -
  have "u sub" using json_laws_ascii [OF assms(1) uuid_ascii [OF assms(2), of n]] assms(5) by simp
  moreover have "filter_utf8 u f" "f_authors f = [pubkey]" using assms(3) by (simp_all add: assms(6) filter_utf8_def filter_t0_def)
  ultimately have "relay_query jl t (make_request jl sub f) = Query sub [pubkey]"
    using request_query [OF assms(1)] by simp
  then have "relay_spec (relay_query jl t (make_request jl sub f)) (db, database_read jl fs) =
      (case filter (\<lambda>ev. e_pubkey ev = pubkey) (database_read jl fs) of [] \<Rightarrow> Nothing sub | ev # _ \<Rightarrow> Found sub ev,
       db, database_read jl fs)" by simp
  from wss_relay_answers [OF assms(1,4) this] show thesis using that by blast
qed

definition followed :: "event_t \<Rightarrow> bytes list" where
  "followed ev = map (\<lambda>t. t ! 1) (filter (\<lambda>t. length t > 1 \<and> t ! 0 = str ''p'') (e_tags ev))"

lemma tags_loop_eq: "tags_loop tags pubkeys = pubkeys @ map (\<lambda>t. t ! 1) (filter (\<lambda>t. length t > 1 \<and> t ! 0 = str ''p'') tags)"
  by (induction tags arbitrary: pubkeys) simp_all

lemma answer_event:
  assumes "js_parse jl out = Some (json_norm (answer_json a))"
  shows "message_head jl out =
     (case a of Found sub ev \<Rightarrow> Some (str ''EVENT'', JArray [JString (str ''EVENT''), JString sub, json_norm (event_to_json ev)])
      | Failed \<Rightarrow> Some (str ''NOTICE'', json_norm (answer_json a)) | _ \<Rightarrow> Some (str ''EOSE'', json_norm (answer_json a)))"
  using assms by (cases a) (simp_all add: message_head_def at_index_def get_string_def)

text \<open>
  \<open>get_follows\<close> on a relay returns the keys in the \<^verbatim>\<open>p\<close> tags of the first event of the author that the
  relay has stored, of whatever kind it is, and no key when there is none; the relay's events do not change.
\<close>

lemma relay_follows:
  assumes "json_laws jl u" and "uuid_gen_ok g" and "u pubkey" and "relay_run jl fs0 tr (db, fs)"
  shows "\<exists>cfs' fs'. get_follows jl g n now (wss_relay_to jl t) uri pubkey (pubkeys, cfs) (db, fs) =
           ((pubkeys @ (case filter (\<lambda>ev. e_pubkey ev = pubkey) (database_read jl fs) of [] \<Rightarrow> [] | ev # _ \<Rightarrow> followed ev), cfs'),
            n + 31, db, fs') \<and> database_read jl fs' = database_read jl fs"
proof -
  let ?found = "filter (\<lambda>ev. e_pubkey ev = pubkey) (database_read jl fs)"
  let ?f = "(filter_t0 now)\<lparr>f_authors := [pubkey], f_kinds := [3], f_limit := 1\<rparr>"
  obtain sub where sub: "generate_uuid_v4 g n = (sub, n + 31)" using generate_uuid_v4_eq [OF assms(2), of n] by simp
  from author_query [OF assms sub refl] obtain out fs' where r: "wss_relay_to jl t uri (make_request jl sub ?f) (db, fs) = ([out], db, fs')"
    "database_read jl fs' = database_read jl fs"
    "js_parse jl out = Some (json_norm (answer_json (case ?found of [] \<Rightarrow> Nothing sub | ev # _ \<Rightarrow> Found sub ev)))" by blast
  show ?thesis
    by (cases ?found)
      (use r answer_event [OF r(3)] in \<open>simp_all add: get_follows_def sub Let_def at_index_def event_json_roundtrip
        tags_loop_eq followed_def\<close>)
qed

text \<open>\<open>get_feed\<close> returns the relay's one message about an event of the author, although it asks for two.\<close>

lemma feed_from_relay:
  assumes "json_laws jl u" and "uuid_gen_ok g" and "u pubkey" and "relay_run jl fs0 tr (db, fs)"
  obtains out cfs' fs' where "get_feed jl g n now (wss_relay_to jl t) uri pubkey (response, cfs) (db, fs) =
      ((response @ (if pubkey \<in> e_pubkey ` set (database_read jl fs) then [out] else []), cfs'), n + 31, db, fs')"
    and "database_read jl fs' = database_read jl fs"
proof -
  let ?found = "filter (\<lambda>ev. e_pubkey ev = pubkey) (database_read jl fs)"
  let ?f = "(filter_t0 now)\<lparr>f_authors := [pubkey], f_kinds := [1], f_limit := 2\<rparr>"
  obtain sub where sub: "generate_uuid_v4 g n = (sub, n + 31)" using generate_uuid_v4_eq [OF assms(2), of n] by simp
  from author_query [OF assms sub refl] obtain out fs' where r: "wss_relay_to jl t uri (make_request jl sub ?f) (db, fs) = ([out], db, fs')"
    "database_read jl fs' = database_read jl fs"
    "js_parse jl out = Some (json_norm (answer_json (case ?found of [] \<Rightarrow> Nothing sub | ev # _ \<Rightarrow> Found sub ev)))" by blast
  have "pubkey \<in> e_pubkey ` set (database_read jl fs) \<longleftrightarrow> ?found \<noteq> []" by (auto simp: filter_empty_conv)
  then have "\<exists>cfs'. get_feed jl g n now (wss_relay_to jl t) uri pubkey (response, cfs) (db, fs) =
      ((response @ (if pubkey \<in> e_pubkey ` set (database_read jl fs) then [out] else []), cfs'), n + 31, db, fs')"
    by (cases ?found)
      (use r answer_event [OF r(3)] in \<open>simp_all add: get_feed_def sub Let_def at_index_def event_json_roundtrip\<close>)
  with r(2) that show thesis by blast
qed

text \<open>An option without its value at the end of the command line reads the null pointer.\<close>

lemma client_option_last:
  "arg \<in> {str ''--uri'', str ''--authors'', str ''--content'', str ''--sec'', str ''--kind''} \<Longrightarrow> client_args [arg] opts = Abort"
  by auto

end
