(* ===== verification/Utf8.thy ===== *)
theory Utf8
  imports Prelude
begin

text \<open>
  The table-driven UTF-8 decoder of the class \<open>serializer\<close> of \<^verbatim>\<open>nlohmann::json\<close>, the well-formed
  texts as the Unicode standard tabulates them, and the proof that the decoder accepts exactly these, with code points
  that do not fall into the ASCII range when a character has several bytes.
\<close>

section \<open>The UTF-8 decoder\<close>

definition utf8d :: "u8 list" where
  "utf8d = [
     0, 0, 0, 0, 0, 0, 0, 0, 0, 0, 0, 0, 0, 0, 0, 0, 0, 0, 0, 0, 0, 0, 0, 0, 0, 0, 0, 0, 0, 0, 0, 0,
     0, 0, 0, 0, 0, 0, 0, 0, 0, 0, 0, 0, 0, 0, 0, 0, 0, 0, 0, 0, 0, 0, 0, 0, 0, 0, 0, 0, 0, 0, 0, 0,
     0, 0, 0, 0, 0, 0, 0, 0, 0, 0, 0, 0, 0, 0, 0, 0, 0, 0, 0, 0, 0, 0, 0, 0, 0, 0, 0, 0, 0, 0, 0, 0,
     0, 0, 0, 0, 0, 0, 0, 0, 0, 0, 0, 0, 0, 0, 0, 0, 0, 0, 0, 0, 0, 0, 0, 0, 0, 0, 0, 0, 0, 0, 0, 0,
     1, 1, 1, 1, 1, 1, 1, 1, 1, 1, 1, 1, 1, 1, 1, 1, 9, 9, 9, 9, 9, 9, 9, 9, 9, 9, 9, 9, 9, 9, 9, 9,
     7, 7, 7, 7, 7, 7, 7, 7, 7, 7, 7, 7, 7, 7, 7, 7, 7, 7, 7, 7, 7, 7, 7, 7, 7, 7, 7, 7, 7, 7, 7, 7,
     8, 8, 2, 2, 2, 2, 2, 2, 2, 2, 2, 2, 2, 2, 2, 2, 2, 2, 2, 2, 2, 2, 2, 2, 2, 2, 2, 2, 2, 2, 2, 2,
     10, 3, 3, 3, 3, 3, 3, 3, 3, 3, 3, 3, 3, 4, 3, 3, 11, 6, 6, 6, 5, 8, 8, 8, 8, 8, 8, 8, 8, 8, 8, 8,
     0, 1, 2, 3, 5, 8, 7, 1, 1, 1, 4, 6, 1, 1, 1, 1, 1, 1, 1, 1, 1, 1, 1, 1, 1, 1, 1, 1, 1, 1, 1, 1,
     1, 0, 1, 1, 1, 1, 1, 0, 1, 0, 1, 1, 1, 1, 1, 1, 1, 2, 1, 1, 1, 1, 1, 2, 1, 2, 1, 1, 1, 1, 1, 1,
     1, 1, 1, 1, 1, 1, 1, 2, 1, 1, 1, 1, 1, 1, 1, 1, 1, 2, 1, 1, 1, 1, 1, 1, 1, 2, 1, 1, 1, 1, 1, 1,
     1, 1, 1, 1, 1, 1, 1, 3, 1, 3, 1, 1, 1, 1, 1, 1, 1, 3, 1, 1, 1, 1, 1, 3, 1, 3, 1, 1, 1, 1, 1, 1,
     1, 3, 1, 1, 1, 1, 1, 1, 1, 1, 1, 1, 1, 1, 1, 1]"

definition UTF8_ACCEPT :: u8 where "UTF8_ACCEPT = 0"
definition UTF8_REJECT :: u8 where "UTF8_REJECT = 1"

text \<open>The new state, and the code point read so far.\<close>

definition decode :: "u8 \<Rightarrow> u32 \<Rightarrow> u8 \<Rightarrow> u8 \<times> u32" where
  "decode state codep byte =
     (let type = utf8d ! unat byte;
          codep = (if state \<noteq> UTF8_ACCEPT then (ucast byte AND 0x3F) OR push_bit 6 codep
                   else drop_bit (unat type) 0xFF AND ucast byte)
      in (utf8d ! (256 + unat state * 16 + unat type), codep))"

section \<open>Well-formed UTF-8\<close>

text \<open>
  The table of well-formed byte sequences: the ranges of the bytes that must follow a first byte, and the texts that
  are sequences of such characters (\<open>utf8_from rs\<close> has still to see bytes in the ranges \<open>rs\<close>).
\<close>

definition utf8_follow :: "u8 \<Rightarrow> (u8 \<times> u8) list option" where
  "utf8_follow b =
     (if b < 0x80 then Some []
      else if b < 0xC2 then None
      else if b < 0xE0 then Some [(0x80, 0xBF)]
      else if b = 0xE0 then Some [(0xA0, 0xBF), (0x80, 0xBF)]
      else if b = 0xED then Some [(0x80, 0x9F), (0x80, 0xBF)]
      else if b < 0xF0 then Some [(0x80, 0xBF), (0x80, 0xBF)]
      else if b = 0xF0 then Some [(0x90, 0xBF), (0x80, 0xBF), (0x80, 0xBF)]
      else if b < 0xF4 then Some [(0x80, 0xBF), (0x80, 0xBF), (0x80, 0xBF)]
      else if b = 0xF4 then Some [(0x80, 0x8F), (0x80, 0xBF), (0x80, 0xBF)]
      else None)"

fun utf8_from :: "(u8 \<times> u8) list \<Rightarrow> bytes \<Rightarrow> bool" where
  "utf8_from rs [] \<longleftrightarrow> rs = []"
| "utf8_from [] (b # s) \<longleftrightarrow> (case utf8_follow b of None \<Rightarrow> False | Some rs \<Rightarrow> utf8_from rs s)"
| "utf8_from ((lo, hi) # rs) (b # s) \<longleftrightarrow> lo \<le> b \<and> b \<le> hi \<and> utf8_from rs s"

definition utf8 :: "bytes \<Rightarrow> bool" where
  "utf8 s \<longleftrightarrow> utf8_from [] s"

text \<open>The classes of bytes and the transitions in the decoder's table.\<close>

definition byte_type :: "nat \<Rightarrow> nat" where
  "byte_type b =
     (if b < 0x80 then 0 else if b < 0x90 then 1 else if b < 0xA0 then 9 else if b < 0xC0 then 7 else if b < 0xC2 then 8
      else if b < 0xE0 then 2 else if b = 0xE0 then 10 else if b = 0xED then 4 else if b < 0xF0 then 3
      else if b = 0xF0 then 11 else if b < 0xF4 then 6 else if b = 0xF4 then 5 else 8)"

lemma byte_types: "list_all (\<lambda>b. utf8d ! b = of_nat (byte_type b)) [0..<256]"
  by code_simp

definition next_state :: "u8 \<Rightarrow> u8 \<Rightarrow> u8" where
  "next_state st b = utf8d ! (256 + unat st * 16 + byte_type (unat b))"

lemma byte_type_less: "byte_type b < 12"
  by (simp add: byte_type_def)

lemma utf8d_type: "utf8d ! unat (b :: u8) = of_nat (byte_type (unat b))"
  using all_below [OF byte_types, of "unat b"] u8_less [of b] by simp

lemma decode_state: "fst (decode st cp b) = next_state st b"
  using byte_type_less [of "unat b"] by (simp add: decode_def next_state_def utf8d_type unat_u8_of_nat Let_def)

text \<open>The ranges that are still to be seen in each state.\<close>

definition pending :: "u8 \<Rightarrow> (u8 \<times> u8) list" where
  "pending st =
     (if st = 2 then [(0x80, 0xBF)]
      else if st = 3 then [(0x80, 0xBF), (0x80, 0xBF)]
      else if st = 4 then [(0xA0, 0xBF), (0x80, 0xBF)]
      else if st = 5 then [(0x80, 0x9F), (0x80, 0xBF)]
      else if st = 6 then [(0x90, 0xBF), (0x80, 0xBF), (0x80, 0xBF)]
      else if st = 7 then [(0x80, 0xBF), (0x80, 0xBF), (0x80, 0xBF)]
      else if st = 8 then [(0x80, 0x8F), (0x80, 0xBF), (0x80, 0xBF)]
      else [])"

definition live :: "u8 \<Rightarrow> bool" where
  "live st \<longleftrightarrow> st \<in> {0, 2, 3, 4, 5, 6, 7, 8}"

lemma utf8d_transitions:
  "map (\<lambda>i. utf8d ! (256 + i)) [0..<12] = [0, 1, 2, 3, 5, 8, 7, 1, 1, 1, 4, 6]"
  "map (\<lambda>i. utf8d ! (288 + i)) [0..<12] = [1, 0, 1, 1, 1, 1, 1, 0, 1, 0, 1, 1]"
  "map (\<lambda>i. utf8d ! (304 + i)) [0..<12] = [1, 2, 1, 1, 1, 1, 1, 2, 1, 2, 1, 1]"
  "map (\<lambda>i. utf8d ! (320 + i)) [0..<12] = [1, 1, 1, 1, 1, 1, 1, 2, 1, 1, 1, 1]"
  "map (\<lambda>i. utf8d ! (336 + i)) [0..<12] = [1, 2, 1, 1, 1, 1, 1, 1, 1, 2, 1, 1]"
  "map (\<lambda>i. utf8d ! (352 + i)) [0..<12] = [1, 1, 1, 1, 1, 1, 1, 3, 1, 3, 1, 1]"
  "map (\<lambda>i. utf8d ! (368 + i)) [0..<12] = [1, 3, 1, 1, 1, 1, 1, 3, 1, 3, 1, 1]"
  "map (\<lambda>i. utf8d ! (384 + i)) [0..<12] = [1, 3, 1, 1, 1, 1, 1, 1, 1, 1, 1, 1]"
  by code_simp+

lemma transition:
  assumes "map (\<lambda>i. utf8d ! (256 + unat st * 16 + i)) [0..<12] = row"
  shows "next_state st b = row ! byte_type (unat b)"
  using assms byte_type_less [of "unat b"] by (auto simp: next_state_def)

lemma next_state_row:
  "next_state 0 b = [0, 1, 2, 3, 5, 8, 7, 1, 1, 1, 4, 6] ! byte_type (unat b)"
  "next_state 2 b = [1, 0, 1, 1, 1, 1, 1, 0, 1, 0, 1, 1] ! byte_type (unat b)"
  "next_state 3 b = [1, 2, 1, 1, 1, 1, 1, 2, 1, 2, 1, 1] ! byte_type (unat b)"
  "next_state 4 b = [1, 1, 1, 1, 1, 1, 1, 2, 1, 1, 1, 1] ! byte_type (unat b)"
  "next_state 5 b = [1, 2, 1, 1, 1, 1, 1, 1, 1, 2, 1, 1] ! byte_type (unat b)"
  "next_state 6 b = [1, 1, 1, 1, 1, 1, 1, 3, 1, 3, 1, 1] ! byte_type (unat b)"
  "next_state 7 b = [1, 3, 1, 1, 1, 1, 1, 3, 1, 3, 1, 1] ! byte_type (unat b)"
  "next_state 8 b = [1, 3, 1, 1, 1, 1, 1, 1, 1, 1, 1, 1] ! byte_type (unat b)"
  by (rule transition, simp add: utf8d_transitions)+

lemma next_accept:
  "next_state 0 b = (case utf8_follow b of None \<Rightarrow> 1 | Some rs \<Rightarrow>
     (if rs = [] then 0 else if b < 0xE0 then 2 else if b = 0xE0 then 4 else if b = 0xED then 5
      else if b < 0xF0 then 3 else if b = 0xF0 then 6 else if b < 0xF4 then 7 else 8))"
  using u8_less [of b]
  by (simp add: next_state_row byte_type_def utf8_follow_def word_less_nat_alt word_unat_eq_iff)

lemma next_pending:
  assumes "live st" and "st \<noteq> 0"
  shows "next_state st b =
     (if fst (hd (pending st)) \<le> b \<and> b \<le> snd (hd (pending st))
      then [0, 2, 3] ! (length (pending st) - 1) else 1)"
  using assms u8_less [of b] unfolding live_def insert_iff empty_iff
  by (elim disjE) (simp_all add: next_state_row byte_type_def pending_def word_le_nat_alt)

lemma next_live:
  assumes "live st"
  shows "next_state st b = 1 \<or> live (next_state st b) \<and>
     (case pending st of
        [] \<Rightarrow> utf8_follow b = Some (pending (next_state st b))
      | (lo, hi) # rs \<Rightarrow> lo \<le> b \<and> b \<le> hi \<and> pending (next_state st b) = rs)"
proof (cases "st = 0")
  case True
  show ?thesis unfolding True next_accept
    by (simp add: live_def pending_def utf8_follow_def)
next
  case False
  with assms show ?thesis
    unfolding next_pending [OF assms False] by (auto simp: live_def pending_def)
qed

lemma next_reject:
  assumes "live st" and "next_state st b = 1"
  shows "\<not> utf8_from (pending st) (b # s)"
proof (cases "st = 0")
  case True
  with assms(2) show ?thesis
    by (auto simp: next_accept pending_def utf8_follow_def split: if_splits)
next
  case False
  with assms show ?thesis unfolding next_pending [OF assms(1) False]
    by (auto simp: live_def pending_def split: if_splits)
qed

lemma utf8_from_next:
  assumes "live st" and "next_state st b \<noteq> 1"
  shows "utf8_from (pending st) (b # s) = utf8_from (pending (next_state st b)) s"
  using next_live [OF assms(1), of b] assms(2) by (cases "pending st") auto

text \<open>
  The code points collected in each state: those of several bytes are at least \<open>0x80\<close>, so they are not mistaken
  for an ASCII character.
\<close>

definition cp_inv :: "u8 \<Rightarrow> u32 \<Rightarrow> bool" where
  "cp_inv st cp \<longleftrightarrow>
     (st = 2 \<longrightarrow> 2 \<le> unat cp \<and> unat cp < 2 ^ 16) \<and> (st = 3 \<longrightarrow> 1 \<le> unat cp \<and> unat cp < 2 ^ 10) \<and>
     (st = 4 \<longrightarrow> unat cp < 16) \<and> (st = 5 \<longrightarrow> 1 \<le> unat cp \<and> unat cp < 16) \<and>
     (st = 6 \<longrightarrow> unat cp < 8) \<and> (st = 7 \<or> st = 8 \<longrightarrow> 1 \<le> unat cp \<and> unat cp < 8)"

lemma codep_first:
  "st = UTF8_ACCEPT \<Longrightarrow> snd (decode st cp b) = drop_bit (byte_type (unat b)) 0xFF AND ucast b"
  using byte_type_less [of "unat b"] by (simp add: decode_def utf8d_type unat_u8_of_nat Let_def)

lemma codep_cont:
  assumes "st \<noteq> UTF8_ACCEPT" and "unat cp < 2 ^ 16"
  shows "unat (snd (decode st cp b)) = unat b mod 64 + unat cp * 64"
proof -
  let ?c = "(ucast b AND 0x3F) OR push_bit 6 cp"
  have "(ucast b AND 0x3F :: u32) = take_bit 6 (ucast b)" by (simp add: take_bit_eq_mask mask_numeral)
  then have a: "unat (ucast b AND 0x3F :: u32) = unat b mod 64"
    by (simp add: unsigned_take_bit_eq unat_ucast_u32 take_bit_nat_def)
  have p: "unat (push_bit 6 cp) = unat cp * 64"
    using assms(2) by (simp add: unsigned_push_bit_eq take_bit_nat_def push_bit_nat_def)
  have "(ucast b AND 0x3F :: u32) AND push_bit 6 cp = 0"
    by (rule bit_word_eqI) (auto simp: bit_simps \<open>(ucast b AND 0x3F :: u32) = take_bit 6 (ucast b)\<close>)
  then have "?c = (ucast b AND 0x3F) + push_bit 6 cp" by (simp add: disjunctive_add_eq_or)
  moreover have "unat ((ucast b AND 0x3F) + push_bit 6 cp) = unat b mod 64 + unat cp * 64"
    using assms(2) by (simp add: unat_word_ariths a p)
  ultimately show ?thesis using assms(1) by (simp add: decode_def Let_def)
qed

lemma codep_mod: "unat (snd (decode 0 cp b)) = unat b mod 2 ^ (8 - byte_type (unat b))"
proof -
  have ff: "(0xFF :: u32) = mask 8" by (simp add: mask_numeral)
  have "drop_bit (byte_type (unat b)) 0xFF AND ucast b = take_bit (8 - byte_type (unat b)) (ucast b :: u32)"
    unfolding ff by (rule bit_word_eqI) (auto simp: bit_simps)
  then show ?thesis
    by (simp add: codep_first UTF8_ACCEPT_def unsigned_take_bit_eq unat_ucast_u32 take_bit_nat_def)
qed

lemma codep_class:
  assumes "c = unat (snd (decode 0 cp b))" and "n = unat b"
  shows "n < 0x80 \<longrightarrow> c = n" and "0xC2 \<le> n \<longrightarrow> n < 0xE0 \<longrightarrow> 2 \<le> c \<and> c < 0x40" and "n = 0xE0 \<or> n = 0xF0 \<longrightarrow> c = 0"
    and "0xE1 \<le> n \<longrightarrow> n < 0xF0 \<longrightarrow> 1 \<le> c \<and> c < 16" and "0xF1 \<le> n \<longrightarrow> n \<le> 0xF4 \<longrightarrow> 1 \<le> c \<and> c < 8"
proof -
  have c: "c = n mod 2 ^ (8 - byte_type n)" using codep_mod [of cp b] assms by simp
  show "n < 0x80 \<longrightarrow> c = n" by (simp add: c byte_type_def)
  show "0xC2 \<le> n \<longrightarrow> n < 0xE0 \<longrightarrow> 2 \<le> c \<and> c < 0x40"
  proof (intro impI)
    assume n: "0xC2 \<le> n" "n < 0xE0"
    then have "n mod 64 = n - 192" by (simp add: mod_nat_eqI)
    with n show "2 \<le> c \<and> c < 0x40" by (auto simp: c byte_type_def)
  qed
  show "n = 0xE0 \<or> n = 0xF0 \<longrightarrow> c = 0" by (auto simp add: c byte_type_def)
  show "0xE1 \<le> n \<longrightarrow> n < 0xF0 \<longrightarrow> 1 \<le> c \<and> c < 16" 
  proof (intro impI)
    assume n: "0xE1 \<le> n" "n < 0xF0"
    then have "n mod 32 = n - 224" "n mod 16 = n - 224" by (simp_all add: mod_nat_eqI)
    with n show "1 \<le> c \<and> c < 16" by (auto simp: c byte_type_def)
  qed
  show "0xF1 \<le> n \<longrightarrow> n \<le> 0xF4 \<longrightarrow> 1 \<le> c \<and> c < 8"
  proof (intro impI)
    assume n: "0xF1 \<le> n" "n \<le> 0xF4"
    then have "n < 0xF4 \<Longrightarrow> n mod 4 = n - 240" by (simp add: mod_nat_eqI)
    with n show "1 \<le> c \<and> c < 8" by (auto simp: c byte_type_def)
  qed
qed

lemma cp_inv_first: "next_state 0 b \<noteq> 1 \<Longrightarrow> cp_inv (next_state 0 b) (snd (decode 0 cp b))"
  using codep_class [OF refl refl, where cp = cp and b = b] u8_less [of b]
  by (auto simp: cp_inv_def next_accept utf8_follow_def word_less_nat_alt word_unat_eq_iff split: if_splits)

lemma cp_inv_cont:
  assumes "live st" and "st \<noteq> 0" and "cp_inv st cp" and "next_state st b \<noteq> 1"
  shows "cp_inv (next_state st b) (snd (decode st cp b))"
    and "next_state st b = 0 \<longrightarrow> 0x80 \<le> unat (snd (decode st cp b))" and "0x80 \<le> unat b"
proof -
  define X where "X = snd (decode st cp b)"
  define ns where "ns = next_state st b"
  have c: "unat X = unat b mod 64 + unat cp * 64"
    using assms(1-3) unfolding X_def by (intro codep_cont) (auto simp: UTF8_ACCEPT_def cp_inv_def live_def)
  have range: "fst (hd (pending st)) \<le> b" "b \<le> snd (hd (pending st))" "ns = [0, 2, 3] ! (length (pending st) - 1)"
    using next_pending [OF assms(1,2), of b] assms(4) by (auto simp: ns_def split: if_splits)
  have h: "unat b mod 64 = unat b - 128" if "128 \<le> unat b" "unat b \<le> 191"
    using that by (simp add: mod_nat_eqI)
  show "0x80 \<le> unat b"
    using range(1) assms(1,2) by (auto simp: live_def pending_def word_le_nat_alt)
  show "cp_inv (next_state st b) (snd (decode st cp b))"
    using assms(1-3) range h unfolding live_def insert_iff empty_iff X_def [symmetric] ns_def [symmetric]
    by (elim disjE) (auto simp: cp_inv_def pending_def c word_le_nat_alt)
  show "next_state st b = 0 \<longrightarrow> 0x80 \<le> unat (snd (decode st cp b))"
    using assms(1-3) range unfolding live_def insert_iff empty_iff X_def [symmetric] ns_def [symmetric]
    by (elim disjE) (simp_all add: cp_inv_def pending_def c)
qed

end
