(* ===== verification/Json_Dump.thy ===== *)
theory Json_Dump
  imports Json_Value Utf8
begin

text \<open>
  The text writer of \<^verbatim>\<open>nlohmann::json\<close>: the class \<open>serializer\<close> with its two fixed buffers, the
  escaping of strings in all three error modes, the two-digits-at-a-time printing of
  integers, and \<open>dump\<close>. An exception, and a write or read outside a buffer, is a value of \<open>ser_error\<close>. The digits of
  doubles are a function argument. The lemmas of this theory show that integers are printed as \<^verbatim>\<open>printf\<close> does;
  the theories \<open>Json_Escape\<close> and \<open>Json_Text\<close> treat strings and values.
\<close>

section \<open>Results\<close>

datatype ser_error =
    Invalid_UTF8 nat u8
  | Incomplete_UTF8 u8
  | Out_Of_Bounds

definition bind_ser :: "ser_error + 'a \<Rightarrow> ('a \<Rightarrow> ser_error + 'b) \<Rightarrow> ser_error + 'b" where
  "bind_ser r f = (case r of Inl e \<Rightarrow> Inl e | Inr x \<Rightarrow> f x)"

lemma bind_ser_simps [simp]: "bind_ser (Inl e) f = Inl e" "bind_ser (Inr x) f = f x"
  by (simp_all add: bind_ser_def)

lemma bind_ser_cong [fundef_cong]:
  "r = r' \<Longrightarrow> (\<And>x. r' = Inr x \<Longrightarrow> f x = g x) \<Longrightarrow> bind_ser r f = bind_ser r' g"
  by (cases r') simp_all

section \<open>The serializer\<close>

datatype error_handler = Strict | Ignore | Replace

record serializer =
  s_out :: bytes
  indent_string :: bytes
  error_handler :: error_handler

definition serializer0 :: "u8 \<Rightarrow> error_handler \<Rightarrow> serializer" where
  "serializer0 ichar eh = \<lparr>s_out = [], indent_string = replicate 512 ichar, error_handler = eh\<rparr>"

definition write_characters :: "bytes \<Rightarrow> serializer \<Rightarrow> serializer" where
  "write_characters bs s = s\<lparr>s_out := s_out s @ bs\<rparr>"

text \<open>
  The first \<open>n\<close> characters of \<open>indent_string.c_str()\<close>: the terminating NUL may be read as well, nothing behind it.
\<close>

definition write_indent :: "nat \<Rightarrow> serializer \<Rightarrow> ser_error + serializer" where
  "write_indent n s =
     (if n \<le> Suc (length (indent_string s)) then Inr (write_characters (take n (indent_string s @ [0])) s)
      else Inl Out_Of_Bounds)"

definition grow_indent :: "u32 \<Rightarrow> serializer \<Rightarrow> serializer" where
  "grow_indent new_indent s =
     (if length (indent_string s) < unat new_indent
      then s\<lparr>indent_string := indent_string s @ replicate (length (indent_string s)) 32\<rparr>
      else s)"

section \<open>Strings\<close>

text \<open>
  \<open>string_buffer\<close> has 512 bytes, of which \<open>bytes\<close> are in use: the used part is \<open>b_used\<close>. \<open>buf_put\<close> appends
  to it, \<open>buf_fmt\<close> is \<^verbatim>\<open>snprintf\<close> at its end, which also stores a NUL.
\<close>

record esc_state =
  b_used :: bytes
  codepoint :: u32
  ustate :: u8
  bytes_after_last_accept :: nat
  undumped_chars :: nat

definition string_buffer_size :: nat where "string_buffer_size = 512"

definition buf_put :: "bytes \<Rightarrow> esc_state \<Rightarrow> ser_error + esc_state" where
  "buf_put bs e =
     (if length (b_used e) + length bs \<le> string_buffer_size then Inr (e\<lparr>b_used := b_used e @ bs\<rparr>) else Inl Out_Of_Bounds)"

definition buf_fmt :: "bytes \<Rightarrow> esc_state \<Rightarrow> ser_error + esc_state" where
  "buf_fmt bs e =
     (if length (b_used e) + length bs + 1 \<le> string_buffer_size then Inr (e\<lparr>b_used := b_used e @ bs\<rparr>)
      else Inl Out_Of_Bounds)"

text \<open>\<^verbatim>\<open>\u%04x\<close>\<close>

definition u_escape :: "u16 \<Rightarrow> bytes" where
  "u_escape c =
     [92, 117, hex_digit (unat c div 4096), hex_digit (unat c div 256 mod 16), hex_digit (unat c div 16 mod 16),
      hex_digit (unat c mod 16)]"

definition put_codepoint :: "bool \<Rightarrow> u8 \<Rightarrow> esc_state \<Rightarrow> ser_error + esc_state" where
  "put_codepoint ensure_ascii byte e =
     (let codepoint = codepoint e
      in if codepoint = 0x08 then buf_put [92, chr CHR ''b''] e
         else if codepoint = 0x09 then buf_put [92, chr CHR ''t''] e
         else if codepoint = 0x0A then buf_put [92, chr CHR ''n''] e
         else if codepoint = 0x0C then buf_put [92, chr CHR ''f''] e
         else if codepoint = 0x0D then buf_put [92, chr CHR ''r''] e
         else if codepoint = 0x22 then buf_put [92, 34] e
         else if codepoint = 0x5C then buf_put [92, 92] e
         else if codepoint \<le> 0x1F \<or> ensure_ascii \<and> 0x7F \<le> codepoint then
           if codepoint \<le> 0xFFFF then buf_fmt (u_escape (ucast codepoint)) e
           else buf_fmt (u_escape (ucast (0xD7C0 + drop_bit 10 codepoint)) @
                         u_escape (ucast (0xDC00 + (codepoint AND 0x3FF)))) e
         else buf_put [byte] e)"

text \<open>Write the buffer out when fewer than 13 bytes are left.\<close>

definition flush_full :: "serializer \<Rightarrow> esc_state \<Rightarrow> serializer \<times> esc_state" where
  "flush_full s e =
     (if string_buffer_size - length (b_used e) < 13 then (write_characters (b_used e) s, e\<lparr>b_used := []\<rparr>) else (s, e))"

definition mark_accept :: "esc_state \<Rightarrow> esc_state" where
  "mark_accept e = e\<lparr>bytes_after_last_accept := length (b_used e)\<rparr>"

definition replacement :: "bool \<Rightarrow> bytes" where
  "replacement ensure_ascii = (if ensure_ascii then 92 # str ''ufffd'' else [0xEF, 0xBF, 0xBD])"

text \<open>A byte the decoder accepts, rejects (in the modes that go on) or needs more bytes for.\<close>

definition on_accept :: "bool \<Rightarrow> u8 \<Rightarrow> serializer \<Rightarrow> esc_state \<Rightarrow> ser_error + serializer \<times> esc_state" where
  "on_accept ensure_ascii byte s e =
     bind_ser (put_codepoint ensure_ascii byte e)
       (\<lambda>e. case flush_full s e of (s, e) \<Rightarrow> Inr (s, (mark_accept e)\<lparr>undumped_chars := 0\<rparr>))"

definition on_reject :: "bool \<Rightarrow> serializer \<Rightarrow> esc_state \<Rightarrow> ser_error + serializer \<times> esc_state" where
  "on_reject ensure_ascii s e =
     (let e = e\<lparr>b_used := take (bytes_after_last_accept e) (b_used e)\<rparr>
      in bind_ser
           (if error_handler s = Replace
            then bind_ser (buf_put (replacement ensure_ascii) e)
                   (\<lambda>e. case flush_full s e of (s, e) \<Rightarrow> Inr (s, mark_accept e))
            else Inr (s, e))
           (\<lambda>(s, e). Inr (s, e\<lparr>undumped_chars := 0, ustate := UTF8_ACCEPT\<rparr>)))"

definition on_more :: "bool \<Rightarrow> u8 \<Rightarrow> esc_state \<Rightarrow> ser_error + esc_state" where
  "on_more ensure_ascii byte e =
     bind_ser (if ensure_ascii then Inr e else buf_put [byte] e)
       (\<lambda>e. Inr (e\<lparr>undumped_chars := undumped_chars e + 1\<rparr>))"

definition decode_next :: "u8 \<Rightarrow> esc_state \<Rightarrow> esc_state" where
  "decode_next byte e =
     (case decode (ustate e) (codepoint e) byte of (state, codep) \<Rightarrow> e\<lparr>ustate := state, codepoint := codep\<rparr>)"

text \<open>The loop over \<open>s[i..]\<close>; after \<^verbatim>\<open>--i\<close> the same byte is read again.\<close>

function escape_loop :: "bool \<Rightarrow> nat \<Rightarrow> bytes \<Rightarrow> serializer \<Rightarrow> esc_state \<Rightarrow> ser_error + serializer \<times> esc_state" where
  "escape_loop ensure_ascii i [] s e = Inr (s, e)"
| "escape_loop ensure_ascii i (byte # r) s e =
     (let e' = decode_next byte e
      in if ustate e' = UTF8_ACCEPT then
           bind_ser (on_accept ensure_ascii byte s e') (\<lambda>(s, e). escape_loop ensure_ascii (i + 1) r s e)
         else if ustate e' = UTF8_REJECT then
           if error_handler s = Strict then Inl (Invalid_UTF8 i byte)
           else if 0 < undumped_chars e' then
             bind_ser (on_reject ensure_ascii s e') (\<lambda>(s, e). escape_loop ensure_ascii i (byte # r) s (e\<lparr>undumped_chars := 0\<rparr>))
           else bind_ser (on_reject ensure_ascii s e') (\<lambda>(s, e). escape_loop ensure_ascii (i + 1) r s e)
         else bind_ser (on_more ensure_ascii byte e') (\<lambda>e. escape_loop ensure_ascii (i + 1) r s e))"
  by pat_completeness auto
termination
  by (relation "measure (\<lambda>(a, i, r, s, e). 2 * length r + of_bool (0 < undumped_chars e))")
     (auto simp: decode_next_def split: prod.splits)

definition escape_end :: "bool \<Rightarrow> bytes \<Rightarrow> serializer \<times> esc_state \<Rightarrow> ser_error + serializer" where
  "escape_end ensure_ascii str_s = (\<lambda>(s, e).
     if ustate e = UTF8_ACCEPT then
       Inr (if 0 < length (b_used e) then write_characters (b_used e) s else s)
     else case error_handler s of
       Strict \<Rightarrow> Inl (Incomplete_UTF8 (last str_s))
     | Ignore \<Rightarrow> Inr (write_characters (take (bytes_after_last_accept e) (b_used e)) s)
     | Replace \<Rightarrow> Inr (write_characters (replacement ensure_ascii)
                         (write_characters (take (bytes_after_last_accept e) (b_used e)) s)))"

definition dump_escaped :: "bytes \<Rightarrow> bool \<Rightarrow> serializer \<Rightarrow> ser_error + serializer" where
  "dump_escaped str_s ensure_ascii s =
     bind_ser (escape_loop ensure_ascii 0 str_s s
                 \<lparr>b_used = [], codepoint = 0, ustate = UTF8_ACCEPT, bytes_after_last_accept = 0, undumped_chars = 0\<rparr>)
       (escape_end ensure_ascii str_s)"

section \<open>Integers\<close>

definition digits_to_99 :: "(u8 \<times> u8) list" where
  "digits_to_99 = [
     (48, 48), (48, 49), (48, 50), (48, 51), (48, 52), (48, 53), (48, 54), (48, 55), (48, 56), (48, 57),
     (49, 48), (49, 49), (49, 50), (49, 51), (49, 52), (49, 53), (49, 54), (49, 55), (49, 56), (49, 57),
     (50, 48), (50, 49), (50, 50), (50, 51), (50, 52), (50, 53), (50, 54), (50, 55), (50, 56), (50, 57),
     (51, 48), (51, 49), (51, 50), (51, 51), (51, 52), (51, 53), (51, 54), (51, 55), (51, 56), (51, 57),
     (52, 48), (52, 49), (52, 50), (52, 51), (52, 52), (52, 53), (52, 54), (52, 55), (52, 56), (52, 57),
     (53, 48), (53, 49), (53, 50), (53, 51), (53, 52), (53, 53), (53, 54), (53, 55), (53, 56), (53, 57),
     (54, 48), (54, 49), (54, 50), (54, 51), (54, 52), (54, 53), (54, 54), (54, 55), (54, 56), (54, 57),
     (55, 48), (55, 49), (55, 50), (55, 51), (55, 52), (55, 53), (55, 54), (55, 55), (55, 56), (55, 57),
     (56, 48), (56, 49), (56, 50), (56, 51), (56, 52), (56, 53), (56, 54), (56, 55), (56, 56), (56, 57),
     (57, 48), (57, 49), (57, 50), (57, 51), (57, 52), (57, 53), (57, 54), (57, 55), (57, 56), (57, 57)]"

function count_digits_from :: "nat \<Rightarrow> u64 \<Rightarrow> nat" where
  "count_digits_from n_digits x =
     (if x < 10 then n_digits
      else if x < 100 then n_digits + 1
      else if x < 1000 then n_digits + 2
      else if x < 10000 then n_digits + 3
      else count_digits_from (n_digits + 4) (x div 10000))"
  by pat_completeness auto
termination
  by (relation "measure (\<lambda>(n, x). unat x)") (auto simp: word_less_nat_alt unat_div)

definition count_digits :: "u64 \<Rightarrow> nat" where
  "count_digits x = count_digits_from 1 x"

definition remove_sign :: "u64 \<Rightarrow> u64" where
  "remove_sign x = - (x + 1) + 1"

text \<open>\<open>number_buffer\<close> and the index \<open>buffer_ptr\<close> into it, which moves down.\<close>

function digits_loop :: "bytes \<Rightarrow> nat \<Rightarrow> u64 \<Rightarrow> bytes \<times> nat \<times> u64" where
  "digits_loop buffer p abs_value =
     (if 100 \<le> abs_value then
        (let digits = digits_to_99 ! unat (abs_value mod 100)
         in digits_loop (buffer[p - 1 := snd digits, p - 2 := fst digits]) (p - 2) (abs_value div 100))
      else (buffer, p, abs_value))"
  by pat_completeness auto
termination
  by (relation "measure (\<lambda>(b, p, x). unat x)") (auto simp: word_le_nat_alt unat_div)

declare count_digits_from.simps [simp del] digits_loop.simps [simp del]

definition last_digits :: "bytes \<Rightarrow> nat \<Rightarrow> u64 \<Rightarrow> bytes" where
  "last_digits buffer p abs_value =
     (if 10 \<le> abs_value
      then buffer[p - 1 := snd (digits_to_99 ! unat abs_value), p - 2 := fst (digits_to_99 ! unat abs_value)]
      else buffer[p - 1 := 48 + ucast abs_value])"

definition number_buffer_size :: nat where "number_buffer_size = 64"

text \<open>The argument \<open>is_signed\<close> tells the two instances apart; a failing assertion is \<open>Out_Of_Bounds\<close>.\<close>

definition dump_integer :: "bool \<Rightarrow> u64 \<Rightarrow> serializer \<Rightarrow> ser_error + serializer" where
  "dump_integer is_signed x s =
     (if x = 0 then Inr (write_characters [48] s)
      else let buffer = replicate number_buffer_size 0;
               negative = is_signed \<and> sint x < 0;
               buffer = (if negative then buffer[0 := chr CHR ''-''] else buffer);
               abs_value = (if negative then remove_sign x else x);
               n_chars = (if negative then 1 + count_digits abs_value else count_digits abs_value)
           in if \<not> n_chars < number_buffer_size - 1 then Inl Out_Of_Bounds
              else case digits_loop buffer n_chars abs_value of
                (buffer, p, abs_value) \<Rightarrow> Inr (write_characters (take n_chars (last_digits buffer p abs_value)) s))"

section \<open>Values\<close>

text \<open>
  The bits of a double that is neither infinite nor NaN. The digits of such a double are the argument \<open>to_chars\<close>.
\<close>

definition isfinite :: "u64 \<Rightarrow> bool" where
  "isfinite x \<longleftrightarrow> drop_bit 52 x AND 0x7FF \<noteq> 0x7FF"

definition dump_float :: "(u64 \<Rightarrow> bytes) \<Rightarrow> u64 \<Rightarrow> serializer \<Rightarrow> serializer" where
  "dump_float to_chars x s = (if \<not> isfinite x then write_characters (str ''null'') s else write_characters (to_chars x) s)"

definition lead :: "bool \<Rightarrow> u32 \<Rightarrow> serializer \<Rightarrow> ser_error + serializer" where
  "lead pretty_print n s = (if pretty_print then write_indent (unat n) s else Inr s)"

definition newline :: "bool \<Rightarrow> bytes" where
  "newline pretty_print = (if pretty_print then [10] else [])"

definition separator :: "bool \<Rightarrow> bytes" where
  "separator pretty_print = (if pretty_print then str '': '' else str '':'')"

definition dump_key :: "bool \<Rightarrow> bool \<Rightarrow> cstr \<Rightarrow> serializer \<Rightarrow> ser_error + serializer" where
  "dump_key pretty_print ensure_ascii k s =
     bind_ser (dump_escaped k ensure_ascii (write_characters [34] s))
       (\<lambda>s. Inr (write_characters (34 # separator pretty_print) s))"

text \<open>
  \<open>dump_members\<close> and \<open>dump_elements\<close> are the loops over the elements: all but the last one are followed by a comma.
\<close>

function dump :: "(u64 \<Rightarrow> bytes) \<Rightarrow> bool \<Rightarrow> bool \<Rightarrow> u32 \<Rightarrow> u32 \<Rightarrow> json \<Rightarrow> serializer \<Rightarrow> ser_error + serializer"
  and dump_members :: "(u64 \<Rightarrow> bytes) \<Rightarrow> bool \<Rightarrow> bool \<Rightarrow> u32 \<Rightarrow> u32 \<Rightarrow> (cstr \<times> json) list \<Rightarrow> serializer \<Rightarrow> ser_error + serializer"
  and dump_elements :: "(u64 \<Rightarrow> bytes) \<Rightarrow> bool \<Rightarrow> bool \<Rightarrow> u32 \<Rightarrow> u32 \<Rightarrow> json list \<Rightarrow> serializer \<Rightarrow> ser_error + serializer" where
  "dump tc pretty asc step cur (JObject m) s =
     (if m = [] then Inr (write_characters (str ''{}'') s)
      else let new_indent = (if pretty then cur + step else cur);
               s = write_characters (chr CHR ''{'' # newline pretty) s;
               s = (if pretty then grow_indent new_indent s else s)
           in bind_ser (dump_members tc pretty asc step new_indent m s)
                (\<lambda>s. bind_ser (lead pretty cur (write_characters (newline pretty) s))
                       (\<lambda>s. Inr (write_characters [chr CHR ''}''] s))))"
| "dump tc pretty asc step cur (JArray js) s =
     (if js = [] then Inr (write_characters (str ''[]'') s)
      else let new_indent = (if pretty then cur + step else cur);
               s = write_characters (chr CHR ''['' # newline pretty) s;
               s = (if pretty then grow_indent new_indent s else s)
           in bind_ser (dump_elements tc pretty asc step new_indent js s)
                (\<lambda>s. bind_ser (lead pretty cur (write_characters (newline pretty) s))
                       (\<lambda>s. Inr (write_characters [chr CHR '']''] s))))"
| "dump tc pretty asc step cur (JString b) s =
     bind_ser (dump_escaped b asc (write_characters [34] s)) (\<lambda>s. Inr (write_characters [34] s))"
| "dump tc pretty asc step cur (JBool b) s =
     Inr (write_characters (if b then str ''true'' else str ''false'') s)"
| "dump tc pretty asc step cur (JInteger w) s = dump_integer True w s"
| "dump tc pretty asc step cur (JUnsigned w) s = dump_integer False w s"
| "dump tc pretty asc step cur (JFloat w) s = Inr (dump_float tc w s)"
| "dump tc pretty asc step cur JNull s = Inr (write_characters (str ''null'') s)"
| "dump_members tc pretty asc step ind [] s = Inr s"
| "dump_members tc pretty asc step ind ((k, v) # m) s =
     bind_ser (lead pretty ind s)
       (\<lambda>s. bind_ser (dump_key pretty asc k s)
         (\<lambda>s. bind_ser (dump tc pretty asc step ind v s)
           (\<lambda>s. if m = [] then Inr s
                else dump_members tc pretty asc step ind m (write_characters (chr CHR '','' # newline pretty) s))))"
| "dump_elements tc pretty asc step ind [] s = Inr s"
| "dump_elements tc pretty asc step ind (j # js) s =
     bind_ser (lead pretty ind s)
       (\<lambda>s. bind_ser (dump tc pretty asc step ind j s)
         (\<lambda>s. if js = [] then Inr s
              else dump_elements tc pretty asc step ind js (write_characters (chr CHR '','' # newline pretty) s)))"
  by pat_completeness auto
termination
  by (relation "measure (\<lambda>x. case x of
        Inl (tc, p, a, st, cur, j, s) \<Rightarrow> size j
      | Inr (Inl (tc, p, a, st, cur, m, s)) \<Rightarrow> size_list (size_prod (\<lambda>_. 0) size) m
      | Inr (Inr (tc, p, a, st, cur, js, s)) \<Rightarrow> size_list size js)") auto

text \<open>The member function \<^verbatim>\<open>dump\<close> of a value; \<open>None\<close> is the default indentation -1.\<close>

definition basic_json_dump :: "(u64 \<Rightarrow> bytes) \<Rightarrow> nat option \<Rightarrow> u8 \<Rightarrow> bool \<Rightarrow> error_handler \<Rightarrow> json \<Rightarrow> ser_error + bytes" where
  "basic_json_dump tc indent ichar ensure_ascii eh j =
     bind_ser (case indent of
         Some n \<Rightarrow> dump tc True ensure_ascii (of_nat n) 0 j (serializer0 ichar eh)
       | None \<Rightarrow> dump tc False ensure_ascii 0 0 j (serializer0 ichar eh))
       (\<lambda>s. Inr (s_out s))"

section \<open>Integers are printed in decimal\<close>

lemma digits_table_all: "list_all (\<lambda>i. digits_to_99 ! i = (48 + of_nat (i div 10), 48 + of_nat (i mod 10))) [0..<100]"
  by code_simp

lemmas digits_table = all_below [OF digits_table_all]

lemma dec_u_step: "10 \<le> n \<Longrightarrow> dec_u n = dec_u (n div 10) @ [48 + of_nat (n mod 10)]"
  by (simp add: dec_u.simps [of n])

lemma dec_u_small: "n < 10 \<Longrightarrow> dec_u n = [48 + of_nat n]"
  by (simp add: dec_u.simps [of n])

lemma dec_u_two: "10 \<le> n \<Longrightarrow> n < 100 \<Longrightarrow> dec_u n = [48 + of_nat (n div 10), 48 + of_nat (n mod 10)]"
  by (simp add: dec_u_step dec_u_small less_mult_imp_div_less)

lemma dec_u_hundreds:
  assumes "100 \<le> n"
  shows "dec_u n = dec_u (n div 100) @ [48 + of_nat (n mod 100 div 10), 48 + of_nat (n mod 100 mod 10)]"
proof -
  have "dec_u n = dec_u (n div 10) @ [48 + of_nat (n mod 10)]" using assms by (intro dec_u_step) simp
  moreover have "dec_u (n div 10) = dec_u (n div 10 div 10) @ [48 + of_nat (n div 10 mod 10)]"
    using assms by (intro dec_u_step) (simp add: less_eq_div_iff_mult_less_eq)
  moreover have "n div 10 div 10 = n div 100" by (simp add: div_mult2_eq [symmetric])
  moreover have "n div 10 mod 10 = n mod 100 div 10" "n mod 100 mod 10 = n mod 10"
    by (simp_all add: mod_mult2_eq [of n 10 10, simplified] mod_mod_cancel)
  ultimately show ?thesis by simp
qed

lemma count_digits_from: "count_digits_from n x + 1 = n + length (dec_u (unat x))"
proof (induction n x rule: count_digits_from.induct)
  case (1 n x)
  let ?v = "unat x"
  have l2: "length (dec_u v) = 2 + length (dec_u (v div 100))" if "100 \<le> v" for v
    using that by (simp add: dec_u_hundreds [of v])
  have v100: "?v div 100 < 10" if "?v < 1000" using that by (simp add: less_mult_imp_div_less)
  have v1000: "?v div 100 < 100" if "?v < 10000" using that by (simp add: less_mult_imp_div_less)
  consider "?v < 10" | "10 \<le> ?v \<and> ?v < 100" | "100 \<le> ?v \<and> ?v < 1000" | "1000 \<le> ?v \<and> ?v < 10000" | "10000 \<le> ?v"
    by linarith
  then show ?case
  proof cases
    case 1
    then show ?thesis by (simp add: count_digits_from.simps [of n] word_less_nat_alt dec_u_small)
  next
    case 2
    then show ?thesis by (simp add: count_digits_from.simps [of n] word_less_nat_alt dec_u_two)
  next
    case 3
    then show ?thesis using v100 by (simp add: count_digits_from.simps [of n] word_less_nat_alt l2 dec_u_small)
  next
    case 4
    then have "10 \<le> ?v div 100" by (simp add: less_eq_div_iff_mult_less_eq)
    with 4 v1000 show ?thesis by (simp add: count_digits_from.simps [of n] word_less_nat_alt l2 dec_u_two)
  next
    case 5
    then have "100 \<le> ?v div 100" by (simp add: less_eq_div_iff_mult_less_eq)
    with l2 [of ?v] l2 [of "?v div 100"] 5 have "length (dec_u ?v) = 4 + length (dec_u (?v div 10000))"
      by (simp add: div_mult2_eq [symmetric])
    moreover have "count_digits_from (n + 4) (x div 10000) + 1 = n + 4 + length (dec_u (unat (x div 10000)))"
      using 5 by (intro 1) (simp_all add: word_less_nat_alt)
    ultimately show ?thesis using 5 by (simp add: count_digits_from.simps [of n] word_less_nat_alt unat_div)
  qed
qed

lemma count_digits: "count_digits x = length (dec_u (unat x))"
  using count_digits_from [of 1 x] by (simp add: count_digits_def)

text \<open>What the loop leaves: the last digits are in their place and the rest of the buffer is as before.\<close>

lemma digits_loop:
  assumes "digits_loop b p w = (b', p', w')" and "length (dec_u (unat w)) \<le> p" and "p \<le> length b"
  shows "\<exists>X. dec_u (unat w) = dec_u (unat w') @ X \<and> p = p' + length X \<and> take p b' = take p' b @ X \<and>
             drop p b' = drop p b \<and> length b' = length b \<and> unat w' < 100"
  using assms
proof (induction b p w rule: digits_loop.induct)
  case (1 b p w)
  show ?case
  proof (cases "100 \<le> w")
    case False
    with 1(2) show ?thesis by (simp add: digits_loop.simps [of b] word_le_nat_alt)
  next
    case True
    then have v: "100 \<le> unat w" by (simp add: word_le_nat_alt)
    let ?m = "unat w mod 100"
    define b1 where "b1 = b[p - 1 := 48 + of_nat (?m mod 10), p - 2 := 48 + of_nat (?m div 10)]"
    have d: "digits_to_99 ! unat (w mod 100) = (48 + of_nat (?m div 10), 48 + of_nat (?m mod 10))"
      by (simp add: digits_table unat_mod)
    have l: "length (dec_u (unat w)) = length (dec_u (unat (w div 100))) + 2"
      using dec_u_hundreds [OF v] by (simp add: unat_div)
    have run: "digits_loop b1 (p - 2) (w div 100) = (b', p', w')"
      using 1(2) True by (simp add: digits_loop.simps [of b p w] d b1_def)
    have p: "2 \<le> p" "length b1 = length b" using l 1(3) by (simp_all add: b1_def)
    have "\<exists>X. dec_u (unat (w div 100)) = dec_u (unat w') @ X \<and> p - 2 = p' + length X \<and>
        take (p - 2) b' = take p' b1 @ X \<and> drop (p - 2) b' = drop (p - 2) b1 \<and> length b' = length b1 \<and> unat w' < 100"
      using 1(1) [OF True refl] run p l 1(3,4) by (simp add: d b1_def)
    then obtain X where X: "dec_u (unat (w div 100)) = dec_u (unat w') @ X" "p - 2 = p' + length X"
      "take (p - 2) b' = take p' b1 @ X" "drop (p - 2) b' = drop (p - 2) b1" "length b' = length b1" "unat w' < 100"
      by blast
    let ?D = "[48 + of_nat (?m div 10), 48 + of_nat (?m mod 10)] :: bytes"
    have split: "drop (p - 2) b1 = ?D @ drop p b"
      using p 1(4) unfolding b1_def
      by (intro nth_equalityI) (auto simp: nth_append nth_list_update nth_Cons' le_Suc_eq numeral_2_eq_2)
    have "take p b' = take (p - 2) b' @ take 2 (drop (p - 2) b')"
      using take_add [of "p - 2" 2 b'] unfolding le_add_diff_inverse2 [OF p(1)] .
    also have "\<dots> = take p' b1 @ X @ ?D" by (simp add: X(3,4) split)
    also have "take p' b1 = take p' b" using X(2) p by (simp add: b1_def)
    finally have t: "take p b' = take p' b @ X @ ?D" by simp
    moreover have "drop p b' = drop 2 (drop (p - 2) b')" unfolding drop_drop le_add_diff_inverse [OF p(1)] ..
    then have "drop p b' = drop p b" by (simp add: X(4) split)
    moreover have "dec_u (unat w) = dec_u (unat w') @ X @ ?D" using dec_u_hundreds [OF v] X(1) by (simp add: unat_div)
    moreover have "p = p' + length (X @ ?D)" using X(2) p(1) by simp
    ultimately show ?thesis using X(5,6) p(2) by (intro exI [of _ "X @ ?D"]) simp
  qed
qed

lemma last_digits:
  assumes "unat w < 100" and "length (dec_u (unat w)) \<le> p" and "p \<le> length b"
  shows "take p (last_digits b p w) = take (p - length (dec_u (unat w))) b @ dec_u (unat w)"
    and "drop p (last_digits b p w) = drop p b"
proof -
  have "take p (last_digits b p w) = take (p - length (dec_u (unat w))) b @ dec_u (unat w) \<and>
        drop p (last_digits b p w) = drop p b"
  proof (cases "10 \<le> unat w")
    case True
    with assms(1) have d: "dec_u (unat w) = [48 + of_nat (unat w div 10), 48 + of_nat (unat w mod 10)]" by (simp add: dec_u_two)
    with assms(2) have "2 \<le> p" by simp
    with True assms show ?thesis
      by (intro conjI nth_equalityI)
         (auto simp: last_digits_def word_le_nat_alt digits_table d nth_append nth_list_update nth_Cons' le_Suc_eq)
  next
    case False
    then have d: "dec_u (unat w) = [48 + of_nat (unat w)]" by (simp add: dec_u_small)
    with assms(2) have "1 \<le> p" by simp
    moreover have "(ucast w :: u8) = of_nat (unat w)" by (simp add: word_unat_eq_iff unsigned_ucast_eq unsigned_of_nat)
    ultimately show ?thesis using False assms
      by (intro conjI nth_equalityI)
         (auto simp: last_digits_def word_le_nat_alt d nth_append nth_list_update nth_Cons' le_Suc_eq)
  qed
  then show "take p (last_digits b p w) = take (p - length (dec_u (unat w))) b @ dec_u (unat w)"
    and "drop p (last_digits b p w) = drop p b" by simp_all
qed

lemma digits_written:
  assumes "digits_loop b p w = (b', p', w')" and "length (dec_u (unat w)) \<le> p" and "p \<le> length b"
  shows "take p (last_digits b' p' w') = take (p - length (dec_u (unat w))) b @ dec_u (unat w)"
proof -
  obtain X where X: "dec_u (unat w) = dec_u (unat w') @ X" "p = p' + length X" "take p b' = take p' b @ X"
    "length b' = length b" "unat w' < 100"
    using digits_loop [OF assms] by blast
  have l: "length (dec_u (unat w')) \<le> p'" "p' \<le> length b'" using X(1,2,4) assms(2,3) by simp_all
  have "take p (last_digits b' p' w') = take p' (last_digits b' p' w') @ take (length X) (drop p' (last_digits b' p' w'))"
    by (simp add: X(2) take_add)
  also have "\<dots> = take (p' - length (dec_u (unat w'))) b' @ dec_u (unat w') @ take (length X) (drop p' b')"
    using last_digits [OF X(5) l] by simp
  also have "take (length X) (drop p' b') = X"
  proof -
    have "take (length X) (drop p' b') = drop p' (take p b')" by (simp add: X(2) drop_take)
    with X(3) assms(3) X(2) show ?thesis by simp
  qed
  also have "take (p' - length (dec_u (unat w'))) b' = take (p - length (dec_u (unat w))) b"
  proof -
    have "take (p' - length (dec_u (unat w'))) b' = take (p' - length (dec_u (unat w'))) (take p b')" using X(2) by simp
    also have "\<dots> = take (p' - length (dec_u (unat w'))) b" using X(2,3) assms(3) by simp
    finally show ?thesis using X(1,2) by simp
  qed
  finally show ?thesis by (simp add: X(1))
qed

lemma remove_sign: "sint x < 0 \<Longrightarrow> unat (remove_sign x) = nat (- sint x)"
proof -
  assume neg: "sint x < 0"
  have "remove_sign x = - x" by (simp add: remove_sign_def)
  moreover have "- sint x \<le> 2 ^ 63" using sint_ge [of x] by simp
  then have "uint (word_of_int (- sint x) :: u64) = - sint x"
    using neg by (simp add: unsigned_of_int take_bit_int_eq_self_iff del: of_int_minus of_int_sint)
  moreover have "(word_of_int (- sint x) :: u64) = - x" by simp
  ultimately show ?thesis by (metis unat_eq_nat_uint)
qed

lemma unat_nonneg: "\<not> sint (x :: u64) < 0 \<Longrightarrow> unat x = nat (sint x)"
proof -
  assume "\<not> sint x < 0"
  moreover have "sint x < 2 ^ 63" using sint_lt [of x] by simp
  ultimately have "uint (word_of_int (sint x) :: u64) = sint x"
    by (simp add: unsigned_of_int take_bit_int_eq_self_iff del: of_int_sint)
  then show ?thesis by (simp add: unat_eq_nat_uint)
qed

lemma dump_integer_decimal:
  "dump_integer sg x s = Inr (write_characters (if sg then dec_s (sint x) else dec_u (unat x)) s)"
proof (cases "x = 0")
  case True
  then show ?thesis by (simp add: dump_integer_def dec_s_def dec_u_small)
next
  case False
  define neg where "neg = (sg \<and> sint x < 0)"
  define a where "a = (if neg then remove_sign x else x)"
  define b where "b = (if neg then (replicate number_buffer_size 0)[0 := chr CHR ''-''] else replicate number_buffer_size (0 :: u8))"
  define n where "n = of_bool neg + length (dec_u (unat a))"
  obtain b' p' w' where run: "digits_loop b n a = (b', p', w')" by (cases "digits_loop b n a")
  have "unat a < 2 ^ 64" using unsigned_less [of a] by simp
  then have "unat a < 10 ^ 20" by simp
  then have "length (dec_u (unat a)) \<le> 20" by (intro length_dec_u_le) simp_all
  then have n: "n < number_buffer_size - 1" "length (dec_u (unat a)) \<le> n" "n \<le> length b"
    by (simp_all add: n_def number_buffer_size_def b_def)
  have nc: "(if neg then 1 + length (dec_u (unat a)) else length (dec_u (unat a))) = n" by (simp add: n_def)
  have "dump_integer sg x s = Inr (write_characters (take n (last_digits b' p' w')) s)"
    unfolding dump_integer_def Let_def neg_def [symmetric] a_def [symmetric] b_def [symmetric] count_digits nc
    using False n(1) run by simp
  moreover have "take (n - length (dec_u (unat a))) b = (if neg then [chr CHR ''-''] else [])"
    by (simp add: n_def b_def number_buffer_size_def numeral_eq_Suc)
  ultimately have *: "dump_integer sg x s = Inr (write_characters ((if neg then [chr CHR ''-''] else []) @ dec_u (unat a)) s)"
    using digits_written [OF run n(2,3)] by simp
  have "dec_s (sint x) = (if sint x < 0 then chr CHR ''-'' # dec_u (unat (remove_sign x)) else dec_u (unat x))"
    by (simp add: dec_s_def remove_sign unat_nonneg)
  with * show ?thesis by (auto simp: neg_def a_def)
qed

text \<open>
  C13. The integer writer, which fills a buffer of 64 bytes from the end of the number with two digits at a time, prints
  the decimal text of every 64-bit integer, signed and unsigned, the least negative one included, and stays inside the
  buffer.
\<close>

theorem dump_integer_correct:
  "dump_integer is_signed x s = Inr (write_characters (if is_signed then dec_s (sint x) else dec_u (unat x)) s)"
  by (rule dump_integer_decimal)

text \<open>
  The string of blanks is doubled once for each level, so that a large indentation is copied from behind its end.
\<close>

lemma large_indent_overreads: "basic_json_dump tc (Some 1026) 32 False Strict (JArray [JNull]) = Inl Out_Of_Bounds"
  by (simp add: basic_json_dump_def serializer0_def grow_indent_def write_indent_def lead_def newline_def write_characters_def Let_def)

end
