(* ===== verification/Json_Escape.thy ===== *)
theory Json_Escape
  imports Json_Dump
begin

text \<open>
  The string writer of \<^verbatim>\<open>nlohmann::json\<close>: its buffer of 512 bytes is never overrun, whatever the string and the
  error mode, and in the strict mode it accepts exactly the well-formed UTF-8 texts and writes their escaped form.
\<close>

section \<open>The buffer of the string writer is never overrun\<close>

definition buf_inv :: "bool \<Rightarrow> esc_state \<Rightarrow> bool" where
  "buf_inv asc e \<longleftrightarrow> live (ustate e) \<and> bytes_after_last_accept e \<le> 499 \<and>
     (if asc then length (b_used e) \<le> 499
      else length (b_used e) + length (pending (ustate e)) \<le> (if ustate e = 0 then 499 else 503))"

lemmas esc_defs = UTF8_ACCEPT_def UTF8_REJECT_def string_buffer_size_def

lemma decode_next_simps [simp]:
  "ustate (decode_next b e) = next_state (ustate e) b" "b_used (decode_next b e) = b_used e"
  "bytes_after_last_accept (decode_next b e) = bytes_after_last_accept e" "undumped_chars (decode_next b e) = undumped_chars e"
  using decode_state [of "ustate e" "codepoint e" b] by (auto simp: decode_next_def split: prod.split)

lemma write_characters_simps [simp]:
  "s_out (write_characters bs s) = s_out s @ bs" "indent_string (write_characters bs s) = indent_string s"
  "error_handler (write_characters bs s) = error_handler s"
  by (simp_all add: write_characters_def)

lemma length_u_escape [simp]: "length (u_escape c) = 6"
  by (simp add: u_escape_def)

lemma put_codepoint_Inr:
  assumes "length (b_used e) + (if asc then 13 else 7) \<le> 512"
  obtains bs where "put_codepoint asc b e = Inr (e\<lparr>b_used := b_used e @ bs\<rparr>)" and "length bs \<le> 12"
proof -
  have "\<exists>bs. put_codepoint asc b e = Inr (e\<lparr>b_used := b_used e @ bs\<rparr>) \<and> length bs \<le> 12"
  proof (cases "codepoint e \<le> 0xFFFF \<or> asc")
    case True
    with assms show ?thesis
      by (auto simp: put_codepoint_def Let_def buf_put_def buf_fmt_def string_buffer_size_def split: if_splits)
  next
    case False
    then have "0xFFFF < codepoint e" "\<not> asc" by auto
    then have "\<not> codepoint e \<le> 0x1F" "codepoint e \<notin> {8, 9, 10, 12, 13, 0x22, 0x5C}"
      by (auto simp: word_less_nat_alt word_le_nat_alt)
    with assms \<open>\<not> asc\<close> show ?thesis
      by (intro exI [of _ "[b]"]) (simp add: put_codepoint_def Let_def buf_put_def string_buffer_size_def)
  qed
  then show thesis using that by blast
qed

lemma flush_full_cases:
  obtains s' e' where "flush_full s e = (s', e')" and "length (b_used e') \<le> 499" and "ustate e' = ustate e"
    and "codepoint e' = codepoint e" and "bytes_after_last_accept e' = bytes_after_last_accept e"
    and "s' = s\<lparr>s_out := s_out s'\<rparr>" and "s_out s' @ b_used e' = s_out s @ b_used e"
  by (rule that [of "fst (flush_full s e)" "snd (flush_full s e)"])
     (auto simp: flush_full_def write_characters_def string_buffer_size_def)

lemma on_accept_Inr:
  assumes "buf_inv asc e0" and "ustate e = 0" and "b_used e = b_used e0"
  obtains s' e' where "on_accept asc b s e = Inr (s', e')" and "buf_inv asc e'" and "ustate e' = 0"
    and "undumped_chars e' = 0" and "s' = s\<lparr>s_out := s_out s'\<rparr>"
    and "\<forall>bs. put_codepoint asc b e = Inr (e\<lparr>b_used := b_used e @ bs\<rparr>) \<longrightarrow> s_out s' @ b_used e' = s_out s @ b_used e @ bs"
proof -
  have "length (b_used e) + (if asc then 13 else 7) \<le> 512" using assms by (auto simp: buf_inv_def split: if_splits)
  then obtain bs where bs: "put_codepoint asc b e = Inr (e\<lparr>b_used := b_used e @ bs\<rparr>)" "length bs \<le> 12"
    by (rule put_codepoint_Inr)
  obtain s' e' where f: "flush_full s (e\<lparr>b_used := b_used e @ bs\<rparr>) = (s', e')" "length (b_used e') \<le> 499"
    "ustate e' = 0" "s' = s\<lparr>s_out := s_out s'\<rparr>" "s_out s' @ b_used e' = s_out s @ b_used e @ bs"
    by (rule flush_full_cases [of s "e\<lparr>b_used := b_used e @ bs\<rparr>"]) (use assms(2) in auto)
  show thesis
  proof (rule that [of s' "(mark_accept e')\<lparr>undumped_chars := 0\<rparr>"])
    show "on_accept asc b s e = Inr (s', (mark_accept e')\<lparr>undumped_chars := 0\<rparr>)"
      by (simp add: on_accept_def bs f(1))
    show "\<forall>bs'. put_codepoint asc b e = Inr (e\<lparr>b_used := b_used e @ bs'\<rparr>) \<longrightarrow>
            s_out s' @ b_used ((mark_accept e')\<lparr>undumped_chars := 0\<rparr>) = s_out s @ b_used e @ bs'"
      using bs(1) f(5) by (auto simp: mark_accept_def dest: arg_cong [of _ _ b_used])
  qed (use f in \<open>simp_all add: buf_inv_def mark_accept_def live_def pending_def\<close>)
qed

lemma on_reject_Inr:
  assumes "buf_inv asc e0" and "bytes_after_last_accept e = bytes_after_last_accept e0"
  obtains s' e' where "on_reject asc s e = Inr (s', e')" and "buf_inv asc e'" and "undumped_chars e' = 0"
    and "ustate e' = 0" and "error_handler s' = error_handler s"
proof -
  define e1 where "e1 = e\<lparr>b_used := take (bytes_after_last_accept e) (b_used e)\<rparr>"
  have len: "length (b_used e1) \<le> 499" "bytes_after_last_accept e1 \<le> 499"
    using assms by (auto simp: e1_def buf_inv_def min.coboundedI2)
  show thesis
  proof (cases "error_handler s = Replace")
    case False
    with len show thesis
      by (intro that [of s "e1\<lparr>undumped_chars := 0, ustate := UTF8_ACCEPT\<rparr>"])
         (simp_all add: on_reject_def e1_def [symmetric] Let_def buf_inv_def esc_defs live_def pending_def)
  next
    case True
    have "length (replacement asc) \<le> 6" by (simp add: replacement_def)
    with len have p: "buf_put (replacement asc) e1 = Inr (e1\<lparr>b_used := b_used e1 @ replacement asc\<rparr>)"
      by (simp add: buf_put_def string_buffer_size_def)
    obtain s' e' where f: "flush_full s (e1\<lparr>b_used := b_used e1 @ replacement asc\<rparr>) = (s', e')" "length (b_used e') \<le> 499"
      "s' = s\<lparr>s_out := s_out s'\<rparr>"
      by (rule flush_full_cases [of s "e1\<lparr>b_used := b_used e1 @ replacement asc\<rparr>"]) auto
    have "error_handler s' = error_handler s" using f(3) by (metis serializer.select_convs(3) serializer.surjective serializer.update_convs(1))
    with True f p show thesis
      by (intro that [of s' "(mark_accept e')\<lparr>undumped_chars := 0, ustate := UTF8_ACCEPT\<rparr>"])
         (simp_all add: on_reject_def e1_def [symmetric] Let_def buf_inv_def esc_defs live_def pending_def mark_accept_def)
  qed
qed

lemma pending_le: "length (pending st) \<le> 3"
  by (simp add: pending_def)

lemma pending_Nil: "live st \<Longrightarrow> pending st = [] \<longleftrightarrow> st = 0"
  by (auto simp: live_def pending_def)

lemma on_more_Inr:
  assumes "buf_inv asc e" and "next_state (ustate e) b \<notin> {0, 1}"
  obtains e' where "on_more asc b (decode_next b e) = Inr e'" and "buf_inv asc e'"
    and "e' = (decode_next b e)\<lparr>b_used := b_used e @ (if asc then [] else [b]), undumped_chars := undumped_chars e + 1\<rparr>"
proof -
  have l: "live (ustate e)" using assms(1) by (simp add: buf_inv_def)
  let ?st = "next_state (ustate e) b"
  have n: "live ?st" using next_live [OF l, of b] assms(2) by simp
  have "length (pending (ustate e)) = Suc (length (pending ?st))" if "ustate e \<noteq> 0"
    using next_live [OF l, of b] assms(2) pending_Nil [OF l] that by (auto split: list.splits)
  then have len: "length (pending ?st) + (if ustate e = 0 then 0 else 1) \<le> (if ustate e = 0 then 3 else length (pending (ustate e)))"
    using pending_le by simp
  have "length (b_used e) + length (if asc then [] else [b]) \<le> 512"
    using assms(1) by (auto simp: buf_inv_def split: if_splits)
  then show thesis
    using assms n len
    by (intro that [of "(decode_next b e)\<lparr>b_used := b_used e @ (if asc then [] else [b]), undumped_chars := undumped_chars e + 1\<rparr>"])
       (auto simp: on_more_def buf_put_def string_buffer_size_def buf_inv_def split: if_splits)
qed

lemma escape_loop_bounds: "buf_inv asc e \<Longrightarrow> escape_loop asc i r s e \<noteq> Inl Out_Of_Bounds"
proof (induction asc i r s e rule: escape_loop.induct)
  case (1 asc i s e)
  then show ?case by simp
next
  case (2 asc i b r s e)
  let ?e = "decode_next b e"
  consider "next_state (ustate e) b = 0" | "next_state (ustate e) b = 1" | "next_state (ustate e) b \<notin> {0, 1}" by blast
  then show ?case
  proof cases
    case 1
    with "2.prems" obtain s' e' where "on_accept asc b s ?e = Inr (s', e')" "buf_inv asc e'"
      using on_accept_Inr [of asc e ?e b s] by (metis decode_next_simps(1,2))
    with 1 "2.IH"(1) [OF refl _ _ refl] show ?thesis by (simp add: Let_def esc_defs)
  next
    case 2
    obtain s' e' where r: "on_reject asc s ?e = Inr (s', e')" "buf_inv asc e'" "undumped_chars e' = 0"
      using on_reject_Inr [OF "2.prems", of ?e s] by (metis decode_next_simps(3))
    have "buf_inv asc (e'\<lparr>undumped_chars := 0\<rparr>)" using r(2) by (simp add: buf_inv_def)
    with 2 r "2.IH"(2,3) [OF refl _ _ _ _ _ refl] show ?thesis by (simp add: Let_def esc_defs)
  next
    case 3
    with "2.prems" obtain e' where "on_more asc b ?e = Inr e'" "buf_inv asc e'" by (rule on_more_Inr)
    with 3 "2.IH"(4) [OF refl] show ?thesis by (simp add: Let_def esc_defs)
  qed
qed

lemma buf_inv0: "buf_inv asc \<lparr>b_used = [], codepoint = 0, ustate = UTF8_ACCEPT, bytes_after_last_accept = 0, undumped_chars = 0\<rparr>"
  by (simp add: buf_inv_def esc_defs live_def pending_def)

lemma dump_escaped_in_bounds: "dump_escaped str_s asc s \<noteq> Inl Out_Of_Bounds"
proof -
  let ?r = "escape_loop asc 0 str_s s \<lparr>b_used = [], codepoint = 0, ustate = UTF8_ACCEPT, bytes_after_last_accept = 0, undumped_chars = 0\<rparr>"
  have "?r \<noteq> Inl Out_Of_Bounds" by (rule escape_loop_bounds [OF buf_inv0])
  then show ?thesis
    unfolding dump_escaped_def by (cases ?r) (auto simp: escape_end_def split: prod.splits error_handler.splits)
qed

section \<open>What is written for a string\<close>

definition esc_byte :: "u8 \<Rightarrow> bytes" where
  "esc_byte b =
     (if b = 0x08 then [92, chr CHR ''b''] else if b = 0x09 then [92, chr CHR ''t''] else if b = 0x0A then [92, chr CHR ''n'']
      else if b = 0x0C then [92, chr CHR ''f''] else if b = 0x0D then [92, chr CHR ''r''] else if b = 0x22 then [92, 34]
      else if b = 0x5C then [92, 92] else if b \<le> 0x1F then u_escape (ucast b) else [b])"

definition escaped :: "bytes \<Rightarrow> bytes" where
  "escaped s = concat (map esc_byte s)"

lemma escaped_simps [simp]: "escaped [] = []" "escaped (b # s) = esc_byte b @ escaped s"
  by (simp_all add: escaped_def)

lemma esc_byte_high: "0x80 \<le> b \<Longrightarrow> esc_byte b = [b]"
  by (auto simp: esc_byte_def word_le_nat_alt word_unat_eq_iff)

lemma ucast_u16: "(ucast (ucast (b :: u8) :: u32) :: u16) = ucast b"
  by (rule bit_word_eqI) (simp add: bit_simps)

lemma put_ascii:
  assumes "codepoint e = ucast b" and "b < 0x80" and "length (b_used e) + 7 \<le> 512"
  shows "put_codepoint False b e = Inr (e\<lparr>b_used := b_used e @ esc_byte b\<rparr>)"
proof -
  have "(codepoint e = k) = (b = ucast k)" if "unat k < 256" for k
    using that by (simp add: assms(1) word_unat_eq_iff unat_ucast_u32 unsigned_ucast_eq take_bit_nat_eq_self)
  moreover have "codepoint e \<le> 0x1F \<longleftrightarrow> b \<le> 0x1F" "codepoint e \<le> 0xFFFF"
    using u8_less [of b] by (simp_all add: assms(1) word_le_nat_alt unat_ucast_u32)
  ultimately show ?thesis
    using assms(3)
    by (auto simp: put_codepoint_def Let_def esc_byte_def buf_put_def buf_fmt_def string_buffer_size_def assms(1) ucast_u16)
qed

lemma put_multi:
  assumes "0x80 \<le> unat (codepoint e)" and "length (b_used e) + 1 \<le> 512"
  shows "put_codepoint False b e = Inr (e\<lparr>b_used := b_used e @ [b]\<rparr>)"
proof -
  have "codepoint e \<noteq> 8" "codepoint e \<noteq> 9" "codepoint e \<noteq> 10" "codepoint e \<noteq> 12" "codepoint e \<noteq> 13"
    "codepoint e \<noteq> 0x22" "codepoint e \<noteq> 0x5C" "\<not> codepoint e \<le> 0x1F"
    using assms(1) by (auto simp: word_le_nat_alt)
  with assms(2) show ?thesis by (simp add: put_codepoint_def Let_def buf_put_def string_buffer_size_def)
qed

lemma escape_loop_strict:
  assumes "error_handler s = Strict" and "buf_inv False e" and "cp_inv (ustate e) (codepoint e)"
    and "utf8_from (pending (ustate e)) r"
  shows "\<exists>s' e'. escape_loop False i r s e = Inr (s', e') \<and> ustate e' = 0 \<and> s' = s\<lparr>s_out := s_out s'\<rparr> \<and>
    s_out s' @ b_used e' = s_out s @ b_used e @ escaped r"
  using assms
proof (induction r arbitrary: i s e)
  case Nil
  have "live (ustate e)" using Nil.prems(2) by (simp add: buf_inv_def)
  then have "ustate e = 0" using Nil.prems(4) pending_Nil by simp
  then show ?case by (intro exI [of _ s] exI [of _ e]) simp
next
  case (Cons b r)
  let ?e = "decode_next b e" and ?st = "next_state (ustate e) b"
  have l: "live (ustate e)" using Cons.prems(2) by (simp add: buf_inv_def)
  have nr: "?st \<noteq> 1" using next_reject [OF l, of b r] Cons.prems(4) by blast
  then have rest: "utf8_from (pending ?st) r" using utf8_from_next [OF l nr, of r] Cons.prems(4) by simp
  have cp: "codepoint ?e = snd (decode (ustate e) (codepoint e) b)" by (simp add: decode_next_def split: prod.split)
  have ci: "cp_inv ?st (codepoint ?e)"
    using cp_inv_first [of b] cp_inv_cont(1) [OF l _ Cons.prems(3), of b] nr by (cases "ustate e = 0") (simp_all add: cp)
  show ?case
  proof (cases "?st = 0")
    case True
    obtain s1 e1 where a: "on_accept False b s ?e = Inr (s1, e1)" "buf_inv False e1" "ustate e1 = 0" "s1 = s\<lparr>s_out := s_out s1\<rparr>"
      "\<forall>bs. put_codepoint False b ?e = Inr (?e\<lparr>b_used := b_used ?e @ bs\<rparr>) \<longrightarrow> s_out s1 @ b_used e1 = s_out s @ b_used ?e @ bs"
      using on_accept_Inr [OF Cons.prems(2), of ?e b s] True by (metis decode_next_simps(1,2))
    have len: "length (b_used ?e) + 7 \<le> 512" using Cons.prems(2) by (auto simp: buf_inv_def split: if_splits)
    have "put_codepoint False b ?e = Inr (?e\<lparr>b_used := b_used ?e @ esc_byte b\<rparr>)"
    proof (cases "ustate e = 0")
      case True
      with \<open>?st = 0\<close> have b: "b < 0x80" by (auto simp: next_accept utf8_follow_def split: if_splits)
      then have "unat (codepoint ?e) = unat b"
        using codep_class(1) [OF refl refl, of b "codepoint e"] True by (simp add: cp word_less_nat_alt)
      then have "codepoint ?e = ucast b" by (simp add: word_unat_eq_iff unat_ucast_u32)
      then show ?thesis using b len by (rule put_ascii)
    next
      case False
      from cp_inv_cont(2,3) [OF l this Cons.prems(3) nr] True have "0x80 \<le> unat (codepoint ?e)" "0x80 \<le> b"
        by (simp_all add: cp word_le_nat_alt)
      with len show ?thesis by (simp add: put_multi esc_byte_high)
    qed
    with a(5) have o: "s_out s1 @ b_used e1 = s_out s @ b_used e @ esc_byte b" by simp
    have "error_handler s1 = Strict" using a(4) Cons.prems(1) by (metis serializer.select_convs(3) serializer.surjective serializer.update_convs(1))
    moreover have "cp_inv (ustate e1) (codepoint e1)" by (simp add: a(3) cp_inv_def)
    ultimately obtain s' e' where r: "escape_loop False (i + 1) r s1 e1 = Inr (s', e')" "ustate e' = 0"
      "s' = s1\<lparr>s_out := s_out s'\<rparr>" "s_out s' @ b_used e' = s_out s1 @ b_used e1 @ escaped r"
      using Cons.IH [of s1 e1 "i + 1"] a(2,3) rest True by auto
    have "s' = s\<lparr>s_out := s_out s'\<rparr>" by (subst r(3), subst a(4)) simp
    moreover have "s_out s' @ b_used e' = s_out s @ b_used e @ escaped (b # r)" using r(4) o by (metis append_assoc escaped_simps(2))
    moreover have "escape_loop False i (b # r) s e = Inr (s', e')" using a r True by (simp add: Let_def esc_defs)
    ultimately show ?thesis using r(2) by blast
  next
    case False
    obtain e1 where m: "on_more False b ?e = Inr e1" "buf_inv False e1"
      "e1 = ?e\<lparr>b_used := b_used e @ [b], undumped_chars := undumped_chars e + 1\<rparr>"
      using on_more_Inr [OF Cons.prems(2), of b] nr False by auto
    have "0x80 \<le> b"
    proof (cases "ustate e = 0")
      case True
      with False show ?thesis by (simp add: next_accept utf8_follow_def not_less split: if_splits)
    qed (use cp_inv_cont(3) [OF l _ Cons.prems(3) nr] in \<open>simp add: word_le_nat_alt\<close>)
    then have eb: "esc_byte b = [b]" by (rule esc_byte_high)
    have "cp_inv (ustate e1) (codepoint e1)" "utf8_from (pending (ustate e1)) r" using ci rest by (simp_all add: m(3))
    then obtain s' e' where r: "escape_loop False (i + 1) r s e1 = Inr (s', e')" "ustate e' = 0"
      "s' = s\<lparr>s_out := s_out s'\<rparr>" "s_out s' @ b_used e' = s_out s @ b_used e1 @ escaped r"
      using Cons.IH [of s e1 "i + 1"] Cons.prems(1) m(2) by auto
    have "escape_loop False i (b # r) s e = Inr (s', e')" using m r(1) nr False by (simp add: Let_def esc_defs)
    moreover have "s_out s' @ b_used e' = s_out s @ b_used e @ escaped (b # r)" using r(4) m(3) eb by simp
    ultimately show ?thesis using r(2,3) by blast
  qed
qed

lemma serializer_out: "s' = s\<lparr>s_out := s_out s'\<rparr> \<Longrightarrow> s_out s' @ bs = s_out s @ t \<Longrightarrow> write_characters bs s' = write_characters t s"
  unfolding write_characters_def by (cases s, cases s') auto

lemma dump_escaped_utf8:
  assumes "error_handler s = Strict" and "utf8 b"
  shows "dump_escaped b False s = Inr (write_characters (escaped b) s)"
proof -
  let ?e = "\<lparr>b_used = [], codepoint = 0, ustate = UTF8_ACCEPT, bytes_after_last_accept = 0, undumped_chars = 0\<rparr>"
  have p: "cp_inv (ustate ?e) (codepoint ?e)" "utf8_from (pending (ustate ?e)) b"
    using assms(2) by (simp_all add: cp_inv_def esc_defs pending_def utf8_def)
  obtain s' e' where r: "escape_loop False 0 b s ?e = Inr (s', e')" "ustate e' = 0" "s' = s\<lparr>s_out := s_out s'\<rparr>"
    "s_out s' @ b_used e' = s_out s @ escaped b"
    using escape_loop_strict [OF assms(1) buf_inv0 p, of 0] by auto
  have "(if 0 < length (b_used e') then write_characters (b_used e') s' else s') = write_characters (b_used e') s'"
    by (simp add: write_characters_def)
  with r serializer_out [OF r(3,4)] show ?thesis
    by (simp add: dump_escaped_def escape_end_def UTF8_ACCEPT_def)
qed

text \<open>Evaluation takes the short way when it exists.\<close>

lemma dump_escaped_code [code]:
  "dump_escaped b asc s =
     (if \<not> asc \<and> error_handler s = Strict \<and> utf8 b then Inr (write_characters (escaped b) s)
      else bind_ser (escape_loop asc 0 b s
             \<lparr>b_used = [], codepoint = 0, ustate = UTF8_ACCEPT, bytes_after_last_accept = 0, undumped_chars = 0\<rparr>)
             (escape_end asc b))"
  using dump_escaped_utf8 [of s b] by (auto simp: dump_escaped_def)

text \<open>A text that is not UTF-8 is refused.\<close>

lemma escape_loop_refuses:
  assumes "error_handler s = Strict" and "buf_inv asc e" and "\<not> utf8_from (pending (ustate e)) r"
  shows "case escape_loop asc i r s e of Inl err \<Rightarrow> True | Inr (s', e') \<Rightarrow> ustate e' \<noteq> 0 \<and> error_handler s' = Strict"
  using assms
proof (induction asc i r s e rule: escape_loop.induct)
  case (1 asc i s e)
  then show ?case by (auto simp: pending_def)
next
  case (2 asc i b r s e)
  let ?st = "next_state (ustate e) b" and ?e = "decode_next b e"
  have l: "live (ustate e)" using "2.prems" by (simp add: buf_inv_def)
  show ?case
  proof (cases "?st = 1")
    case True
    with "2.prems" show ?thesis by (simp add: Let_def esc_defs)
  next
    case nr: False
    then have rest: "\<not> utf8_from (pending ?st) r" using utf8_from_next [OF l nr, of r] "2.prems"(3) by simp
    show ?thesis
    proof (cases "?st = 0")
      case True
      obtain s1 e1 where a: "on_accept asc b s ?e = Inr (s1, e1)" "buf_inv asc e1" "ustate e1 = 0" "s1 = s\<lparr>s_out := s_out s1\<rparr>"
        using on_accept_Inr [OF "2.prems"(2), of ?e b s] True by (metis decode_next_simps(1,2))
      have "error_handler s1 = Strict" using a(4) "2.prems"(1) by (metis serializer.select_convs(3) serializer.surjective serializer.update_convs(1))
      with a True rest "2.IH"(1) [OF refl _ _ refl, of s1 e1] show ?thesis by (simp add: Let_def esc_defs)
    next
      case False
      have "?st \<notin> {0, 1}" using nr False by simp
      then obtain e1 where m: "on_more asc b ?e = Inr e1" "buf_inv asc e1"
        "e1 = ?e\<lparr>b_used := b_used e @ (if asc then [] else [b]), undumped_chars := undumped_chars e + 1\<rparr>"
        by (rule on_more_Inr [OF "2.prems"(2)])
      have "ustate e1 = ?st" by (simp add: m(3))
      with m(1,2) nr False rest "2.prems"(1) "2.IH"(4) [OF refl, of e1] show ?thesis by (simp add: Let_def esc_defs)
    qed
  qed
qed

lemma dump_escaped_not_utf8:
  assumes "error_handler s = Strict" and "\<not> utf8 b"
  shows "\<exists>err. dump_escaped b asc s = Inl err \<and> err \<noteq> Out_Of_Bounds"
proof -
  let ?e = "\<lparr>b_used = [], codepoint = 0, ustate = UTF8_ACCEPT, bytes_after_last_accept = 0, undumped_chars = 0\<rparr>"
  have "\<not> utf8_from (pending (ustate ?e)) b" using assms(2) by (simp add: esc_defs pending_def utf8_def)
  from escape_loop_refuses [OF assms(1) buf_inv0 this, of asc 0] have "\<exists>err. dump_escaped b asc s = Inl err"
    unfolding dump_escaped_def
    by (cases "escape_loop asc 0 b s ?e") (auto simp: escape_end_def UTF8_ACCEPT_def split: prod.splits)
  with dump_escaped_in_bounds [of b asc s] show ?thesis by auto
qed

text \<open>
  C14. The string writer never writes behind its buffer of 512 bytes, whatever the string, the error mode and the
  encoding, replacement characters and unfinished characters at the end included.
\<close>

theorem dump_escaped_confined: "dump_escaped b asc s \<noteq> Inl Out_Of_Bounds"
  by (rule dump_escaped_in_bounds)

text \<open>
  C15. In the strict mode the string writer accepts exactly the well-formed UTF-8 texts: it writes the text with
  its special characters escaped, and throws on every other byte sequence (overlong forms, surrogates, values above
  U+10FFFF, unexpected and missing continuation bytes).
\<close>

theorem dump_escaped_correct:
  assumes "error_handler s = Strict"
  shows "if utf8 b then dump_escaped b False s = Inr (write_characters (escaped b) s)
         else \<exists>i c. dump_escaped b False s \<in> {Inl (Invalid_UTF8 i c), Inl (Incomplete_UTF8 c)}"
proof (cases "utf8 b")
  case False
  from dump_escaped_not_utf8 [OF assms this, of False] obtain e where "dump_escaped b False s = Inl e" "e \<noteq> Out_Of_Bounds" by blast
  with False show ?thesis by (cases e) auto
qed (simp add: dump_escaped_utf8 [OF assms])

theorem dump_escaped_correct_witness:
  "dump_escaped [0xC3, 0xA9, 34] False (serializer0 32 Strict) = Inr (write_characters [0xC3, 0xA9, 92, 34] (serializer0 32 Strict)) \<and>
   (\<exists>i c. dump_escaped [0xC0, 0x80] False (serializer0 32 Strict) \<in> {Inl (Invalid_UTF8 i c), Inl (Incomplete_UTF8 c)})"
proof -
  have s: "error_handler (serializer0 32 Strict) = Strict" by (simp add: serializer0_def)
  have "utf8 [0xC3, 0xA9, 34]" "escaped [0xC3, 0xA9, 34] = [0xC3, 0xA9, 92, 34]" "\<not> utf8 [0xC0, 0x80]" by code_simp+
  with dump_escaped_correct [OF s, of "[0xC3, 0xA9, 34]"] dump_escaped_correct [OF s, of "[0xC0, 0x80]"] show ?thesis by simp
qed

end
