(* ===== verification/Json_Text.thy ===== *)
theory Json_Text
  imports Json_Escape
begin

text \<open>
  A grammar of the texts of a value, as a specification, and that \<open>dump\<close> writes one of them.
\<close>

section \<open>The texts of a value\<close>

text \<open>
  The texts that stand for a value: white space may stand around every token; integers and strings are written as the
  serializer writes them.
\<close>

definition ws :: "bytes \<Rightarrow> bool" where
  "ws s \<longleftrightarrow> list_all (\<lambda>c. c = 32 \<or> c = 9 \<or> c = 10 \<or> c = 13) s"

lemma ws_simps [simp]: "ws []" "ws (c # s) \<longleftrightarrow> (c = 32 \<or> c = 9 \<or> c = 10 \<or> c = 13) \<and> ws s" "ws (s @ t) \<longleftrightarrow> ws s \<and> ws t"
  by (simp_all add: ws_def)

definition json_quoted :: "bytes \<Rightarrow> bytes" where
  "json_quoted b = 34 # escaped b @ [34]"

inductive value_text :: "json \<Rightarrow> bytes \<Rightarrow> bool"
  and elements_text :: "json list \<Rightarrow> bytes \<Rightarrow> bool"
  and members_text :: "(cstr \<times> json) list \<Rightarrow> bytes \<Rightarrow> bool" where
  null: "value_text JNull (str ''null'')"
| true: "value_text (JBool True) (str ''true'')"
| false: "value_text (JBool False) (str ''false'')"
| unsigned: "value_text (JUnsigned w) (dec_u (unat w))"
| integer: "value_text (JInteger w) (dec_s (sint w))"
| string: "utf8 b \<Longrightarrow> value_text (JString b) (json_quoted b)"
| empty_array: "ws w \<Longrightarrow> value_text (JArray []) (91 # w @ [93])"
| array: "elements_text js t \<Longrightarrow> value_text (JArray js) (91 # t @ [93])"
| empty_object: "ws w \<Longrightarrow> value_text (JObject []) (123 # w @ [125])"
| obj: "members_text m t \<Longrightarrow> value_text (JObject m) (123 # t @ [125])"
| last_element: "ws w \<Longrightarrow> value_text j t \<Longrightarrow> ws w' \<Longrightarrow> elements_text [j] (w @ t @ w')"
| element: "ws w \<Longrightarrow> value_text j t \<Longrightarrow> ws w' \<Longrightarrow> elements_text js ts \<Longrightarrow> elements_text (j # js) (w @ t @ w' @ 44 # ts)"
| last_member: "ws w \<Longrightarrow> utf8 k \<Longrightarrow> ws w1 \<Longrightarrow> ws w2 \<Longrightarrow> value_text v t \<Longrightarrow> ws w3 \<Longrightarrow>
    members_text [(k, v)] (w @ json_quoted k @ w1 @ 58 # w2 @ t @ w3)"
| member: "ws w \<Longrightarrow> utf8 k \<Longrightarrow> ws w1 \<Longrightarrow> ws w2 \<Longrightarrow> value_text v t \<Longrightarrow> ws w3 \<Longrightarrow> members_text m ts \<Longrightarrow>
    members_text ((k, v) # m) (w @ json_quoted k @ w1 @ 58 # w2 @ t @ w3 @ 44 # ts)"

lemma elements_lead: "elements_text js t \<Longrightarrow> ws w \<Longrightarrow> elements_text js (w @ t)"
proof (erule elements_text.cases, goal_cases)
  case (1 w0 j t0 w')
  then show ?case using last_element [of "w @ w0" j t0 w'] by simp
next
  case (2 w0 j t0 w' js' ts)
  then show ?case using element [of "w @ w0" j t0 w' js' ts] by simp
qed

lemma members_lead: "members_text m t \<Longrightarrow> ws w \<Longrightarrow> members_text m (w @ t)"
proof (erule members_text.cases, goal_cases)
  case (1 w0 k w1 w2 v t0 w3)
  then show ?case using last_member [of "w @ w0" k w1 w2 v t0 w3] by simp
next
  case (2 w0 k w1 w2 v t0 w3 m' ts)
  then show ?case using member [of "w @ w0" k w1 w2 v t0 w3 m' ts] by simp
qed

lemma elements_trail: "elements_text js t \<Longrightarrow> ws w \<Longrightarrow> elements_text js (t @ w)"
proof (induction js arbitrary: t)
  case (Cons j js)
  from Cons.prems(1) show ?case
  proof (rule elements_text.cases, goal_cases)
    case (1 w0 j' t0 w')
    then show ?case using last_element [of w0 j' t0 "w' @ w"] Cons.prems(2) by simp
  next
    case (2 w0 j' t0 w' js' ts)
    then show ?case using element [of w0 j' t0 w' js' "ts @ w"] Cons.IH [of ts] Cons.prems(2) by simp
  qed
qed (auto elim: elements_text.cases)

lemma members_trail: "members_text m t \<Longrightarrow> ws w \<Longrightarrow> members_text m (t @ w)"
proof (induction m arbitrary: t)
  case (Cons kv m)
  from Cons.prems(1) show ?case
  proof (rule members_text.cases, goal_cases)
    case (1 w0 k w1 w2 v t0 w3)
    then show ?case using last_member [of w0 k w1 w2 v t0 "w3 @ w"] Cons.prems(2) by simp
  next
    case (2 w0 k w1 w2 v t0 w3 m' ts)
    then show ?case using member [of w0 k w1 w2 v t0 w3 m' "ts @ w"] Cons.IH [of ts] Cons.prems(2) by simp
  qed
qed (auto elim: members_text.cases)

lemma text_induct [case_names null bool unsigned integer float string array obj no_members member no_elements element]:
  assumes "P JNull" and "\<And>b. P (JBool b)" and "\<And>w. P (JUnsigned w)" and "\<And>w. P (JInteger w)" and "\<And>w. P (JFloat w)"
    and "\<And>b. P (JString b)" and "\<And>js. R js \<Longrightarrow> P (JArray js)" and "\<And>m. Q m \<Longrightarrow> P (JObject m)"
    and "Q []" and "\<And>k v m. P v \<Longrightarrow> Q m \<Longrightarrow> Q ((k, v) # m)" and "R []" and "\<And>j js. P j \<Longrightarrow> R js \<Longrightarrow> R (j # js)"
  shows "P j" and "Q m" and "R js"
proof -
  have R: "(\<And>j. j \<in> set js \<Longrightarrow> P j) \<Longrightarrow> R js" for js using assms(11,12) by (induction js) auto
  have Q: "(\<And>k v. (k, v) \<in> set m \<Longrightarrow> P v) \<Longrightarrow> Q m" for m
  proof (induction m)
    case (Cons kv m)
    obtain k v where kv: "kv = (k, v)" by (cases kv)
    have "P v" using Cons.prems [of k v] kv by simp
    moreover have "Q m" using Cons.prems by (intro Cons.IH) auto
    ultimately show ?case unfolding kv by (rule assms(10))
  qed (rule assms(9))
  have P: "P j" for j
  proof (induction j)
    case (JObject m)
    then show ?case by (intro assms(8) Q) (auto simp: snds.intros)
  qed (use assms R in auto)
  show "P j" by (rule P)
  show "Q m" by (rule Q) (rule P)
  show "R js" by (rule R) (rule P)
qed

section \<open>What is written for a value\<close>

text \<open>\<open>extends s s' t\<close>: from \<open>s\<close> to \<open>s'\<close> the text \<open>t\<close> was written and the indentation string may have grown.\<close>

definition extends :: "serializer \<Rightarrow> serializer \<Rightarrow> bytes \<Rightarrow> bool" where
  "extends s s' t \<longleftrightarrow> error_handler s' = error_handler s \<and> s_out s' = s_out s @ t \<and>
     length (indent_string s) \<le> length (indent_string s') \<and> (ws (indent_string s) \<longrightarrow> ws (indent_string s'))"

definition ser_ok :: "bool \<Rightarrow> u32 \<Rightarrow> u32 \<Rightarrow> serializer \<Rightarrow> bool" where
  "ser_ok pretty step cur s \<longleftrightarrow> error_handler s = Strict \<and> ws (indent_string s) \<and>
     (pretty \<longrightarrow> unat step \<le> 512 \<and> 512 \<le> length (indent_string s) \<and> unat cur \<le> length (indent_string s))"

lemma extends_trans: "extends s s1 t1 \<Longrightarrow> extends s1 s2 t2 \<Longrightarrow> extends s s2 (t1 @ t2)"
  by (auto simp: extends_def)

lemma extends_write: "extends s (write_characters t s) t"
  by (simp add: extends_def)

lemma extends_ok: "extends s s' t \<Longrightarrow> ser_ok p step cur s \<Longrightarrow> ser_ok p step cur s'"
  by (auto simp: extends_def ser_ok_def)

lemma grow_ok:
  assumes "ser_ok True step cur s"
  shows "extends s (grow_indent (cur + step) s) []" and "ser_ok True step (cur + step) (grow_indent (cur + step) s)"
proof -
  show "extends s (grow_indent (cur + step) s) []"
    by (auto simp: extends_def grow_indent_def ws_def list_all_iff)
  have "unat (cur + step) \<le> unat cur + unat step" by (simp add: unat_word_ariths)
  with assms show "ser_ok True step (cur + step) (grow_indent (cur + step) s)"
    by (auto simp: ser_ok_def grow_indent_def ws_def list_all_iff)
qed

lemma lead_ok:
  assumes "ser_ok p step cur s"
  obtains s' w where "lead p cur s = Inr s'" and "extends s s' w" and "ws w"
proof (cases p)
  case True
  with assms have "unat cur \<le> length (indent_string s)" "ws (indent_string s)" by (simp_all add: ser_ok_def)
  moreover from this have "ws (take (unat cur) (indent_string s))" by (auto simp: ws_def list_all_iff dest: in_set_takeD)
  ultimately show thesis
    using True
    by (intro that [of "write_characters (take (unat cur) (indent_string s)) s" "take (unat cur) (indent_string s)"])
       (auto simp: lead_def write_indent_def extends_write)
next
  case False
  then show thesis by (intro that [of s "[]"]) (simp_all add: lead_def extends_def)
qed

lemma dump_key_ok:
  assumes "ser_ok p step cur s" and "utf8 k"
  obtains s' w where "dump_key p False k s = Inr s'" and "extends s s' (json_quoted k @ 58 # w)" and "ws w"
proof -
  have "error_handler s = Strict" using assms(1) by (simp add: ser_ok_def)
  then show thesis using assms(2)
    by (intro that [of "write_characters (34 # separator p) (write_characters (escaped k) (write_characters [34] s))" "if p then [32] else []"])
       (simp_all add: dump_key_def dump_escaped_utf8 extends_def json_quoted_def separator_def bytes_simps)
qed

lemma newline_ws: "ws (newline p)"
  by (simp add: newline_def)

text \<open>Opening and closing of arrays and objects.\<close>

lemma open_ok:
  assumes "ser_ok p step cur s" and "s1 = write_characters (c # newline p) s"
    and "s2 = (if p then grow_indent (cur + step) s1 else s1)"
  shows "extends s s2 (c # newline p)" and "ser_ok p step (if p then cur + step else cur) s2"
proof -
  have e: "extends s s1 (c # newline p)" by (simp add: assms(2) extends_write)
  have ok: "ser_ok p step cur s1" by (rule extends_ok [OF e assms(1)])
  show "extends s s2 (c # newline p)"
    using e extends_trans [OF e grow_ok(1)] ok by (cases p) (simp_all add: assms(3))
  show "ser_ok p step (if p then cur + step else cur) s2"
    using ok grow_ok(2) [of step cur s1] by (cases p) (simp_all add: assms(3))
qed

lemma close_ok:
  assumes "ser_ok p step cur s"
  obtains s' w where "bind_ser (lead p cur (write_characters (newline p) s)) (\<lambda>s. Inr (write_characters [c] s)) = Inr s'"
    and "extends s s' (w @ [c])" and "ws w"
proof -
  have "ser_ok p step cur (write_characters (newline p) s)" by (rule extends_ok [OF extends_write assms])
  then obtain s' w where "lead p cur (write_characters (newline p) s) = Inr s'"
    "extends (write_characters (newline p) s) s' w" "ws w" by (rule lead_ok)
  then show thesis
    using extends_trans [OF extends_write extends_trans [OF _ extends_write], of "newline p" s s' w "[c]"]
    by (intro that [of "write_characters [c] s'" "newline p @ w"]) (simp_all add: newline_ws)
qed


lemma container_ok:
  assumes "ser_ok p step cur s" and "ni = (if p then cur + step else cur)"
    and "\<And>s2. ser_ok p step ni s2 \<Longrightarrow> \<exists>s3 t. f ni s2 = Inr s3 \<and> extends s2 s3 t \<and> Q t"
  shows "\<exists>s' t w. (let new_indent = (if p then cur + step else cur);
                   s = write_characters (c # newline p) s;
                   s = (if p then grow_indent new_indent s else s)
               in bind_ser (f new_indent s) (\<lambda>s. bind_ser (lead p cur (write_characters (newline p) s))
                                        (\<lambda>s. Inr (write_characters [c'] s)))) = Inr s' \<and>
           extends s s' (c # (newline p @ t @ w) @ [c']) \<and> Q t \<and> ws w"
proof -
  define s1 where "s1 = write_characters (c # newline p) s"
  define s2 where "s2 = (if p then grow_indent (cur + step) s1 else s1)"
  have s2: "(if p then grow_indent ni s1 else s1) = s2" by (simp add: s2_def assms(2))
  note o = open_ok [OF assms(1) s1_def s2_def]
  obtain s3 t where d: "f ni s2 = Inr s3" "extends s2 s3 t" "Q t" using assms(3) o(2) assms(2) by blast
  have ok: "ser_ok p step cur s3" by (rule extends_ok [OF extends_trans [OF o(1) d(2)] assms(1)])
  obtain s4 w where c: "bind_ser (lead p cur (write_characters (newline p) s3)) (\<lambda>s. Inr (write_characters [c'] s)) = Inr s4"
    "extends s3 s4 (w @ [c'])" "ws w" by (rule close_ok [OF ok])
  have "bind_ser (f ni s2) (\<lambda>s. bind_ser (lead p cur (write_characters (newline p) s)) (\<lambda>s. Inr (write_characters [c'] s))) = Inr s4"
    by (simp add: d(1) c(1))
  moreover have "extends s s4 (c # (newline p @ t @ w) @ [c'])"
    using extends_trans [OF extends_trans [OF o(1) d(2)] c(2)] by simp
  ultimately show ?thesis
    unfolding Let_def s1_def [symmetric] assms(2) [symmetric] s2 using c(3) d(3) by blast
qed

text \<open>Values without doubles, over UTF-8 strings, are written as one of their texts.\<close>

lemma dump_text:
  "asc = False \<Longrightarrow> ser_ok p step cur s \<Longrightarrow> json_utf8 utf8 j \<Longrightarrow> json_std j \<Longrightarrow>
     \<exists>s' t. dump tc p asc step cur j s = Inr s' \<and> extends s s' t \<and> value_text j t"
  "asc = False \<Longrightarrow> ser_ok p step cur s \<Longrightarrow> m \<noteq> [] \<Longrightarrow> list_all (\<lambda>(k, v). utf8 k \<and> json_utf8 utf8 v \<and> json_std v) m \<Longrightarrow>
     \<exists>s' t. dump_members tc p asc step cur m s = Inr s' \<and> extends s s' t \<and> members_text m t"
  "asc = False \<Longrightarrow> ser_ok p step cur s \<Longrightarrow> js \<noteq> [] \<Longrightarrow> list_all (\<lambda>v. json_utf8 utf8 v \<and> json_std v) js \<Longrightarrow>
     \<exists>s' t. dump_elements tc p asc step cur js s = Inr s' \<and> extends s s' t \<and> elements_text js t"
proof (induction j and m and js arbitrary: cur s and cur s and cur s rule: text_induct)
  case (obj m)
  show ?case
  proof (cases "m = []")
    case True
    then show ?thesis
      using empty_object [of "[]"] extends_write [of s "str ''{}''"] by (auto simp: bytes_simps)
  next
    case False
    have "list_all (\<lambda>(k, v). utf8 k \<and> json_utf8 utf8 v \<and> json_std v) m"
      using obj.prems(3,4) by (auto simp: list_all_iff split: prod.splits)
    then have "\<exists>s3 t. dump_members tc p asc step ni m s2 = Inr s3 \<and> extends s2 s3 t \<and> members_text m t"
      if "ser_ok p step ni s2" for ni s2 using obj.IH [OF obj.prems(1) that False] by blast
    from container_ok [OF obj.prems(2) refl, where f = "\<lambda>ni. dump_members tc p asc step ni m" and Q = "members_text m" and c = "chr CHR ''{''" and c' = "chr CHR ''}''", OF this] obtain s' t w
      where "dump tc p asc step cur (JObject m) s = Inr s'" "extends s s' (chr CHR ''{'' # (newline p @ t @ w) @ [chr CHR ''}''])"
        "members_text m t" "ws w" using False by auto
    moreover from this have "value_text (JObject m) (123 # (newline p @ t @ w) @ [125])"
      by (intro value_text_elements_text_members_text.obj members_lead members_trail newline_ws)
    ultimately show ?thesis by (auto simp: bytes_simps)
  qed
next
  case (array js)
  show ?case
  proof (cases "js = []")
    case True
    then show ?thesis
      using empty_array [of "[]"] extends_write [of s "str ''[]''"] by (auto simp: bytes_simps)
  next
    case False
    have "list_all (\<lambda>v. json_utf8 utf8 v \<and> json_std v) js"
      using array.prems(3,4) by (auto simp: list_all_iff)
    then have "\<exists>s3 t. dump_elements tc p asc step ni js s2 = Inr s3 \<and> extends s2 s3 t \<and> elements_text js t"
      if "ser_ok p step ni s2" for ni s2 using array.IH [OF array.prems(1) that False] by blast
    from container_ok [OF array.prems(2) refl, where f = "\<lambda>ni. dump_elements tc p asc step ni js" and Q = "elements_text js" and c = "chr CHR ''[''" and c' = "chr CHR '']''", OF this] obtain s' t w
      where "dump tc p asc step cur (JArray js) s = Inr s'" "extends s s' (chr CHR ''['' # (newline p @ t @ w) @ [chr CHR '']''])"
        "elements_text js t" "ws w" using False by auto
    moreover from this have "value_text (JArray js) (91 # (newline p @ t @ w) @ [93])"
      by (intro value_text_elements_text_members_text.array elements_lead elements_trail newline_ws)
    ultimately show ?thesis by (auto simp: bytes_simps)
  qed
next
  case (string b)
  then have "error_handler s = Strict" by (simp add: ser_ok_def)
  with string extends_write [of s "json_quoted b"] show ?case
    using value_text_elements_text_members_text.string [of b]
    by (auto simp: dump_escaped_utf8 json_quoted_def write_characters_def)
next
  case (member k v m)
  from member.prems(4) have kv: "utf8 k" "json_utf8 utf8 v" "json_std v"
    "list_all (\<lambda>(k, v). utf8 k \<and> json_utf8 utf8 v \<and> json_std v) m" by simp_all
  obtain s1 w where l: "lead p cur s = Inr s1" "extends s s1 w" "ws w" by (rule lead_ok [OF member.prems(2)])
  note ok1 = extends_ok [OF l(2) member.prems(2)]
  obtain s2 w1 where k: "dump_key p False k s1 = Inr s2" "extends s1 s2 (json_quoted k @ 58 # w1)" "ws w1"
    by (rule dump_key_ok [OF ok1 kv(1)])
  note ok2 = extends_ok [OF k(2) ok1]
  obtain s3 t where d: "dump tc p asc step cur v s2 = Inr s3" "extends s2 s3 t" "value_text v t"
    using member.IH(1) [OF member.prems(1) ok2 kv(2,3)] by blast
  note x3 = extends_trans [OF extends_trans [OF l(2) k(2)] d(2)]
  show ?case
  proof (cases "m = []")
    case True
    then show ?thesis
      using last_member [OF l(3) kv(1) _ k(3) d(3), of "[]" "[]"] l(1) k(1) d(1) x3 member.prems(1) by auto
  next
    case False
    define s4 where "s4 = write_characters (chr CHR '','' # newline p) s3"
    have x4: "extends s s4 ((w @ json_quoted k @ 58 # w1) @ t @ chr CHR '','' # newline p)"
      using extends_trans [OF x3 extends_write] by (simp add: s4_def)
    obtain s5 ts where r: "dump_members tc p asc step cur m s4 = Inr s5" "extends s4 s5 ts" "members_text m ts"
      using member.IH(2) [OF member.prems(1) extends_ok [OF x4 member.prems(2)] False kv(4)] by blast
    have "members_text ((k, v) # m) (w @ json_quoted k @ [] @ 58 # w1 @ t @ [] @ 44 # (newline p @ ts))"
      by (rule value_text_elements_text_members_text.member) (use l k d kv members_lead [OF r(3) newline_ws] in simp_all)
    moreover have "dump_members tc p asc step cur ((k, v) # m) s = Inr s5"
      using False l(1) k(1) d(1) r(1) member.prems(1) by (simp add: s4_def)
    ultimately show ?thesis using extends_trans [OF x4 r(2)] by (auto simp: bytes_simps)
  qed
next
  case (element j js)
  from element.prems(4) have kv: "json_utf8 utf8 j" "json_std j"
    "list_all (\<lambda>v. json_utf8 utf8 v \<and> json_std v) js" by simp_all
  obtain s1 w where l: "lead p cur s = Inr s1" "extends s s1 w" "ws w" by (rule lead_ok [OF element.prems(2)])
  obtain s3 t where d: "dump tc p asc step cur j s1 = Inr s3" "extends s1 s3 t" "value_text j t"
    using element.IH(1) [OF element.prems(1) extends_ok [OF l(2) element.prems(2)] kv(1,2)] by blast
  note x3 = extends_trans [OF l(2) d(2)]
  show ?case
  proof (cases "js = []")
    case True
    then show ?thesis using last_element [OF l(3) d(3), of "[]"] l(1) d(1) x3 by auto
  next
    case False
    define s4 where "s4 = write_characters (chr CHR '','' # newline p) s3"
    have x4: "extends s s4 (w @ t @ chr CHR '','' # newline p)"
      using extends_trans [OF x3 extends_write] by (simp add: s4_def)
    obtain s5 ts where r: "dump_elements tc p asc step cur js s4 = Inr s5" "extends s4 s5 ts" "elements_text js ts"
      using element.IH(2) [OF element.prems(1) extends_ok [OF x4 element.prems(2)] False kv(3)] by blast
    have "elements_text (j # js) (w @ t @ [] @ 44 # (newline p @ ts))"
      by (rule value_text_elements_text_members_text.element) (use l d elements_lead [OF r(3) newline_ws] in simp_all)
    moreover have "dump_elements tc p asc step cur (j # js) s = Inr s5"
      using False l(1) d(1) r(1) by (simp add: s4_def)
    ultimately show ?thesis using extends_trans [OF x4 r(2)] by (auto simp: bytes_simps)
  qed
qed (auto simp: dump_integer_decimal intro: value_text_elements_text_members_text.intros extends_write)

text \<open>With an indentation of at most 512, no read leaves the indentation string.\<close>

lemma basic_json_dump_text:
  assumes "json_utf8 utf8 j" and "json_std j" and "case indent of None \<Rightarrow> True | Some n \<Rightarrow> n \<le> 512"
  obtains t where "basic_json_dump tc indent 32 False Strict j = Inr t" and "value_text j t"
proof -
  define st :: u32 where "st = (case indent of None \<Rightarrow> 0 | Some n \<Rightarrow> of_nat n)"
  have "ser_ok (indent \<noteq> None) st 0 (serializer0 32 Strict)"
    using assms(3) by (auto simp: ser_ok_def serializer0_def ws_def list_all_iff st_def unat_u32_of_nat split: option.splits)
  from dump_text(1) [OF refl this assms(1,2), of tc] obtain s' t where "dump tc (indent \<noteq> None) False st 0 j (serializer0 32 Strict) = Inr s'"
    "s_out s' = t" "value_text j t" by (auto simp: extends_def serializer0_def)
  then show thesis by (intro that [of t]) (auto simp: basic_json_dump_def st_def split: option.splits)
qed

end
