(* ===== verification/Json_Lex.thy ===== *)
theory Json_Lex
  imports Json_Dump Args
begin

text \<open>
  The class \<open>lexer\<close> of \<^verbatim>\<open>nlohmann::json\<close>: characters with one place of push-back and their position, the
  scanners for strings (escapes, surrogate pairs, ranges of UTF-8 bytes), numbers (the state machine of nine labels),
  literals and comments, and \<open>scan\<close>. The constant texts of \<open>error_message\<close> are the constructors of \<open>lex_message\<close>.
  The conversion of a decimal text to a double is a function argument.
\<close>

section \<open>State\<close>

datatype token_type =
    Uninitialized | Literal_True | Literal_False | Literal_Null | Value_String | Value_Unsigned | Value_Integer
  | Value_Float | Begin_Array | Begin_Object | End_Array | End_Object | Name_Separator | Value_Separator
  | Parse_Error | End_Of_Input | Literal_Or_Value

datatype lex_message =
    No_Message
  | Missing_Quote
  | Bad_Unicode_Escape
  | High_Surrogate_Alone
  | Low_Surrogate_Alone
  | Forbidden_Escape
  | Control_Character u8
  | Ill_Formed_UTF8
  | Comment_Open
  | Comment_Start
  | Digit_After_Minus
  | Digit_After_Point
  | Digit_After_Exponent
  | Digit_After_Sign
  | Invalid_Literal
  | Invalid_BOM

text \<open>\<open>ia\<close> is the part of the input that the adapter has still to deliver; \<open>current\<close> is \<open>eof\<close> or a byte.\<close>

definition eof :: int where "eof = - 1"

record lexer =
  ia :: bytes
  ignore_comments :: bool
  current :: int
  next_unget :: bool
  chars_read_total :: nat
  chars_read_current_line :: nat
  lines_read :: nat
  token_string :: bytes
  token_buffer :: bytes
  error_message :: lex_message
  value_integer :: u64
  value_unsigned :: u64
  value_float :: u64

definition lexer0 :: "bytes \<Rightarrow> bool \<Rightarrow> lexer" where
  "lexer0 s ic =
     \<lparr>ia = s, ignore_comments = ic, current = eof, next_unget = False, chars_read_total = 0, chars_read_current_line = 0,
      lines_read = 0, token_string = [], token_buffer = [], error_message = No_Message, value_integer = 0,
      value_unsigned = 0, value_float = 0\<rparr>"

section \<open>Characters\<close>

definition get_character :: "lexer \<Rightarrow> lexer" where
  "get_character lx = (case ia lx of [] \<Rightarrow> lx\<lparr>current := eof\<rparr> | c # r \<Rightarrow> lx\<lparr>current := uint c, ia := r\<rparr>)"

definition get :: "lexer \<Rightarrow> lexer" where
  "get lx =
     (let lx = lx\<lparr>chars_read_total := chars_read_total lx + 1, chars_read_current_line := chars_read_current_line lx + 1\<rparr>;
          lx = (if next_unget lx then lx\<lparr>next_unget := False\<rparr> else get_character lx);
          lx = (if current lx \<noteq> eof then lx\<lparr>token_string := token_string lx @ [word_of_int (current lx)]\<rparr> else lx)
      in if current lx = 10 then lx\<lparr>lines_read := lines_read lx + 1, chars_read_current_line := 0\<rparr> else lx)"

definition unget :: "lexer \<Rightarrow> lexer" where
  "unget lx =
     (let lx = lx\<lparr>next_unget := True, chars_read_total := chars_read_total lx - 1\<rparr>;
          lx = (if chars_read_current_line lx = 0
                then (if 0 < lines_read lx then lx\<lparr>lines_read := lines_read lx - 1\<rparr> else lx)
                else lx\<lparr>chars_read_current_line := chars_read_current_line lx - 1\<rparr>)
      in if current lx \<noteq> eof then lx\<lparr>token_string := butlast (token_string lx)\<rparr> else lx)"

definition reset :: "lexer \<Rightarrow> lexer" where
  "reset lx = lx\<lparr>token_buffer := [], token_string := [word_of_int (current lx)]\<rparr>"

definition add :: "int \<Rightarrow> lexer \<Rightarrow> lexer" where
  "add c lx = lx\<lparr>token_buffer := token_buffer lx @ [word_of_int c]\<rparr>"

definition fail :: "lex_message \<Rightarrow> lexer \<Rightarrow> token_type \<times> lexer" where
  "fail m lx = (Parse_Error, lx\<lparr>error_message := m\<rparr>)"

text \<open>The text of the last token as error messages show it: control characters as \<^verbatim>\<open><U+000A>\<close>.\<close>

definition hex_digit_upper :: "nat \<Rightarrow> u8" where
  "hex_digit_upper v = (if v < 10 then 48 + of_nat v else 55 + of_nat v)"

definition get_token_string :: "lexer \<Rightarrow> bytes" where
  "get_token_string lx =
     concat (map (\<lambda>c. if c \<le> 0x1F
                      then str ''<U+00'' @ [hex_digit_upper (unat c div 16), hex_digit_upper (unat c mod 16)] @ str ''>'' else [c])
               (token_string lx))"

text \<open>The characters that are still to be read: what the loops below have left.\<close>

definition lrest :: "lexer \<Rightarrow> bytes" where
  "lrest lx = (if next_unget lx \<and> current lx \<noteq> eof then [word_of_int (current lx)] else []) @ ia lx"

lemma get_character_simps [simp]:
  "current (get_character lx) = (case ia lx of [] \<Rightarrow> eof | c # r \<Rightarrow> uint c)" "ia (get_character lx) = tl (ia lx)"
  "next_unget (get_character lx) = next_unget lx" "token_buffer (get_character lx) = token_buffer lx"
  "ignore_comments (get_character lx) = ignore_comments lx" "chars_read_total (get_character lx) = chars_read_total lx"
  by (simp_all add: get_character_def split: list.split)

lemma current_get:
  "current (get lx) = (if next_unget lx then current lx else case ia lx of [] \<Rightarrow> eof | c # r \<Rightarrow> uint c)"
  by (simp add: get_def Let_def)

lemma get_simps [simp]:
  "ia (get lx) = (if next_unget lx then ia lx else tl (ia lx))"
  "\<not> next_unget (get lx)" "token_buffer (get lx) = token_buffer lx"
  "ignore_comments (get lx) = ignore_comments lx" "chars_read_total (get lx) = Suc (chars_read_total lx)"
  by (simp_all add: get_def Let_def)

lemma get_shrinks:
  "length (lrest (get lx)) \<le> length (lrest lx)"
  "current (get lx) \<noteq> eof \<Longrightarrow> length (lrest (get lx)) < length (lrest lx)"
  by (auto simp: lrest_def current_get split: list.splits if_splits)

lemma lrest_simps [simp]:
  "lrest (add c lx) = lrest lx" "lrest (reset lx) = lrest lx" "lrest (lx\<lparr>error_message := m\<rparr>) = lrest lx"
  "lrest (lx\<lparr>value_integer := v\<rparr>) = lrest lx" "lrest (lx\<lparr>value_unsigned := v\<rparr>) = lrest lx" "lrest (lx\<lparr>value_float := v\<rparr>) = lrest lx"
  "lrest (snd (fail m lx)) = lrest lx"
  by (simp_all add: lrest_def add_def reset_def fail_def)

section \<open>Strings\<close>

text \<open>The digits at the given shifts; \<open>-1\<close> on anything else.\<close>

fun codepoint_loop :: "nat list \<Rightarrow> u32 \<Rightarrow> lexer \<Rightarrow> u32 \<times> lexer" where
  "codepoint_loop [] cp lx = (cp, lx)"
| "codepoint_loop (factor # fs) cp lx =
     (let lx = get lx; c = current lx
      in if 48 \<le> c \<and> c \<le> 57 then codepoint_loop fs (cp + push_bit factor (word_of_int c - 0x30)) lx
         else if 65 \<le> c \<and> c \<le> 70 then codepoint_loop fs (cp + push_bit factor (word_of_int c - 0x37)) lx
         else if 97 \<le> c \<and> c \<le> 102 then codepoint_loop fs (cp + push_bit factor (word_of_int c - 0x57)) lx
         else (- 1, lx))"

definition get_codepoint :: "lexer \<Rightarrow> u32 \<times> lexer" where
  "get_codepoint lx = codepoint_loop [12, 8, 4, 0] 0 lx"

fun ranges_loop :: "(int \<times> int) list \<Rightarrow> lexer \<Rightarrow> bool \<times> lexer" where
  "ranges_loop [] lx = (True, lx)"
| "ranges_loop ((lo, hi) # rs) lx =
     (let lx = get lx
      in if lo \<le> current lx \<and> current lx \<le> hi then ranges_loop rs (add (current lx) lx)
         else (False, lx\<lparr>error_message := Ill_Formed_UTF8\<rparr>))"

definition next_byte_in_range :: "(int \<times> int) list \<Rightarrow> lexer \<Rightarrow> bool \<times> lexer" where
  "next_byte_in_range rs lx = ranges_loop rs (add (current lx) lx)"

text \<open>The bytes of a code point.\<close>

definition add_codepoint :: "u32 \<Rightarrow> lexer \<Rightarrow> lexer" where
  "add_codepoint cp lx =
     (if cp < 0x80 then add (uint cp) lx
      else if cp \<le> 0x7FF then
        add (uint (0x80 OR (cp AND 0x3F))) (add (uint (0xC0 OR drop_bit 6 cp)) lx)
      else if cp \<le> 0xFFFF then
        add (uint (0x80 OR (cp AND 0x3F))) (add (uint (0x80 OR (drop_bit 6 cp AND 0x3F)))
          (add (uint (0xE0 OR drop_bit 12 cp)) lx))
      else
        add (uint (0x80 OR (cp AND 0x3F))) (add (uint (0x80 OR (drop_bit 6 cp AND 0x3F)))
          (add (uint (0x80 OR (drop_bit 12 cp AND 0x3F))) (add (uint (0xF0 OR drop_bit 18 cp)) lx))))"

text \<open>Behind \<^verbatim>\<open>\u\<close>: one code point, or the second half of a surrogate pair. The flag is false on an error.\<close>

definition scan_unicode :: "lexer \<Rightarrow> bool \<times> lexer" where
  "scan_unicode lx =
     (case get_codepoint lx of (codepoint1, lx) \<Rightarrow>
        if codepoint1 = - 1 then (False, lx\<lparr>error_message := Bad_Unicode_Escape\<rparr>)
        else if 0xD800 \<le> codepoint1 \<and> codepoint1 \<le> 0xDBFF then
          (let lx = get lx
           in if current lx \<noteq> 92 then (False, lx\<lparr>error_message := High_Surrogate_Alone\<rparr>)
              else let lx = get lx
                   in if current lx \<noteq> 117 then (False, lx\<lparr>error_message := High_Surrogate_Alone\<rparr>)
                      else case get_codepoint lx of (codepoint2, lx) \<Rightarrow>
                        if codepoint2 = - 1 then (False, lx\<lparr>error_message := Bad_Unicode_Escape\<rparr>)
                        else if 0xDC00 \<le> codepoint2 \<and> codepoint2 \<le> 0xDFFF
                        then (True, add_codepoint (push_bit 10 codepoint1 + codepoint2 - 0x35FDC00) lx)
                        else (False, lx\<lparr>error_message := High_Surrogate_Alone\<rparr>))
        else if 0xDC00 \<le> codepoint1 \<and> codepoint1 \<le> 0xDFFF then (False, lx\<lparr>error_message := Low_Surrogate_Alone\<rparr>)
        else (True, add_codepoint codepoint1 lx))"

definition scan_escape :: "lexer \<Rightarrow> bool \<times> lexer" where
  "scan_escape lx =
     (let lx = get lx; c = current lx
      in if c = 34 then (True, add 34 lx)
         else if c = 92 then (True, add 92 lx)
         else if c = 47 then (True, add 47 lx)
         else if c = 98 then (True, add 8 lx)
         else if c = 102 then (True, add 12 lx)
         else if c = 110 then (True, add 10 lx)
         else if c = 114 then (True, add 13 lx)
         else if c = 116 then (True, add 9 lx)
         else if c = 117 then scan_unicode lx
         else (False, lx\<lparr>error_message := Forbidden_Escape\<rparr>))"

text \<open>The ranges of the bytes behind the first byte of a character of several bytes.\<close>

definition string_ranges :: "int \<Rightarrow> (int \<times> int) list option" where
  "string_ranges c =
     (if 0xC2 \<le> c \<and> c \<le> 0xDF then Some [(0x80, 0xBF)]
      else if c = 0xE0 then Some [(0xA0, 0xBF), (0x80, 0xBF)]
      else if 0xE1 \<le> c \<and> c \<le> 0xEC \<or> c = 0xEE \<or> c = 0xEF then Some [(0x80, 0xBF), (0x80, 0xBF)]
      else if c = 0xED then Some [(0x80, 0x9F), (0x80, 0xBF)]
      else if c = 0xF0 then Some [(0x90, 0xBF), (0x80, 0xBF), (0x80, 0xBF)]
      else if 0xF1 \<le> c \<and> c \<le> 0xF3 then Some [(0x80, 0xBF), (0x80, 0xBF), (0x80, 0xBF)]
      else if c = 0xF4 then Some [(0x80, 0x8F), (0x80, 0xBF), (0x80, 0xBF)]
      else None)"

lemma codepoint_loop_shrinks: "length (lrest (snd (codepoint_loop fs cp lx))) \<le> length (lrest lx)"
proof (induction fs cp lx rule: codepoint_loop.induct)
  case (2 factor fs cp lx)
  let ?c = "current (get lx)"
  consider "48 \<le> ?c \<and> ?c \<le> 57" | "65 \<le> ?c \<and> ?c \<le> 70" | "97 \<le> ?c \<and> ?c \<le> 102"
    | "\<not> (48 \<le> ?c \<and> ?c \<le> 57)" "\<not> (65 \<le> ?c \<and> ?c \<le> 70)" "\<not> (97 \<le> ?c \<and> ?c \<le> 102)" by blast
  then show ?case
  proof cases
    case 1
    then show ?thesis using "2.IH"(1) [OF refl refl] get_shrinks(1) [of lx] by (simp add: Let_def)
  next
    case 2
    then show ?thesis using "2.IH"(2) [OF refl refl] get_shrinks(1) [of lx] by (simp add: Let_def)
  next
    case 3
    then show ?thesis using "2.IH"(3) [OF refl refl] get_shrinks(1) [of lx] by (simp add: Let_def)
  next
    case 4
    then show ?thesis using get_shrinks(1) [of lx] unfolding codepoint_loop.simps Let_def by auto
  qed
qed simp

lemma ranges_loop_shrinks: "length (lrest (snd (ranges_loop rs lx))) \<le> length (lrest lx)"
proof (induction rs lx rule: ranges_loop.induct)
  case (2 lo hi rs lx)
  then show ?case using get_shrinks(1) [of lx] by (fastforce simp: Let_def)
qed simp

lemma lrest_add_codepoint [simp]: "lrest (add_codepoint cp lx) = lrest lx"
  by (simp add: add_codepoint_def)

lemma scan_unicode_shrinks: "length (lrest (snd (scan_unicode lx))) \<le> length (lrest lx)"
proof -
  obtain cp1 lx1 where 1: "get_codepoint lx = (cp1, lx1)" by (cases "get_codepoint lx")
  obtain cp2 lx2 where 2: "get_codepoint (get (get lx1)) = (cp2, lx2)" by (cases "get_codepoint (get (get lx1))")
  have "length (lrest lx1) \<le> length (lrest lx)" using codepoint_loop_shrinks [of "[12, 8, 4, 0]" 0 lx] 1 by (simp add: get_codepoint_def)
  moreover have "length (lrest lx2) \<le> length (lrest (get (get lx1)))"
    using codepoint_loop_shrinks [of "[12, 8, 4, 0]" 0 "get (get lx1)"] 2 by (simp add: get_codepoint_def)
  ultimately show ?thesis
    using get_shrinks(1) [of lx1] get_shrinks(1) [of "get lx1"] by (simp add: scan_unicode_def 1 2 Let_def)
qed

lemma scan_escape_shrinks: "length (lrest (snd (scan_escape lx))) \<le> length (lrest lx)"
  using get_shrinks(1) [of lx] scan_unicode_shrinks [of "get lx"] by (simp add: scan_escape_def Let_def)

lemma next_byte_shrinks: "length (lrest (snd (next_byte_in_range rs lx))) \<le> length (lrest lx)"
  using ranges_loop_shrinks [of rs "add (current lx) lx"] by (simp add: next_byte_in_range_def)

function scan_string_loop :: "lexer \<Rightarrow> token_type \<times> lexer" where
  "scan_string_loop lx =
     (let lx = get lx; c = current lx
      in if c = eof then fail Missing_Quote lx
         else if c = 34 then (Value_String, lx)
         else if c = 92 then
           (case scan_escape lx of (ok, lx) \<Rightarrow> if ok then scan_string_loop lx else (Parse_Error, lx))
         else if 0 \<le> c \<and> c \<le> 0x1F then fail (Control_Character (word_of_int c)) lx
         else if 0x20 \<le> c \<and> c \<le> 0x7F then scan_string_loop (add c lx)
         else case string_ranges c of
           Some rs \<Rightarrow> (case next_byte_in_range rs lx of (ok, lx) \<Rightarrow> if ok then scan_string_loop lx else (Parse_Error, lx))
         | None \<Rightarrow> fail Ill_Formed_UTF8 lx)"
  by pat_completeness auto
termination
proof (relation "measure (\<lambda>lx. length (lrest lx))", goal_cases)
  case (2 lx lx1 c ok lx2)
  then have "lx2 = snd (scan_escape (get lx))" by (metis snd_conv)
  with 2 show ?case using get_shrinks(2) [of lx] scan_escape_shrinks [of "get lx"] by (simp add: eof_def)
next
  case (3 lx lx1 c)
  then show ?case using get_shrinks(2) [of lx] by (simp add: eof_def)
next
  case (4 lx lx1 c rs ok lx2)
  then have "lx2 = snd (next_byte_in_range rs (get lx))" by (metis snd_conv)
  with 4 show ?case using get_shrinks(2) [of lx] next_byte_shrinks [of rs "get lx"] by (simp add: eof_def)
qed simp

declare scan_string_loop.simps [simp del]

definition scan_string :: "lexer \<Rightarrow> token_type \<times> lexer" where
  "scan_string lx = scan_string_loop (reset lx)"

section \<open>Comments\<close>

function scan_line_comment :: "lexer \<Rightarrow> lexer" where
  "scan_line_comment lx =
     (let lx = get lx in if current lx = 10 \<or> current lx = 13 \<or> current lx = eof \<or> current lx = 0 then lx else scan_line_comment lx)"
  by pat_completeness auto
termination
  by (relation "measure (\<lambda>lx. length (lrest lx))") (auto intro: get_shrinks(2))

lemma unget_simps [simp]:
  "current (unget lx) = current lx" "ia (unget lx) = ia lx" "next_unget (unget lx)" "token_buffer (unget lx) = token_buffer lx"
  "ignore_comments (unget lx) = ignore_comments lx" "chars_read_total (unget lx) = chars_read_total lx - 1"
  by (simp_all add: unget_def Let_def)

lemma unget_get_shrinks: "length (lrest (unget (get lx))) \<le> length (lrest lx)"
  by (auto simp: lrest_def current_get split: list.splits if_splits)

function scan_block_comment :: "lexer \<Rightarrow> bool \<times> lexer" where
  "scan_block_comment lx =
     (let lx = get lx
      in if current lx = eof \<or> current lx = 0 then (False, lx\<lparr>error_message := Comment_Open\<rparr>)
         else if current lx = 42 then
           (let lx = get lx in if current lx = 47 then (True, lx) else scan_block_comment (unget lx))
         else scan_block_comment lx)"
  by pat_completeness auto
termination
proof (relation "measure (\<lambda>lx. length (lrest lx))", goal_cases)
  case (2 lx lx1 lx2)
  then show ?case using get_shrinks(2) [of lx] unget_get_shrinks [of "get lx"] by simp
next
  case (3 lx lx1)
  then show ?case using get_shrinks(2) [of lx] by simp
qed simp

declare scan_line_comment.simps [simp del] scan_block_comment.simps [simp del]

definition scan_comment :: "lexer \<Rightarrow> bool \<times> lexer" where
  "scan_comment lx =
     (let lx = get lx
      in if current lx = 47 then (True, scan_line_comment lx)
         else if current lx = 42 then scan_block_comment lx
         else (False, lx\<lparr>error_message := Comment_Start\<rparr>))"

section \<open>Numbers\<close>

text \<open>The labels of the state machine, and what each does with the next character.\<close>

datatype num_state = Minus | Zero | Any1 | Decimal1 | Decimal2 | Exponent | Sign | Any2

datatype num_jump = Goto num_state int | Done | Fail lex_message

definition digit :: "int \<Rightarrow> bool" where
  "digit c \<longleftrightarrow> 48 \<le> c \<and> c \<le> 57"

definition exponent_char :: "int \<Rightarrow> bool" where
  "exponent_char c \<longleftrightarrow> c = 101 \<or> c = 69"

text \<open>The decimal point of the C locale.\<close>

definition decimal_point_char :: int where "decimal_point_char = 46"

fun num_action :: "num_state \<Rightarrow> int \<Rightarrow> num_jump" where
  "num_action Minus c =
     (if c = 48 then Goto Zero c else if digit c then Goto Any1 c else Fail Digit_After_Minus)"
| "num_action Zero c =
     (if c = 46 then Goto Decimal1 decimal_point_char else if exponent_char c then Goto Exponent c else Done)"
| "num_action Any1 c =
     (if digit c then Goto Any1 c else if c = 46 then Goto Decimal1 decimal_point_char
      else if exponent_char c then Goto Exponent c else Done)"
| "num_action Decimal1 c = (if digit c then Goto Decimal2 c else Fail Digit_After_Point)"
| "num_action Decimal2 c =
     (if digit c then Goto Decimal2 c else if exponent_char c then Goto Exponent c else Done)"
| "num_action Exponent c =
     (if c = 43 \<or> c = 45 then Goto Sign c else if digit c then Goto Any2 c else Fail Digit_After_Exponent)"
| "num_action Sign c = (if digit c then Goto Any2 c else Fail Digit_After_Sign)"
| "num_action Any2 c = (if digit c then Goto Any2 c else Done)"

definition number_type :: "num_state \<Rightarrow> token_type \<Rightarrow> token_type" where
  "number_type st nt = (case st of Minus \<Rightarrow> Value_Integer | Decimal1 \<Rightarrow> Value_Float | Exponent \<Rightarrow> Value_Float | _ \<Rightarrow> nt)"

lemma no_goto_eof: "num_action st eof \<noteq> Goto st' c"
  by (cases st) (auto simp: eof_def digit_def exponent_char_def)

text \<open>From a label to \<open>scan_number_done\<close>, with the \<open>unget\<close> there, or to an error.\<close>

function number_loop :: "num_state \<Rightarrow> token_type \<Rightarrow> lexer \<Rightarrow> token_type \<times> lexer" where
  "number_loop st nt lx =
     (let nt = number_type st nt; lx = get lx
      in case num_action st (current lx) of
           Goto st' c \<Rightarrow> number_loop st' nt (add c lx)
         | Done \<Rightarrow> (nt, unget lx)
         | Fail m \<Rightarrow> fail m lx)"
  by pat_completeness auto
termination
proof (relation "measure (\<lambda>(st, nt, lx). length (lrest lx))", goal_cases)
  case (2 st nt lx nt' lx1 st' c)
  then have "current (get lx) \<noteq> eof" using no_goto_eof by metis
  with 2 show ?case using get_shrinks(2) [of lx] by simp
qed simp

declare number_loop.simps [simp del]

text \<open>\<^verbatim>\<open>strtoull(s, &endptr, 10)\<close>\<close>

definition strtoull10 :: "cstr \<Rightarrow> nat \<Rightarrow> u64 \<times> nat" where
  "strtoull10 s errno =
     (let s = dropWhile isspace s;
          neg = (case s of c # r \<Rightarrow> c = chr CHR ''-'' | [] \<Rightarrow> False);
          digits = (case s of c # r \<Rightarrow> if c = chr CHR ''-'' \<or> c = chr CHR ''+'' then r else s | [] \<Rightarrow> []);
          v = dec_val (takeWhile isdigit digits)
      in if 2 ^ 64 \<le> v then (- 1, ERANGE_errno) else (if neg then - of_nat v else of_nat v, errno))"

definition number_done :: "(bytes \<Rightarrow> u64) \<Rightarrow> token_type \<Rightarrow> lexer \<Rightarrow> token_type \<times> lexer" where
  "number_done strtod nt lx =
     (let float = (Value_Float, lx\<lparr>value_float := strtod (token_buffer lx)\<rparr>)
      in if nt = Value_Unsigned then
           (case strtoull10 (token_buffer lx) 0 of (x, errno) \<Rightarrow>
              if errno = 0 then (Value_Unsigned, lx\<lparr>value_unsigned := x\<rparr>) else float)
         else if nt = Value_Integer then
           (case strtol10 (token_buffer lx) 0 of (x, errno) \<Rightarrow>
              if errno = 0 then (Value_Integer, lx\<lparr>value_integer := word_of_int x\<rparr>) else float)
         else float)"

definition scan_number :: "(bytes \<Rightarrow> u64) \<Rightarrow> lexer \<Rightarrow> token_type \<times> lexer" where
  "scan_number strtod lx =
     (let lx = reset lx; c = current lx; lx = add c lx
      in case number_loop (if c = 45 then Minus else if c = 48 then Zero else Any1) Value_Unsigned lx of
           (nt, lx) \<Rightarrow> if nt = Parse_Error then (Parse_Error, lx) else number_done strtod nt lx)"

section \<open>Tokens\<close>

fun literal_loop :: "bytes \<Rightarrow> token_type \<Rightarrow> lexer \<Rightarrow> token_type \<times> lexer" where
  "literal_loop [] tok lx = (tok, lx)"
| "literal_loop (c # cs) tok lx =
     (let lx = get lx in if word_of_int (current lx) \<noteq> c then fail Invalid_Literal lx else literal_loop cs tok lx)"

definition scan_literal :: "bytes \<Rightarrow> token_type \<Rightarrow> lexer \<Rightarrow> token_type \<times> lexer" where
  "scan_literal literal_text return_type lx = literal_loop (tl literal_text) return_type lx"

definition skip_bom :: "lexer \<Rightarrow> bool \<times> lexer" where
  "skip_bom lx =
     (let lx = get lx
      in if current lx = 0xEF then
           (let lx = get lx
            in if current lx \<noteq> 0xBB then (False, lx) else let lx = get lx in (current lx = 0xBF, lx))
         else (True, unget lx))"

function skip_whitespace :: "lexer \<Rightarrow> lexer" where
  "skip_whitespace lx =
     (let lx = get lx
      in if current lx = 32 \<or> current lx = 9 \<or> current lx = 10 \<or> current lx = 13 then skip_whitespace lx else lx)"
  by pat_completeness auto
termination
  by (relation "measure (\<lambda>lx. length (lrest lx))") (auto intro!: get_shrinks(2) simp: eof_def)

declare skip_whitespace.simps [simp del]

lemma skip_whitespace_shrinks:
  "length (lrest (skip_whitespace lx)) \<le> length (lrest lx)"
  "current (skip_whitespace lx) \<noteq> eof \<Longrightarrow> length (lrest (skip_whitespace lx)) < length (lrest lx)"
proof (induction lx rule: skip_whitespace.induct)
  case (1 lx)
  let ?w = "current (get lx) = 32 \<or> current (get lx) = 9 \<or> current (get lx) = 10 \<or> current (get lx) = 13"
  have step: "skip_whitespace lx = (if ?w then skip_whitespace (get lx) else get lx)"
    by (simp add: skip_whitespace.simps [of lx] Let_def)
  have "?w \<Longrightarrow> current (get lx) \<noteq> eof" by (auto simp: eof_def)
  {
    case 1
    show ?case using "1.IH"(1) [OF refl] get_shrinks(1) [of lx] unfolding step by (cases ?w) simp_all
  next
    case 2
    then show ?case
      using "1.IH"(1) [OF refl] get_shrinks(2) [of lx] \<open>?w \<Longrightarrow> current (get lx) \<noteq> eof\<close> unfolding step by (cases ?w) simp_all
  }
qed

lemma line_comment_shrinks: "length (lrest (scan_line_comment lx)) \<le> length (lrest lx)"
proof (induction lx rule: scan_line_comment.induct)
  case (1 lx)
  let ?w = "current (get lx) = 10 \<or> current (get lx) = 13 \<or> current (get lx) = eof \<or> current (get lx) = 0"
  have "scan_line_comment lx = (if ?w then get lx else scan_line_comment (get lx))" by (simp add: scan_line_comment.simps [of lx] Let_def)
  with 1 [OF refl] get_shrinks(1) [of lx] show ?case by (cases ?w) simp_all
qed

lemma block_comment_shrinks: "length (lrest (snd (scan_block_comment lx))) \<le> length (lrest lx)"
proof (induction lx rule: scan_block_comment.induct)
  case (1 lx)
  have "scan_block_comment lx =
      (if current (get lx) = eof \<or> current (get lx) = 0 then (False, (get lx)\<lparr>error_message := Comment_Open\<rparr>)
       else if current (get lx) = 42 then
         (if current (get (get lx)) = 47 then (True, get (get lx)) else scan_block_comment (unget (get (get lx))))
       else scan_block_comment (get lx))"
    by (simp add: scan_block_comment.simps [of lx] Let_def)
  with 1(1) [OF refl _ _ refl] 1(2) [OF refl] get_shrinks(1) [of lx] get_shrinks(1) [of "get lx"] unget_get_shrinks [of "get lx"]
  show ?case by (auto split: if_splits)
qed

lemma scan_comment_shrinks: "length (lrest (snd (scan_comment lx))) \<le> length (lrest lx)"
  using get_shrinks(1) [of lx] line_comment_shrinks [of "get lx"] block_comment_shrinks [of "get lx"]
  by (simp add: scan_comment_def Let_def)

text \<open>At the end of the input the loop condition is false, so that case needs no further round.\<close>

function skip_comments :: "lexer \<Rightarrow> bool \<times> lexer" where
  "skip_comments lx =
     (if ignore_comments lx \<and> current lx = 47 then
        (case scan_comment lx of (ok, lx) \<Rightarrow>
           if \<not> ok then (False, lx)
           else if current (skip_whitespace lx) = eof then (True, skip_whitespace lx)
           else skip_comments (skip_whitespace lx))
      else (True, lx))"
  by pat_completeness auto
termination
proof (relation "measure (\<lambda>lx. length (lrest lx))", goal_cases)
  case (2 lx ok lx1)
  then have "lx1 = snd (scan_comment lx)" by (metis snd_conv)
  with 2 show ?case using scan_comment_shrinks [of lx] skip_whitespace_shrinks(2) [of lx1] by simp
qed simp

declare skip_comments.simps [simp del]

definition scan_token :: "(bytes \<Rightarrow> u64) \<Rightarrow> lexer \<Rightarrow> token_type \<times> lexer" where
  "scan_token strtod lx =
     (let c = current lx
      in if c = 91 then (Begin_Array, lx)
         else if c = 93 then (End_Array, lx)
         else if c = 123 then (Begin_Object, lx)
         else if c = 125 then (End_Object, lx)
         else if c = 58 then (Name_Separator, lx)
         else if c = 44 then (Value_Separator, lx)
         else if c = 116 then scan_literal (str ''true'') Literal_True lx
         else if c = 102 then scan_literal (str ''false'') Literal_False lx
         else if c = 110 then scan_literal (str ''null'') Literal_Null lx
         else if c = 34 then scan_string lx
         else if c = 45 \<or> digit c then scan_number strtod lx
         else if c = 0 \<or> c = eof then (End_Of_Input, lx)
         else fail Invalid_Literal lx)"

definition scan :: "(bytes \<Rightarrow> u64) \<Rightarrow> lexer \<Rightarrow> token_type \<times> lexer" where
  "scan strtod lx =
     (case (if chars_read_total lx = 0 then skip_bom lx else (True, lx)) of (ok, lx) \<Rightarrow>
        if \<not> ok then fail Invalid_BOM lx
        else case skip_comments (skip_whitespace lx) of (ok, lx) \<Rightarrow>
          if \<not> ok then (Parse_Error, lx) else scan_token strtod lx)"

end
