(* ===== verification/Json_Scan.thy ===== *)
theory Json_Scan
  imports Json_Lex
begin

text \<open>
  What the lexer reads: it never runs past the end of its input, every token but the last consumes a character, and the
  strings it delivers are well-formed UTF-8.
\<close>

section \<open>Reading characters\<close>

definition lx_inv :: "lexer \<Rightarrow> bool" where
  "lx_inv lx \<longleftrightarrow> (next_unget lx \<longrightarrow> current lx = eof \<and> ia lx = [] \<or> 0 \<le> current lx \<and> current lx < 256)"

definition reads :: "lexer \<Rightarrow> lexer \<Rightarrow> bool" where
  "reads lx lx' \<longleftrightarrow> chars_read_total lx \<le> chars_read_total lx' \<and> ignore_comments lx' = ignore_comments lx \<and>
     length (lrest lx') \<le> length (lrest lx) \<and> (lx_inv lx \<longrightarrow> lx_inv lx')"

named_theorems reads_intros

lemma lx_inv_get [simp]: "lx_inv (get lx)"
  by (simp add: lx_inv_def)

lemma get_Cons:
  assumes "lx_inv lx" and "lrest lx = c # r"
  shows "current (get lx) = uint c" and "lrest (get lx) = r"
  using assms by (auto simp: lrest_def current_get lx_inv_def eof_def unsigned_of_int take_bit_int_eq_self split: if_splits list.splits)

lemma get_Nil:
  assumes "lx_inv lx" and "lrest lx = []"
  shows "current (get lx) = eof" and "lrest (get lx) = []"
  using assms by (auto simp: lrest_def current_get lx_inv_def split: if_splits list.splits)

lemma unget_get:
  assumes "lx_inv lx"
  shows "lx_inv (unget (get lx))" and "lrest (unget (get lx)) = lrest lx"
proof -
  have "uint (c :: u8) < 256" "uint c \<noteq> - 1" for c using uint_lt2p [of c] uint_ge_0 [of c] by (simp, linarith)
  with assms show "lx_inv (unget (get lx))" "lrest (unget (get lx)) = lrest lx"
    by (auto simp: lx_inv_def lrest_def current_get eof_def split: if_splits list.splits)
qed

lemma current_range: "lx_inv lx \<Longrightarrow> current (get lx) = eof \<or> 0 \<le> current (get lx) \<and> current (get lx) < 256"
  by (cases "lrest lx") (auto simp: get_Cons get_Nil u8_less uint_lt2p [where 'a = 8, simplified])

lemma reads_refl [reads_intros]: "reads lx lx"
  by (simp add: reads_def)

lemma reads_trans: "reads a b \<Longrightarrow> reads b c \<Longrightarrow> reads a c"
  by (auto simp: reads_def)

lemma reads_get [reads_intros]: "reads a b \<Longrightarrow> reads a (get b)"
  using get_shrinks(1) [of b] by (auto simp: reads_def)

lemma reads_unget_get [reads_intros]: "reads a b \<Longrightarrow> reads a (unget (get b))"
  using unget_get_shrinks [of b] unget_get(1) [of b] by (auto simp: reads_def)

lemma lx_inv_update [simp]:
  "lx_inv (add c lx) = lx_inv lx" "lx_inv (reset lx) = lx_inv lx" "lx_inv (lx\<lparr>error_message := m\<rparr>) = lx_inv lx"
  "lx_inv (lx\<lparr>value_integer := v\<rparr>) = lx_inv lx" "lx_inv (lx\<lparr>value_unsigned := v\<rparr>) = lx_inv lx"
  "lx_inv (lx\<lparr>value_float := v\<rparr>) = lx_inv lx"
  by (simp_all add: lx_inv_def add_def reset_def)

lemma add_reset_simps [simp]:
  "chars_read_total (add c lx) = chars_read_total lx" "ignore_comments (add c lx) = ignore_comments lx"
  "chars_read_total (reset lx) = chars_read_total lx" "ignore_comments (reset lx) = ignore_comments lx"
  "token_buffer (add c lx) = token_buffer lx @ [word_of_int c]" "token_buffer (reset lx) = []"
  "current (add c lx) = current lx" "current (reset lx) = current lx"
  by (simp_all add: add_def reset_def)

lemma reads_update [reads_intros]:
  "reads a b \<Longrightarrow> reads a (add c b)" "reads a b \<Longrightarrow> reads a (reset b)" "reads a b \<Longrightarrow> reads a (b\<lparr>error_message := m\<rparr>)"
  "reads a b \<Longrightarrow> reads a (b\<lparr>value_integer := v\<rparr>)" "reads a b \<Longrightarrow> reads a (b\<lparr>value_unsigned := v\<rparr>)"
  "reads a b \<Longrightarrow> reads a (b\<lparr>value_float := v\<rparr>)" "reads a b \<Longrightarrow> reads a (snd (fail m b))"
  by (simp_all add: reads_def fail_def)

lemma reads_add_codepoint [reads_intros]: "reads a b \<Longrightarrow> reads a (add_codepoint cp b)"
  by (simp add: add_codepoint_def reads_update(1))

lemma reads_codepoint_loop [reads_intros]: "reads a b \<Longrightarrow> reads a (snd (codepoint_loop fs cp b))"
  by (induction fs cp b rule: codepoint_loop.induct) (simp_all add: Let_def reads_get)

lemma reads_ranges_loop [reads_intros]: "reads a b \<Longrightarrow> reads a (snd (ranges_loop rs b))"
  by (induction rs b rule: ranges_loop.induct) (auto simp: Let_def intro: reads_intros)

lemma reads_next_byte [reads_intros]: "reads a b \<Longrightarrow> reads a (snd (next_byte_in_range rs b))"
  by (simp add: next_byte_in_range_def reads_ranges_loop reads_update(1))

lemma reads_get_codepoint: "reads a b \<Longrightarrow> get_codepoint b = (cp, b') \<Longrightarrow> reads a b'"
  using reads_codepoint_loop [of a b "[12, 8, 4, 0]" 0] by (simp add: get_codepoint_def)

lemma reads_scan_unicode [reads_intros]:
  assumes "reads a b"
  shows "reads a (snd (scan_unicode b))"
proof -
  obtain cp1 lx1 where 1: "get_codepoint b = (cp1, lx1)" by (cases "get_codepoint b")
  obtain cp2 lx2 where 2: "get_codepoint (get (get lx1)) = (cp2, lx2)" by (cases "get_codepoint (get (get lx1))")
  have r1: "reads a lx1" by (rule reads_get_codepoint [OF assms 1])
  have "reads a lx2" by (rule reads_get_codepoint [OF _ 2]) (intro reads_get r1)
  with r1 show ?thesis by (auto simp: scan_unicode_def 1 2 Let_def intro: reads_intros)
qed

lemma reads_scan_escape [reads_intros]: "reads a b \<Longrightarrow> reads a (snd (scan_escape b))"
  by (auto simp: scan_escape_def Let_def intro: reads_intros)

lemma reads_string_loop [reads_intros]: "reads a b \<Longrightarrow> reads a (snd (scan_string_loop b))"
proof (induction b rule: scan_string_loop.induct)
  case (1 lx)
  have g: "reads a (get lx)" by (rule reads_get [OF 1(4)])
  have e: "reads a (snd (scan_escape (get lx)))" by (intro reads_intros g)
  have n: "reads a lx'" if "next_byte_in_range rs (get lx) = (ok, lx')" for rs ok lx'
    using reads_next_byte [OF g, of rs] that by simp
  show ?case
    unfolding scan_string_loop.simps [of lx] Let_def
    using g e 1(1) [OF refl refl _ _ _ prod.collapse] 1(2) [OF refl refl] 1(3) [OF refl refl _ _ _ _ _ _ prod.collapse]
    by (auto simp: reads_update split: option.split prod.split if_splits) (blast intro: n)+
qed

lemma reads_number_loop [reads_intros]: "reads a b \<Longrightarrow> reads a (snd (number_loop st nt b))"
proof (induction st nt b rule: number_loop.induct)
  case (1 st nt lx)
  have g: "reads a (get lx)" by (rule reads_get [OF 1(2)])
  show ?case
    unfolding number_loop.simps [of st] Let_def
    using g reads_unget_get [OF 1(2)] 1(1) [OF refl refl] by (auto simp: reads_update split: num_jump.split)
qed

lemma reads_number_done [reads_intros]: "reads a b \<Longrightarrow> reads a (snd (number_done strtod nt b))"
  by (auto simp: number_done_def Let_def reads_update split: prod.split)

lemma reads_scan_number [reads_intros]:
  assumes "reads a b"
  shows "reads a (snd (scan_number strtod b))"
proof -
  have "reads a (snd (number_loop st nt (add c (reset b))))" for st nt c by (intro reads_intros assms)
  then show ?thesis
    unfolding scan_number_def Let_def by (auto intro!: reads_number_done split: prod.split) (metis snd_conv)+
qed

lemma reads_literal_loop [reads_intros]: "reads a b \<Longrightarrow> reads a (snd (literal_loop cs tok b))"
  by (induction cs tok b rule: literal_loop.induct) (auto simp: Let_def intro: reads_intros)

lemma reads_skip_bom [reads_intros]: "reads a b \<Longrightarrow> reads a (snd (skip_bom b))"
  by (auto simp: skip_bom_def Let_def intro: reads_intros)

lemma reads_skip_whitespace [reads_intros]: "reads a b \<Longrightarrow> reads a (skip_whitespace b)"
proof (induction b rule: skip_whitespace.induct)
  case (1 lx)
  then show ?case using reads_get [OF 1(2)] by (simp add: skip_whitespace.simps [of lx] Let_def)
qed

lemma reads_line_comment [reads_intros]: "reads a b \<Longrightarrow> reads a (scan_line_comment b)"
proof (induction b rule: scan_line_comment.induct)
  case (1 lx)
  then show ?case using reads_get [OF 1(2)] by (simp add: scan_line_comment.simps [of lx] Let_def)
qed

lemma reads_block_comment [reads_intros]: "reads a b \<Longrightarrow> reads a (snd (scan_block_comment b))"
proof (induction b rule: scan_block_comment.induct)
  case (1 lx)
  have g: "reads a (get lx)" by (rule reads_get [OF 1(3)])
  show ?case
    unfolding scan_block_comment.simps [of lx] Let_def
    using g 1(1) [OF refl _ _ refl] 1(2) [OF refl] reads_get [OF g] reads_unget_get [OF g] by (simp add: reads_update)
qed

lemma reads_scan_comment [reads_intros]: "reads a b \<Longrightarrow> reads a (snd (scan_comment b))"
  by (auto simp: scan_comment_def Let_def intro: reads_intros)

lemma reads_skip_comments [reads_intros]: "reads a b \<Longrightarrow> reads a (snd (skip_comments b))"
proof (induction b rule: skip_comments.induct)
  case (1 lx)
  have s: "reads a (snd (scan_comment lx))" by (rule reads_scan_comment [OF 1(2)])
  show ?case
    unfolding skip_comments.simps [of lx]
    using 1(2) s reads_skip_whitespace [OF s] 1(1) [OF _ prod.collapse] by (auto split: prod.split)
qed

lemma reads_scan_token [reads_intros]: "reads a b \<Longrightarrow> reads a (snd (scan_token strtod b))"
  by (auto simp: scan_token_def Let_def scan_literal_def scan_string_def intro: reads_intros)

lemma reads_scan: "reads a b \<Longrightarrow> reads a (snd (scan strtod b))"
proof -
  assume "reads a b"
  define r where "r = (if chars_read_total b = 0 then skip_bom b else (True, b))"
  have "reads a (snd r)" using \<open>reads a b\<close> by (simp add: r_def reads_skip_bom)
  then have "reads a (snd (skip_comments (skip_whitespace (snd r))))" by (intro reads_intros)
  with \<open>reads a (snd r)\<close> show ?thesis
    unfolding scan_def r_def [symmetric] by (auto simp: reads_update split: prod.split intro: reads_scan_token)
qed

section \<open>Tokens consume input\<close>

lemma skip_comments_eof: "current lx = eof \<Longrightarrow> skip_comments lx = (True, lx)"
  by (simp add: skip_comments.simps [of lx] eof_def)

lemma scan_token_eof: "current lx = eof \<Longrightarrow> scan_token strtod lx = (End_Of_Input, lx)"
  by (simp add: scan_token_def eof_def digit_def)

lemma scan_consumes:
  assumes "fst (scan strtod lx) \<noteq> Parse_Error" and "fst (scan strtod lx) \<noteq> End_Of_Input"
  shows "length (lrest (snd (scan strtod lx))) < length (lrest lx)"
proof -
  obtain ok lx0 where r: "(if chars_read_total lx = 0 then skip_bom lx else (True, lx)) = (ok, lx0)"
    by (cases "if chars_read_total lx = 0 then skip_bom lx else (True, lx)")
  let ?lx1 = "skip_whitespace lx0"
  obtain ok2 lx2 where c: "skip_comments ?lx1 = (ok2, lx2)" by (cases "skip_comments ?lx1")
  have s: "scan strtod lx = scan_token strtod lx2"
    using assms(1) by (auto simp: scan_def r c fail_def split: if_splits)
  have "current ?lx1 \<noteq> eof"
  proof
    assume "current ?lx1 = eof"
    with c skip_comments_eof [OF this] have "current lx2 = eof" by simp
    with assms(2) s scan_token_eof show False by simp
  qed
  then have "length (lrest ?lx1) < length (lrest lx0)" by (rule skip_whitespace_shrinks(2))
  moreover have "length (lrest lx0) \<le> length (lrest lx)"
    using reads_skip_bom [OF reads_refl, of lx] r by (auto simp: reads_def split: if_splits)
  moreover have "length (lrest lx2) \<le> length (lrest ?lx1)"
    using reads_skip_comments [OF reads_refl, of ?lx1] c by (simp add: reads_def)
  moreover have "length (lrest (snd (scan_token strtod lx2))) \<le> length (lrest lx2)"
    using reads_scan_token [OF reads_refl, where strtod = strtod] by (simp add: reads_def)
  ultimately show ?thesis using s by simp
qed

lemma scan_shrinks: "length (lrest (snd (scan strtod lx))) \<le> length (lrest lx)"
  using reads_scan [OF reads_refl] by (simp add: reads_def)

section \<open>Strings are well-formed\<close>

lemma utf8_from_append: "utf8_from rs xs \<Longrightarrow> utf8 ys \<Longrightarrow> utf8_from rs (xs @ ys)"
  by (induction rs xs rule: utf8_from.induct) (auto simp: utf8_def split: option.splits)

lemma utf8_append: "utf8 xs \<Longrightarrow> utf8 ys \<Longrightarrow> utf8 (xs @ ys)"
  using utf8_from_append [of "[]" xs ys] by (simp add: utf8_def)

lemma utf8_Nil [simp]: "utf8 []"
  by (simp add: utf8_def)

lemma utf8_ascii: "b < 0x80 \<Longrightarrow> utf8 [b]"
  by (simp add: utf8_def utf8_follow_def)

lemma uint_u8: "0 \<le> c \<Longrightarrow> c < 256 \<Longrightarrow> uint (word_of_int c :: u8) = c"
  by (simp add: unsigned_of_int take_bit_int_eq_self)

lemma u8_le: "0 \<le> a \<Longrightarrow> a \<le> b \<Longrightarrow> b < 256 \<Longrightarrow> (word_of_int a :: u8) \<le> word_of_int b"
  by (simp add: word_le_def uint_u8)

definition word_ranges :: "(int \<times> int) list \<Rightarrow> (u8 \<times> u8) list" where
  "word_ranges = map (\<lambda>(lo, hi). (word_of_int lo, word_of_int hi))"

lemma ranges_loop_adds:
  assumes "ranges_loop rs lx = (True, lx')" and "list_all (\<lambda>(lo, hi). 0 \<le> lo \<and> hi < 256) rs"
  shows "\<exists>cs. token_buffer lx' = token_buffer lx @ cs \<and> utf8_from (word_ranges rs) cs"
  using assms
proof (induction rs lx rule: ranges_loop.induct)
  case (1 lx)
  then show ?case by (simp add: word_ranges_def)
next
  case (2 lo hi rs lx)
  let ?c = "current (get lx)"
  from "2.prems"(1) have c: "lo \<le> ?c" "?c \<le> hi" "ranges_loop rs (add ?c (get lx)) = (True, lx')"
    by (auto simp: Let_def split: if_splits)
  with 2 obtain cs where cs: "token_buffer lx' = token_buffer lx @ [word_of_int ?c] @ cs" "utf8_from (word_ranges rs) cs" by auto
  have "0 \<le> lo" "hi < 256" using "2.prems"(2) by simp_all
  then have "(word_of_int lo :: u8) \<le> word_of_int ?c" "(word_of_int ?c :: u8) \<le> word_of_int hi"
    using c(1,2) by (auto intro!: u8_le)
  with cs show ?case by (intro exI [of _ "word_of_int ?c # cs"]) (simp add: word_ranges_def)
qed

lemma string_ranges_follow:
  assumes "string_ranges c = Some rs"
  shows "utf8_follow (word_of_int c) = Some (word_ranges rs)" and "list_all (\<lambda>(lo, hi). 0 \<le> lo \<and> hi < 256) rs"
proof -
  have "0xC2 \<le> c \<and> c \<le> 0xF4" using assms by (auto simp: string_ranges_def split: if_splits)
  then have c: "c = uint (word_of_int c :: u8)" by (simp add: uint_u8)
  show "utf8_follow (word_of_int c) = Some (word_ranges rs)"
    using assms unfolding string_ranges_def utf8_follow_def word_less_def word_uint_eq_iff
    by (subst (asm) c, subst (asm) c) (auto simp: c [symmetric] word_ranges_def split: if_splits)
  show "list_all (\<lambda>(lo, hi). 0 \<le> lo \<and> hi < 256) rs"
    using assms by (auto simp: string_ranges_def split: if_splits)
qed

lemma next_byte_utf8:
  assumes "next_byte_in_range rs lx = (True, lx')" and "string_ranges (current lx) = Some rs" and "utf8 (token_buffer lx)"
  shows "utf8 (token_buffer lx')"
proof -
  obtain cs where cs: "token_buffer lx' = (token_buffer lx @ [word_of_int (current lx)]) @ cs" "utf8_from (word_ranges rs) cs"
    using ranges_loop_adds [OF assms(1) [unfolded next_byte_in_range_def] string_ranges_follow(2) [OF assms(2)]] by auto
  have "utf8 (word_of_int (current lx) # cs)"
    using string_ranges_follow(1) [OF assms(2)] cs(2) by (simp add: utf8_def)
  with utf8_append [OF assms(3) this] cs(1) show ?thesis by simp
qed

text \<open>The bytes of a code point that is not a surrogate.\<close>

definition scalar :: "nat \<Rightarrow> bool" where
  "scalar n \<longleftrightarrow> n < 0xD800 \<or> 0xDFFF < n \<and> n \<le> 0x10FFFF"

lemma unat_or: "take_bit k p = 0 \<Longrightarrow> unat b < 2 ^ k \<Longrightarrow> k < 32 \<Longrightarrow> unat p + 2 ^ k \<le> 2 ^ 32 \<Longrightarrow> unat (p OR b :: u32) = unat p + unat b"
proof -
  assume p: "take_bit k p = 0" and b: "unat b < 2 ^ k" and k: "k < 32" and s: "unat p + 2 ^ k \<le> 2 ^ 32"
  have "take_bit k b = b" using b by (simp add: word_unat_eq_iff unsigned_take_bit_eq take_bit_nat_eq_self)
  then have "bit b n \<Longrightarrow> n < k" "n < k \<Longrightarrow> \<not> bit p n" for n
    using p by (metis bit_take_bit_iff, metis bit_take_bit_iff bit_0_eq bot_apply bot_bool_def)
  then have "p AND b = 0" by (intro bit_word_eqI) (auto simp: bit_simps)
  then have "p OR b = p + b" by (simp add: disjunctive_add_eq_or)
  then show ?thesis using b s by (simp add: unat_word_ariths)
qed

lemma unat_low6: "unat (x AND 0x3F :: u32) = unat x mod 64"
proof -
  have "x AND 0x3F = take_bit 6 x" by (simp add: take_bit_eq_mask mask_numeral)
  then show ?thesis by (simp add: unsigned_take_bit_eq take_bit_nat_def)
qed

lemma unat_cont: "unat (0x80 OR (x AND 0x3F) :: u32) = 0x80 + unat x mod 64"
  by (subst unat_or [of 6]) (simp_all add: unat_low6)

lemma unat_lead:
  "unat cp < 0x800 \<Longrightarrow> unat (0xC0 OR drop_bit 6 cp :: u32) = 0xC0 + unat cp div 64"
  "unat cp < 0x10000 \<Longrightarrow> unat (0xE0 OR drop_bit 12 cp :: u32) = 0xE0 + unat cp div 4096"
  "unat cp < 0x200000 \<Longrightarrow> unat (0xF0 OR drop_bit 18 cp :: u32) = 0xF0 + unat cp div 262144"
  by (subst unat_or [of 5] unat_or [of 4] unat_or [of 3],
      simp_all add: unsigned_drop_bit_eq drop_bit_nat_def take_bit_nat_eq_self less_mult_imp_div_less)+

lemma u8_uint: "(ucast w :: u8) = of_nat (unat (w :: u32))"
  by simp

lemma utf8_follow_nat:
  assumes "n < 256"
  shows "utf8_follow (of_nat n) =
     (if n < 0x80 then Some []
      else if n < 0xC2 then None
      else if n < 0xE0 then Some [(0x80, 0xBF)]
      else if n = 0xE0 then Some [(0xA0, 0xBF), (0x80, 0xBF)]
      else if n = 0xED then Some [(0x80, 0x9F), (0x80, 0xBF)]
      else if n < 0xF0 then Some [(0x80, 0xBF), (0x80, 0xBF)]
      else if n = 0xF0 then Some [(0x90, 0xBF), (0x80, 0xBF), (0x80, 0xBF)]
      else if n < 0xF4 then Some [(0x80, 0xBF), (0x80, 0xBF), (0x80, 0xBF)]
      else if n = 0xF4 then Some [(0x80, 0x8F), (0x80, 0xBF), (0x80, 0xBF)]
      else None)"
  using assms by (simp add: utf8_follow_def word_less_nat_alt word_unat_eq_iff unat_u8_of_nat)

lemma cont_range: "m < 64 \<Longrightarrow> (0x80 :: u8) \<le> of_nat (0x80 + m) \<and> (of_nat (0x80 + m) :: u8) \<le> 0xBF"
  by (simp add: word_le_nat_alt unat_u8_of_nat del: of_nat_add)

lemma unat_drop: "unat (drop_bit 6 cp :: u32) = unat cp div 64" "unat (drop_bit 12 cp :: u32) = unat cp div 4096"
proof -
  have "take_bit 32 (unat cp) = unat cp" using unsigned_less [of cp] by (simp add: take_bit_nat_eq_self_iff)
  then show "unat (drop_bit 6 cp :: u32) = unat cp div 64" "unat (drop_bit 12 cp :: u32) = unat cp div 4096"
    by (simp_all add: unsigned_drop_bit_eq drop_bit_nat_def)
qed

lemma add_codepoint_utf8:
  assumes "scalar (unat cp)" and "utf8 (token_buffer lx)"
  shows "utf8 (token_buffer (add_codepoint cp lx))"
proof -
  let ?n = "unat cp"
  have m: "?n mod 64 < 64" "?n div 64 mod 64 < 64" "?n div 4096 mod 64 < 64" by simp_all
  consider "?n < 0x80" | "0x80 \<le> ?n" "?n < 0x800" | "0x800 \<le> ?n" "?n < 0x10000" | "0x10000 \<le> ?n" by linarith
  then show ?thesis
  proof cases
    case 1
    then have "utf8 [of_nat ?n]" by (intro utf8_ascii) (simp add: word_less_nat_alt unat_u8_of_nat del: of_nat_unat)
    with 1 assms(2) show ?thesis by (simp add: add_codepoint_def word_less_nat_alt u8_uint utf8_append del: of_nat_unat)
  next
    case 2
    then have d: "2 \<le> ?n div 64" "?n div 64 < 32" by (simp_all add: less_eq_div_iff_mult_less_eq less_mult_imp_div_less)
    then have "utf8_follow (of_nat (0xC0 + ?n div 64)) = Some [(0x80, 0xBF)]" by (subst utf8_follow_nat) auto
    with cont_range [OF m(1)] have "utf8 [of_nat (0xC0 + ?n div 64), of_nat (0x80 + ?n mod 64)]" by (simp add: utf8_def)
    from utf8_append [OF assms(2) this] 2 show ?thesis
      by (simp add: add_codepoint_def word_less_nat_alt word_le_nat_alt u8_uint unat_cont unat_lead del: of_nat_unat of_nat_add)
  next
    case 3
    let ?q = "?n div 4096" and ?r = "?n div 64 mod 64"
    have q: "?q < 16" using 3 by (simp add: less_mult_imp_div_less)
    have qr: "?n div 64 = 64 * ?q + ?r" by (simp add: div_mult2_eq [of ?n 64 64, simplified] mult_div_mod_eq)
    have "32 \<le> ?n div 64" using 3 by (simp add: less_eq_div_iff_mult_less_eq)
    then have r0: "?q = 0 \<Longrightarrow> 32 \<le> ?r" using qr by simp
    have r13: "?r < 32" if "?q = 13"
    proof -
      have "?n < 0xE000" using that div_less_iff_less_mult [of 4096 ?n 14] by simp
      then have "?n < 0xD800" using assms(1) by (auto simp: scalar_def)
      then have "?n div 64 < 864" by (simp add: less_mult_imp_div_less)
      with qr that show ?thesis by simp
    qed
    have "utf8 [of_nat (0xE0 + ?q), of_nat (0x80 + ?r), of_nat (0x80 + ?n mod 64)]"
      using q r0 r13 cont_range [OF m(1)] cont_range [OF m(2)] m(2) unfolding utf8_def utf8_from.simps
      by (subst utf8_follow_nat) (auto simp: word_le_nat_alt unat_u8_of_nat simp del: of_nat_add)
    from utf8_append [OF assms(2) this] 3 show ?thesis
      by (simp add: add_codepoint_def word_less_nat_alt word_le_nat_alt u8_uint unat_cont unat_lead unat_drop del: of_nat_unat of_nat_add)
  next
    case 4
    let ?q = "?n div 262144" and ?r = "?n div 4096 mod 64"
    have n: "?n < 0x110000" using 4 assms(1) by (auto simp: scalar_def)
    then have q: "?q < 5" by (simp add: less_mult_imp_div_less)
    have qr: "?n div 4096 = 64 * ?q + ?r" by (simp add: div_mult2_eq [of ?n 4096 64, simplified] mult_div_mod_eq)
    have "16 \<le> ?n div 4096" using 4 by (simp add: less_eq_div_iff_mult_less_eq)
    then have r0: "?q = 0 \<Longrightarrow> 16 \<le> ?r" using qr by simp
    have "?n div 4096 < 272" using n by (simp add: less_mult_imp_div_less)
    then have r4: "?q = 4 \<Longrightarrow> ?r < 16" using qr by simp
    have "utf8 [of_nat (0xF0 + ?q), of_nat (0x80 + ?r), of_nat (0x80 + ?n div 64 mod 64), of_nat (0x80 + ?n mod 64)]"
      using q r0 r4 cont_range [OF m(1)] cont_range [OF m(2)] cont_range [OF m(3)] m(3) unfolding utf8_def utf8_from.simps
      by (subst utf8_follow_nat) (auto simp: word_le_nat_alt unat_u8_of_nat simp del: of_nat_add)
    from utf8_append [OF assms(2) this] 4 n show ?thesis
      by (simp add: add_codepoint_def word_less_nat_alt word_le_nat_alt u8_uint unat_cont unat_lead unat_drop del: of_nat_unat of_nat_add)
  qed
qed

lemma codepoint_loop_bound:
  assumes "codepoint_loop fs cp lx = (cp', lx')" and "unat cp + sum_list (map (\<lambda>f. 15 * 2 ^ f) fs) < 2 ^ 32"
  shows "cp' = - 1 \<or> unat cp' \<le> unat cp + sum_list (map (\<lambda>f. 15 * 2 ^ f) fs)"
  using assms
proof (induction fs cp lx rule: codepoint_loop.induct)
  case (2 f fs cp lx)
  let ?c = "current (get lx)"
  have step: "cp' = - 1 \<or> unat cp' \<le> unat cp + (15 * 2 ^ f + sum_list (map (\<lambda>f. 15 * 2 ^ f) fs))"
    if "codepoint_loop fs (cp + push_bit f (word_of_int ?c - of_nat k)) (get lx) = (cp', lx')" "int k \<le> ?c" "?c \<le> int k + 15"
      "k < 256"
      and IH: "codepoint_loop fs (cp + push_bit f (word_of_int ?c - of_nat k)) (get lx) = (cp', lx') \<Longrightarrow>
        unat (cp + push_bit f (word_of_int ?c - of_nat k)) + sum_list (map (\<lambda>f. 15 * 2 ^ f) fs) < 2 ^ 32 \<Longrightarrow>
        cp' = - 1 \<or> unat cp' \<le> unat (cp + push_bit f (word_of_int ?c - of_nat k)) + sum_list (map (\<lambda>f. 15 * 2 ^ f) fs)" for k
  proof -
    define d where "d = nat (?c - int k)"
    have d: "d \<le> 15" "(word_of_int ?c - of_nat k :: u32) = of_nat d"
      using that(2,3) by (simp_all add: d_def of_nat_nat)
    have f: "15 * 2 ^ f < (2 ^ 32 :: nat)" using "2.prems"(2) by simp
    have le: "d * 2 ^ f \<le> 15 * 2 ^ f" using d(1) by simp
    have "unat (push_bit f (of_nat d :: u32)) = d * 2 ^ f"
      unfolding push_bit_of_nat push_bit_nat_def by (rule unat_u32_of_nat) (use le f in linarith)
    moreover have sm: "unat cp + d * 2 ^ f < 2 ^ 32" using "2.prems"(2) le unfolding list.map sum_list.Cons by linarith
    ultimately have "unat (cp + push_bit f (of_nat d)) = unat cp + d * 2 ^ f" by (simp add: unat_word_ariths)
    then show ?thesis using IH [OF that(1)] "2.prems"(2) le unfolding d(2) list.map sum_list.Cons by linarith
  qed
  show ?case
    using "2.prems" "2.IH"(1) [OF refl refl] "2.IH"(2) [OF refl refl] "2.IH"(3) [OF refl refl]
      step [of "0x30"] step [of "0x37"] step [of "0x57"]
    by (auto simp: Let_def split: if_splits)
qed simp

lemma get_codepoint_bound: "get_codepoint lx = (cp, lx') \<Longrightarrow> cp \<noteq> - 1 \<Longrightarrow> unat cp \<le> 0xFFFF"
  using codepoint_loop_bound [of "[12, 8, 4, 0]" 0 lx cp lx'] by (simp add: get_codepoint_def)

lemma token_buffer_same [simp]:
  "token_buffer (snd (codepoint_loop fs cp lx)) = token_buffer lx"
  by (induction fs cp lx rule: codepoint_loop.induct) (simp_all add: Let_def)

lemma get_codepoint_buffer: "get_codepoint lx = (cp, lx') \<Longrightarrow> token_buffer lx' = token_buffer lx"
  using token_buffer_same [of "[12, 8, 4, 0]" 0 lx] by (simp add: get_codepoint_def)

lemma surrogate_pair:
  assumes "0xD800 \<le> c1" "c1 \<le> 0xDBFF" "0xDC00 \<le> c2" "c2 \<le> (0xDFFF :: u32)"
  shows "scalar (unat (push_bit 10 c1 + c2 - 0x35FDC00))"
proof -
  have b: "0xD800 \<le> unat c1" "unat c1 \<le> 0xDBFF" "0xDC00 \<le> unat c2" "unat c2 \<le> 0xDFFF"
    using assms by (simp_all add: word_le_nat_alt)
  have p: "unat (push_bit 10 c1) = unat c1 * 1024"
    using b by (simp add: unsigned_push_bit_eq push_bit_nat_def take_bit_nat_eq_self)
  then have s: "unat (push_bit 10 c1 + c2) = unat c1 * 1024 + unat c2" using b by (simp add: unat_word_ariths)
  have "unat (push_bit 10 c1 + c2 - 0x35FDC00) = unat c1 * 1024 + unat c2 - 0x35FDC00"
    using b s by (subst unat_sub) (simp_all add: word_le_nat_alt)
  then have "57343 < unat (push_bit 10 c1 + c2 - 0x35FDC00)" "unat (push_bit 10 c1 + c2 - 0x35FDC00) \<le> 0x10FFFF"
    using b by linarith+
  then show ?thesis by (simp add: scalar_def)
qed

lemma scan_unicode_utf8:
  assumes "scan_unicode lx = (True, lx')" and "utf8 (token_buffer lx)"
  shows "utf8 (token_buffer lx')"
proof -
  obtain c1 lx1 where 1: "get_codepoint lx = (c1, lx1)" by (cases "get_codepoint lx")
  obtain c2 lx2 where 2: "get_codepoint (get (get lx1)) = (c2, lx2)" by (cases "get_codepoint (get (get lx1))")
  have b: "utf8 (token_buffer lx1)" "utf8 (token_buffer lx2)"
    using get_codepoint_buffer [OF 1] get_codepoint_buffer [OF 2] assms(2) by simp_all
  from assms(1) consider
      "0xD800 \<le> c1" "c1 \<le> 0xDBFF" "0xDC00 \<le> c2" "c2 \<le> 0xDFFF" "lx' = add_codepoint (push_bit 10 c1 + c2 - 0x35FDC00) lx2"
    | "c1 \<noteq> - 1" "\<not> (0xD800 \<le> c1 \<and> c1 \<le> 0xDBFF)" "\<not> (0xDC00 \<le> c1 \<and> c1 \<le> 0xDFFF)" "lx' = add_codepoint c1 lx1"
    by (auto simp: scan_unicode_def 1 2 Let_def split: if_splits)
  then show ?thesis
  proof cases
    case 1
    show ?thesis unfolding 1(5) by (rule add_codepoint_utf8 [OF surrogate_pair [OF 1(1-4)] b(2)])
  next
    case 2
    then have "scalar (unat c1)" using get_codepoint_bound [OF 1] by (auto simp: scalar_def word_le_nat_alt)
    then show ?thesis unfolding 2(4) by (rule add_codepoint_utf8 [OF _ b(1)])
  qed
qed

lemma utf8_add: "0 \<le> c \<Longrightarrow> c < 0x80 \<Longrightarrow> utf8 (token_buffer lx) \<Longrightarrow> utf8 (token_buffer (add c lx))"
  by (simp add: utf8_append utf8_ascii word_less_def uint_u8)

lemma scan_escape_utf8: "scan_escape lx = (True, lx') \<Longrightarrow> utf8 (token_buffer lx) \<Longrightarrow> utf8 (token_buffer lx')"
  using scan_unicode_utf8 [of "get lx" lx']
  by (auto simp: scan_escape_def Let_def utf8_append utf8_ascii split: if_splits)

lemma string_loop_utf8: "utf8 (token_buffer lx) \<Longrightarrow> scan_string_loop lx = (Value_String, lx') \<Longrightarrow> utf8 (token_buffer lx')"
proof (induction lx rule: scan_string_loop.induct)
  case (1 lx)
  let ?lx = "get lx" and ?c = "current (get lx)"
  have u: "utf8 (token_buffer ?lx)" using 1(4) by simp
  from 1(5) consider "lx' = ?lx"
    | lx2 where "?c \<noteq> eof" "?c \<noteq> 34" "?c = 92" "scan_escape ?lx = (True, lx2)" "scan_string_loop lx2 = (Value_String, lx')"
    | "?c \<noteq> eof" "?c \<noteq> 34" "?c \<noteq> 92" "\<not> (0 \<le> ?c \<and> ?c \<le> 0x1F)" "0x20 \<le> ?c \<and> ?c \<le> 0x7F" "scan_string_loop (add ?c ?lx) = (Value_String, lx')"
    | rs lx2 where "?c \<noteq> eof" "?c \<noteq> 34" "?c \<noteq> 92" "\<not> (0 \<le> ?c \<and> ?c \<le> 0x1F)" "\<not> (0x20 \<le> ?c \<and> ?c \<le> 0x7F)"
        "string_ranges ?c = Some rs" "next_byte_in_range rs ?lx = (True, lx2)" "scan_string_loop lx2 = (Value_String, lx')"
    unfolding scan_string_loop.simps [of lx] Let_def by (auto simp: fail_def split: if_splits option.splits prod.splits)
  then show ?case
  proof cases
    case 1
    with u show ?thesis by simp
  next
    case 2
    show ?thesis
      by (rule 1(1) [OF refl refl 2(1-3) 2(4) [symmetric] _ _ 2(5)]) (use scan_escape_utf8 [OF 2(4) u] in simp_all)
  next
    case 3
    show ?thesis
      by (rule 1(2) [OF refl refl 3(1-5) _ 3(6)]) (use utf8_add [OF _ _ u, of ?c] 3(5) in simp)
  next
    case 4
    show ?thesis
      by (rule 1(3) [OF refl refl 4(1-6) 4(7) [symmetric] _ _ 4(8)]) (use next_byte_utf8 [OF 4(7,6) u] in simp_all)
  qed
qed

lemma scan_number_not_string: "fst (scan_number strtod lx) \<noteq> Value_String"
proof -
  have "fst (number_done strtod nt lx') \<noteq> Value_String" for nt lx'
    by (simp add: number_done_def Let_def split: prod.split)
  then show ?thesis by (simp add: scan_number_def Let_def case_prod_beta)
qed

lemma literal_not_string: "tok \<noteq> Value_String \<Longrightarrow> fst (scan_literal cs tok lx) \<noteq> Value_String"
proof -
  assume "tok \<noteq> Value_String"
  then have "fst (literal_loop cs tok lx) \<noteq> Value_String" for cs
    by (induction cs tok lx rule: literal_loop.induct) (auto simp: Let_def fail_def)
  then show ?thesis by (simp add: scan_literal_def)
qed

lemma scan_string_utf8:
  assumes "scan strtod lx = (Value_String, lx')"
  shows "utf8 (token_buffer lx')"
proof -
  obtain ok lx0 where r: "(if chars_read_total lx = 0 then skip_bom lx else (True, lx)) = (ok, lx0)"
    by (cases "if chars_read_total lx = 0 then skip_bom lx else (True, lx)")
  obtain ok2 lx2 where c: "skip_comments (skip_whitespace lx0) = (ok2, lx2)" by (cases "skip_comments (skip_whitespace lx0)")
  have s: "scan_token strtod lx2 = (Value_String, lx')"
    using assms by (auto simp: scan_def r c fail_def split: if_splits)
  have "fst (scan_token strtod lx2) \<noteq> Value_String" if "current lx2 \<noteq> 34"
    using that scan_number_not_string [of strtod lx2] literal_not_string [of Literal_True "str ''true''" lx2]
      literal_not_string [of Literal_False "str ''false''" lx2] literal_not_string [of Literal_Null "str ''null''" lx2]
    unfolding scan_token_def Let_def fail_def by (simp split del: if_split) (simp split: if_split)
  with s have "current lx2 = 34" by auto
  with s have "scan_string_loop (reset lx2) = (Value_String, lx')" by (simp add: scan_token_def Let_def scan_string_def)
  then show ?thesis by (rule string_loop_utf8 [rotated]) simp
qed
end
