(* ===== verification/Json_Read.thy ===== *)
theory Json_Read
  imports Json_Scan Json_Text
begin

text \<open>
  The lexer of \<^verbatim>\<open>nlohmann::json\<close> reads back every token that the serializer writes: punctuation, literals, escaped
  strings and integers, with white space around them.
\<close>

section \<open>Reading back what was written\<close>

definition ready :: "lexer \<Rightarrow> bool" where
  "ready lx \<longleftrightarrow> lx_inv lx \<and> \<not> ignore_comments lx"

lemma ready_scan: "ready lx \<Longrightarrow> scan strtod lx = (t, lx') \<Longrightarrow> ready lx'"
  using reads_scan [OF reads_refl, of lx strtod] by (auto simp: ready_def reads_def)

lemma skip_whitespace_ws:
  assumes "lx_inv lx" and "lrest lx = w @ c # r" and "ws w" and "\<not> ws [c]"
  shows "current (skip_whitespace lx) = uint c" and "lrest (skip_whitespace lx) = r"
proof -
  have "current (skip_whitespace lx) = uint c \<and> lrest (skip_whitespace lx) = r"
    using assms
  proof (induction w arbitrary: lx)
    case Nil
    have "uint c \<noteq> 32" "uint c \<noteq> 9" "uint c \<noteq> 10" "uint c \<noteq> 13" using Nil.prems(4) by (auto simp: word_uint_eq_iff)
    with get_Cons [OF Nil.prems(1), of c r] Nil.prems(2) show ?case by (simp add: skip_whitespace.simps [of lx] Let_def)
  next
    case (Cons b w)
    note g = get_Cons [OF Cons.prems(1), of b "w @ c # r"]
    have "uint b = 32 \<or> uint b = 9 \<or> uint b = 10 \<or> uint b = 13" using Cons.prems(3) by auto
    then have "skip_whitespace lx = skip_whitespace (get lx)"
      using g(1) Cons.prems(2) by (simp add: skip_whitespace.simps [of lx] Let_def)
    with Cons.IH [of "get lx"] g(2) Cons.prems show ?case by simp
  qed
  then show "current (skip_whitespace lx) = uint c" and "lrest (skip_whitespace lx) = r" by simp_all
qed

text \<open>From the start of the input, or between tokens: white space and a character that starts a token.\<close>

lemma scan_start:
  assumes "ready lx" and "lrest lx = w @ c # r" and "ws w" and "\<not> ws [c]" and "c < 0x80"
  obtains lx1 where "scan strtod lx = scan_token strtod lx1" and "current lx1 = uint c" and "lrest lx1 = r" and "ready lx1"
proof -
  define lx0 where "lx0 = (if chars_read_total lx = 0 then unget (get lx) else lx)"
  obtain b t where bt: "w @ c # r = b # t" by (cases "w @ c # r") simp_all
  have "b \<noteq> 0xEF" using bt assms(3,5) by (cases w) auto
  then have "uint b \<noteq> 0xEF" by (auto simp: word_uint_eq_iff)
  then have bom: "(if chars_read_total lx = 0 then skip_bom lx else (True, lx)) = (True, lx0)"
    using get_Cons(1) [of lx b t] assms(1,2) bt by (simp add: skip_bom_def lx0_def Let_def ready_def)
  have l0: "lx_inv lx0" "lrest lx0 = w @ c # r" "\<not> ignore_comments lx0"
    using assms(1,2) unget_get [of lx] by (simp_all add: lx0_def ready_def)
  have r: "reads lx0 (skip_whitespace lx0)" by (intro reads_intros)
  have "skip_comments (skip_whitespace lx0) = (True, skip_whitespace lx0)"
    using l0(3) r by (simp add: skip_comments.simps [of "skip_whitespace lx0"] reads_def)
  then have "scan strtod lx = scan_token strtod (skip_whitespace lx0)" by (simp add: scan_def bom)
  then show thesis
    using skip_whitespace_ws [OF l0(1,2) assms(3,4)] r l0 by (intro that [of "skip_whitespace lx0"]) (simp_all add: ready_def reads_def)
qed

definition punctuation :: "u8 \<Rightarrow> token_type option" where
  "punctuation c =
     (if c = 91 then Some Begin_Array else if c = 93 then Some End_Array else if c = 123 then Some Begin_Object
      else if c = 125 then Some End_Object else if c = 58 then Some Name_Separator else if c = 44 then Some Value_Separator
      else None)"

lemma scan_punctuation:
  assumes "ready lx" and "lrest lx = w @ c # r" and "ws w" and "punctuation c = Some tok"
  obtains lx' where "scan strtod lx = (tok, lx')" and "lrest lx' = r" and "ready lx'"
proof -
  have "\<not> ws [c]" "c < 0x80" using assms(4) by (auto simp: punctuation_def split: if_splits)
  then obtain lx1 where l: "scan strtod lx = scan_token strtod lx1" "current lx1 = uint c" "lrest lx1 = r" "ready lx1"
    by (rule scan_start [OF assms(1-3)])
  then have "scan strtod lx = (tok, lx1)" using assms(4) by (auto simp: punctuation_def scan_token_def Let_def split: if_splits)
  then show thesis using that l by blast
qed

lemma literal_loop_reads:
  assumes "lx_inv lx" and "lrest lx = cs @ r"
  shows "\<exists>lx'. literal_loop cs tok lx = (tok, lx') \<and> lrest lx' = r"
  using assms
proof (induction cs arbitrary: lx)
  case (Cons c cs)
  note g = get_Cons [OF Cons.prems(1), of c "cs @ r"]
  then show ?case using Cons by (simp add: Let_def)
qed simp

lemma scan_literal_reads:
  assumes "ready lx" and "lrest lx = w @ text @ r" and "ws w"
    and "text = str ''true'' \<and> tok = Literal_True \<or> text = str ''false'' \<and> tok = Literal_False \<or> text = str ''null'' \<and> tok = Literal_Null"
  obtains lx' where "scan strtod lx = (tok, lx')" and "lrest lx' = r" and "ready lx'"
proof -
  obtain c cs where t: "text = c # cs" "c = 116 \<or> c = 102 \<or> c = 110" using assms(4) by (auto simp: bytes_simps)
  then have "\<not> ws [c]" "c < 0x80" by auto
  then obtain lx1 where l: "scan strtod lx = scan_token strtod lx1" "current lx1 = uint c" "lrest lx1 = cs @ r" "ready lx1"
    using scan_start [OF assms(1) _ assms(3)] assms(2) t(1) by (metis append_Cons)
  obtain lx' where "literal_loop cs tok lx1 = (tok, lx')" "lrest lx' = r"
    using literal_loop_reads [of lx1 cs r tok] l(3,4) by (auto simp: ready_def)
  then have "scan_literal text tok lx1 = (tok, lx')" by (simp add: scan_literal_def t(1))
  moreover have "scan_token strtod lx1 = scan_literal text tok lx1"
    using assms(4) l(2) t(1) by (elim disjE conjE) (simp_all add: scan_token_def Let_def str_def)
  ultimately have s: "scan strtod lx = (tok, lx')" using l(1) by simp
  with \<open>lrest lx' = r\<close> ready_scan [OF assms(1) s] that show thesis by blast
qed

text \<open>Characters of several bytes.\<close>

lemma utf8_from_split:
  "utf8_from rs s \<Longrightarrow> \<exists>cs s'. s = cs @ s' \<and> list_all2 (\<lambda>(lo, hi) b. lo \<le> b \<and> b \<le> hi) rs cs \<and> utf8 s'"
proof (induction rs arbitrary: s)
  case Nil
  then show ?case by (intro exI [of _ "[]"] exI [of _ s]) (simp add: utf8_def)
next
  case (Cons p rs)
  obtain lo hi where p: "p = (lo, hi)" by (cases p)
  from Cons.prems obtain b t where s: "s = b # t" "lo \<le> b" "b \<le> hi" "utf8_from rs t" by (cases s) (auto simp: p)
  from Cons.IH [OF s(4)] obtain cs s' where "t = cs @ s'" "list_all2 (\<lambda>(lo, hi) b. lo \<le> b \<and> b \<le> hi) rs cs" "utf8 s'" by blast
  then show ?case using s by (intro exI [of _ "b # cs"] exI [of _ s']) (simp add: p)
qed

lemma ranges_loop_reads:
  assumes "lx_inv lx" and "lrest lx = cs @ r" and "list_all2 (\<lambda>(lo, hi) b. lo \<le> b \<and> b \<le> hi) (word_ranges rs) cs"
    and "list_all (\<lambda>(lo, hi). 0 \<le> lo \<and> lo < 256 \<and> 0 \<le> hi \<and> hi < 256) rs"
  shows "\<exists>lx'. ranges_loop rs lx = (True, lx') \<and> lx_inv lx' \<and> lrest lx' = r \<and> token_buffer lx' = token_buffer lx @ cs"
  using assms
proof (induction rs arbitrary: lx cs)
  case (Cons p rs)
  obtain lo hi where p: "p = (lo, hi)" by (cases p)
  from Cons.prems(3) obtain b t where cs: "cs = b # t" "(word_of_int lo :: u8) \<le> b" "b \<le> word_of_int hi"
    "list_all2 (\<lambda>(lo, hi) b. lo \<le> b \<and> b \<le> hi) (word_ranges rs) t"
    by (auto simp: word_ranges_def p list_all2_Cons1)
  note g = get_Cons [OF Cons.prems(1), of b "t @ r"]
  have "lo \<le> uint b" "uint b \<le> hi" using cs(2,3) Cons.prems(4) by (simp_all add: word_le_def uint_u8 p)
  with Cons.IH [of "add (uint b) (get lx)" t] g cs Cons.prems show ?case by (simp add: Let_def p)
qed (simp add: word_ranges_def)

lemma follow_string_ranges:
  assumes "utf8_follow b = Some rs" and "rs \<noteq> []"
  obtains rs' where "string_ranges (uint b) = Some rs'" and "word_ranges rs' = rs"
    and "list_all (\<lambda>(lo, hi). 0 \<le> lo \<and> lo < 256 \<and> 0 \<le> hi \<and> hi < 256) rs'" and "0x80 \<le> b"
proof -
  have h: "0xC2 \<le> b" using assms by (auto simp: utf8_follow_def not_less split: if_splits)
  then have hi: "0xC2 \<le> uint b" by (simp add: word_le_def)
  have "b \<le> 0xF4" using assms by (auto simp: utf8_follow_def word_le_nat_alt word_less_nat_alt split: if_splits)
  then have lo: "uint b \<le> 0xF4" by (simp add: word_le_def)
  then have "\<exists>rs'. string_ranges (uint b) = Some rs'" using hi by (auto simp: string_ranges_def)
  then obtain rs' where rs': "string_ranges (uint b) = Some rs'" by blast
  have "word_ranges rs' = rs" using string_ranges_follow(1) [OF rs'] assms(1) by simp
  moreover have "list_all (\<lambda>(lo, hi). 0 \<le> lo \<and> lo < 256 \<and> 0 \<le> hi \<and> hi < 256) rs'"
    using rs' by (auto simp: string_ranges_def split: if_splits)
  ultimately show thesis using rs' h by (intro that [of rs']) (simp_all add: word_le_nat_alt)
qed

lemma escaped_append [simp]: "escaped (a @ b) = escaped a @ escaped b"
  by (simp add: escaped_def)

lemma escaped_high: "list_all (\<lambda>c. 0x80 \<le> c) cs \<Longrightarrow> escaped cs = cs"
  by (induction cs) (simp_all add: esc_byte_high)

lemma ranges_high:
  assumes "utf8_follow b = Some rs" and "list_all2 (\<lambda>(lo, hi) b. lo \<le> b \<and> b \<le> hi) rs cs"
  shows "list_all (\<lambda>c. 0x80 \<le> c) cs"
proof -
  have "list_all (\<lambda>(lo, hi). 0x80 \<le> lo) rs" using assms(1) by (auto simp: utf8_follow_def split: if_splits)
  with assms(2) show ?thesis by (induction rs cs rule: list_all2_induct) auto
qed

text \<open>Hexadecimal digits.\<close>

lemma hex_current:
  assumes "d < 16"
  shows "uint (hex_digit d) = (if d < 10 then 48 + int d else 87 + int d)"
proof -
  have "unat (hex_digit d) = (if d < 10 then 48 + d else 87 + d)"
    using assms by (simp add: hex_digit_def unat_word_ariths unat_of_nat)
  then show ?thesis by (metis of_nat_add of_nat_numeral uint_nat)
qed

lemma codepoint_loop_reads:
  assumes "lx_inv lx" and "lrest lx = map hex_digit ds @ r" and "length ds = length fs" and "list_all (\<lambda>d. d < 16) ds"
  shows "\<exists>lx'. codepoint_loop fs cp lx = (cp + sum_list (map2 (\<lambda>f d. push_bit f (of_nat d)) fs ds), lx') \<and> lx_inv lx' \<and>
           lrest lx' = r \<and> token_buffer lx' = token_buffer lx"
  using assms
proof (induction fs arbitrary: ds cp lx)
  case (Cons f fs)
  then obtain d t where ds: "ds = d # t" "d < 16" by (cases ds) auto
  note g = get_Cons [OF Cons.prems(1), of "hex_digit d" "map hex_digit t @ r"]
  have c: "current (get lx) = (if d < 10 then 48 + int d else 87 + int d)"
    using g(1) Cons.prems(2) ds hex_current by simp
  have "codepoint_loop (f # fs) cp lx = codepoint_loop fs (cp + push_bit f (of_nat d)) (get lx)"
    using c ds(2) by (simp add: Let_def)
  with Cons.IH [of "get lx" t "cp + push_bit f (of_nat d)"] g(2) Cons.prems ds show ?case by (simp add: add.assoc)
qed simp

lemma ucast_back: "(ucast (ucast (b :: u8) :: u32) :: u8) = b"
  by (rule bit_word_eqI) (simp add: bit_simps)

lemma control_escape:
  assumes "b \<le> 0x1F" and "lx_inv lx" and "lrest lx = tl (tl (u_escape (ucast b))) @ r"
  shows "\<exists>lx'. scan_unicode lx = (True, lx') \<and> lx_inv lx' \<and> lrest lx' = r \<and> token_buffer lx' = token_buffer lx @ [b]"
proof -
  let ?n = "unat b"
  have n: "?n \<le> 0x1F" using assms(1) by (simp add: word_le_nat_alt)
  have u: "unat (ucast b :: u16) = ?n" using u8_less [of b] by (simp add: unsigned_ucast_eq take_bit_nat_def)
  have "tl (tl (u_escape (ucast b))) = map hex_digit [0, 0, ?n div 16, ?n mod 16]"
    using n by (simp add: u_escape_def u)
  then obtain lx' where l: "get_codepoint lx = (sum_list (map2 (\<lambda>f d. push_bit f (of_nat d)) [12, 8, 4, 0] [0, 0, ?n div 16, ?n mod 16]), lx')"
    "lx_inv lx'" "lrest lx' = r" "token_buffer lx' = token_buffer lx"
    using codepoint_loop_reads [of lx "[0, 0, ?n div 16, ?n mod 16]" r "[12, 8, 4, 0]" 0] assms(2,3) n
    by (auto simp: get_codepoint_def less_mult_imp_div_less)
  have "(of_nat (?n div 16) * 16 + of_nat (?n mod 16) :: u32) = of_nat ?n"
    by (metis div_mult_mod_eq of_nat_add of_nat_mult of_nat_numeral)
  then have "sum_list (map2 (\<lambda>f d. push_bit f (of_nat d)) [12, 8, 4, 0] [0, 0, ?n div 16, ?n mod 16]) = (of_nat ?n :: u32)"
    by (simp add: push_bit_eq_mult)
  then have cp: "get_codepoint lx = (of_nat ?n, lx')" using l(1) by simp
  have un: "unat (of_nat ?n :: u32) = ?n" using n by (intro unat_u32_of_nat) simp
  have lt: "(of_nat ?n :: u32) < 0x80" using n un by (simp add: word_less_nat_alt)
  then have "(of_nat ?n :: u32) \<noteq> - 1" by (metis word_order.extremum_strict)
  moreover have "\<not> 0xD800 \<le> (of_nat ?n :: u32)" "\<not> 0xDC00 \<le> (of_nat ?n :: u32)" "(of_nat ?n :: u32) < 0x80"
    using n un by (simp_all add: word_le_nat_alt word_less_nat_alt)
  ultimately have "scan_unicode lx = (True, add (uint (of_nat ?n :: u32)) lx')"
    by (simp add: scan_unicode_def cp add_codepoint_def)
  moreover have "(word_of_int (uint (of_nat ?n :: u32)) :: u8) = b" by (simp add: ucast_back)
  ultimately show ?thesis using l by simp
qed

text \<open>One round of the loop, for each byte of a string.\<close>

definition escape_of :: "u8 \<Rightarrow> u8 option" where
  "escape_of b =
     (if b = 0x08 then Some 98 else if b = 0x09 then Some 116 else if b = 0x0A then Some 110 else if b = 0x0C then Some 102
      else if b = 0x0D then Some 114 else if b = 0x22 then Some 34 else if b = 0x5C then Some 92 else None)"

lemma esc_byte_cases:
  obtains c where "escape_of b = Some c" and "esc_byte b = [92, c]"
  | "b \<le> 0x1F" and "esc_byte b = u_escape (ucast b)"
  | "0x1F < b" and "b \<noteq> 0x22" and "b \<noteq> 0x5C" and "esc_byte b = [b]"
proof (cases "escape_of b")
  case None
  then have "b \<noteq> 0x22" "b \<noteq> 0x5C" "esc_byte b = (if b \<le> 0x1F then u_escape (ucast b) else [b])"
    by (auto simp: escape_of_def esc_byte_def split: if_splits)
  then show ?thesis using that(2,3) by (cases "b \<le> 0x1F") (simp_all add: not_le)
next
  case (Some c)
  then have "esc_byte b = [92, c]" by (auto simp: escape_of_def esc_byte_def bytes_simps split: if_splits)
  then show ?thesis using that(1) Some by simp
qed

lemma string_loop_simple_escape:
  assumes "lx_inv lx" and "lrest lx = 92 # c # r" and "escape_of b = Some c"
  shows "\<exists>lx'. scan_string_loop lx = scan_string_loop lx' \<and> lx_inv lx' \<and> lrest lx' = r \<and> token_buffer lx' = token_buffer lx @ [b]"
proof -
  note g = get_Cons [OF assms(1,2)]
  note g2 = get_Cons [OF lx_inv_get g(2)]
  have "scan_escape (get lx) = (True, add (uint b) (get (get lx)))"
    using assms(3) g2(1) by (auto simp: scan_escape_def Let_def escape_of_def split: if_splits)
  then have "scan_string_loop lx = scan_string_loop (add (uint b) (get (get lx)))"
    using g(1) by (simp add: scan_string_loop.simps [of lx] Let_def eof_def)
  with g2(2) show ?thesis by (intro exI [of _ "add (uint b) (get (get lx))"]) simp
qed

lemma string_loop_control:
  assumes "lx_inv lx" and "lrest lx = u_escape (ucast b) @ r" and "b \<le> 0x1F"
  shows "\<exists>lx'. scan_string_loop lx = scan_string_loop lx' \<and> lx_inv lx' \<and> lrest lx' = r \<and> token_buffer lx' = token_buffer lx @ [b]"
proof -
  have u: "u_escape (ucast b) = 92 # 117 # tl (tl (u_escape (ucast b)))" by (simp add: u_escape_def)
  note g = get_Cons [OF assms(1), of 92 "117 # tl (tl (u_escape (ucast b))) @ r"]
  have l: "lrest (get lx) = 117 # tl (tl (u_escape (ucast b))) @ r" using g(2) assms(2) u by (metis append_Cons)
  note g2 = get_Cons [OF lx_inv_get l]
  obtain lx' where lx': "scan_unicode (get (get lx)) = (True, lx')" "lx_inv lx'" "lrest lx' = r"
    "token_buffer lx' = token_buffer (get (get lx)) @ [b]"
    using control_escape [OF assms(3) lx_inv_get g2(2)] by blast
  have "scan_escape (get lx) = (True, lx')" using g2(1) lx'(1) by (simp add: scan_escape_def Let_def)
  moreover have "current (get lx) = 92" using g(1) assms(2) u by simp
  ultimately have "scan_string_loop lx = scan_string_loop lx'" by (simp add: scan_string_loop.simps [of lx] Let_def eof_def)
  with lx' show ?thesis by auto
qed

lemma string_loop_plain:
  assumes "lx_inv lx" and "lrest lx = b # r" and "0x1F < b" and "b \<noteq> 0x22" and "b \<noteq> 0x5C" and "b < 0x80"
  shows "\<exists>lx'. scan_string_loop lx = scan_string_loop lx' \<and> lx_inv lx' \<and> lrest lx' = r \<and> token_buffer lx' = token_buffer lx @ [b]"
proof -
  note g = get_Cons [OF assms(1,2)]
  have "0x1F < uint b" "uint b < 0x80" "uint b \<noteq> 34" "uint b \<noteq> 92"
    using assms(3-6) by (auto simp: word_less_def word_uint_eq_iff)
  then have "scan_string_loop lx = scan_string_loop (add (uint b) (get lx))"
    using g(1) by (simp add: scan_string_loop.simps [of lx] Let_def eof_def)
  with g(2) show ?thesis by (intro exI [of _ "add (uint b) (get lx)"]) simp
qed

lemma string_loop_multi:
  assumes "lx_inv lx" and "lrest lx = b # cs @ r" and "utf8_follow b = Some rs" and "rs \<noteq> []"
    and "list_all2 (\<lambda>(lo, hi) b. lo \<le> b \<and> b \<le> hi) rs cs"
  shows "\<exists>lx'. scan_string_loop lx = scan_string_loop lx' \<and> lx_inv lx' \<and> lrest lx' = r \<and> token_buffer lx' = token_buffer lx @ b # cs"
proof -
  note g = get_Cons [OF assms(1,2)]
  obtain rs' where rs': "string_ranges (uint b) = Some rs'" "word_ranges rs' = rs"
    "list_all (\<lambda>(lo, hi). 0 \<le> lo \<and> lo < 256 \<and> 0 \<le> hi \<and> hi < 256) rs'" "0x80 \<le> b"
    by (rule follow_string_ranges [OF assms(3,4)])
  let ?lx = "add (uint b) (get lx)"
  have "lx_inv ?lx" "lrest ?lx = cs @ r" using g(2) by simp_all
  from ranges_loop_reads [OF this assms(5) [folded rs'(2)] rs'(3)] obtain lx' where
    lx': "ranges_loop rs' ?lx = (True, lx')" "lx_inv lx'" "lrest lx' = r" "token_buffer lx' = token_buffer ?lx @ cs" by blast
  have "0x80 \<le> uint b" using rs'(4) by (simp add: word_le_def)
  then have "scan_string_loop lx = scan_string_loop lx'"
    using g(1) rs'(1) lx'(1) by (simp add: scan_string_loop.simps [of lx] Let_def eof_def next_byte_in_range_def)
  with lx' show ?thesis by auto
qed

lemma string_loop_prefix:
  assumes "lx_inv lx" and "lrest lx = escaped b @ r" and "utf8 b"
  shows "\<exists>lx'. scan_string_loop lx = scan_string_loop lx' \<and> lx_inv lx' \<and> lrest lx' = r \<and>
           token_buffer lx' = token_buffer lx @ b"
  using assms
proof (induction "length b" arbitrary: b lx rule: less_induct)
  case less
  show ?case
  proof (cases b)
    case Nil
    with less.prems show ?thesis by auto
  next
    case (Cons c t)
    obtain rs where f: "utf8_follow c = Some rs" "utf8_from rs t"
      using less.prems(3) by (auto simp: Cons utf8_def split: option.splits)
    have step: ?thesis if "scan_string_loop lx = scan_string_loop lx1" "lx_inv lx1" "lrest lx1 = escaped s @ r"
      "token_buffer lx1 = token_buffer lx @ p" "b = p @ s" "p \<noteq> []" "utf8 s" for lx1 p s
      using less.hyps [of s lx1] that by simp
    show ?thesis
    proof (cases "rs = []")
      case True
      have c: "c < 0x80" using f(1) True by (auto simp: utf8_follow_def split: if_splits)
      have t: "utf8 t" using f(2) True by (simp add: utf8_def)
      have l: "lrest lx = esc_byte c @ escaped t @ r" using less.prems(2) by (simp add: Cons)
      have "\<exists>lx1. scan_string_loop lx = scan_string_loop lx1 \<and> lx_inv lx1 \<and> lrest lx1 = escaped t @ r \<and>
              token_buffer lx1 = token_buffer lx @ [c]"
      proof (cases rule: esc_byte_cases [of c])
        case (1 c')
        then show ?thesis using string_loop_simple_escape [OF less.prems(1) _ 1(1)] l by simp
      next
        case 2
        then show ?thesis using string_loop_control [OF less.prems(1) _ 2(1)] l by simp
      next
        case 3
        then show ?thesis using string_loop_plain [OF less.prems(1) _ 3(1-3) c] l by simp
      qed
      with step [of _ t "[c]"] t Cons show ?thesis by auto
    next
      case False
      from utf8_from_split [OF f(2)] obtain cs s where cs: "t = cs @ s"
        "list_all2 (\<lambda>(lo, hi) b. lo \<le> b \<and> b \<le> hi) rs cs" "utf8 s" by blast
      have "0x80 \<le> c" using follow_string_ranges [OF f(1) False] by blast
      then have "lrest lx = c # cs @ escaped s @ r"
        using less.prems(2) escaped_high [OF ranges_high [OF f(1) cs(2)]] by (simp add: Cons cs(1) esc_byte_high)
      from string_loop_multi [OF less.prems(1) this f(1) False cs(2)] step [of _ s "c # cs"] cs Cons show ?thesis by auto
    qed
  qed
qed

lemma string_loop_reads:
  assumes "lx_inv lx" and "lrest lx = escaped b @ 34 # r" and "utf8 b"
  shows "\<exists>lx'. scan_string_loop lx = (Value_String, lx') \<and> lrest lx' = r \<and> token_buffer lx' = token_buffer lx @ b"
proof -
  from string_loop_prefix [OF assms] obtain lx' where
    lx': "scan_string_loop lx = scan_string_loop lx'" "lx_inv lx'" "lrest lx' = 34 # r" "token_buffer lx' = token_buffer lx @ b"
    by blast
  with get_Cons [OF lx'(2,3)] show ?thesis by (simp add: scan_string_loop.simps [of lx'] Let_def eof_def)
qed

lemma scan_string_reads:
  assumes "ready lx" and "lrest lx = w @ json_quoted b @ r" and "ws w" and "utf8 b"
  obtains lx' where "scan strtod lx = (Value_String, lx')" and "lrest lx' = r" and "token_buffer lx' = b" and "ready lx'"
proof -
  have l: "lrest lx = w @ 34 # escaped b @ 34 # r" using assms(2) by (simp add: json_quoted_def)
  obtain lx1 where l1: "scan strtod lx = scan_token strtod lx1" "current lx1 = uint (34 :: u8)" "lrest lx1 = escaped b @ 34 # r" "ready lx1"
    by (rule scan_start [OF assms(1) l assms(3)]) auto
  have "lx_inv (reset lx1)" "lrest (reset lx1) = escaped b @ 34 # r" using l1(3,4) by (simp_all add: ready_def)
  from string_loop_reads [OF this assms(4)] obtain lx' where
    lx': "scan_string_loop (reset lx1) = (Value_String, lx')" "lrest lx' = r" "token_buffer lx' = b" by auto
  have s: "scan strtod lx = (Value_String, lx')" using l1(1,2) lx'(1) by (simp add: scan_token_def Let_def scan_string_def)
  show thesis using that s lx'(2,3) ready_scan [OF assms(1) s] by blast
qed

text \<open>Integers: what follows the number must not continue it.\<close>

definition stops :: "bytes \<Rightarrow> bool" where
  "stops r \<longleftrightarrow> (case r of [] \<Rightarrow> True | c # _ \<Rightarrow> \<not> isdigit c \<and> c \<noteq> 46 \<and> c \<noteq> 101 \<and> c \<noteq> 69)"

lemma digit_isdigit: "digit (uint c) \<longleftrightarrow> isdigit c"
  by (simp add: digit_def isdigit_def word_le_def)

lemma stops_done:
  assumes "lx_inv lx" and "lrest lx = r" and "stops r"
  shows "num_action Zero (current (get lx)) = Done" and "num_action Any1 (current (get lx)) = Done"
proof -
  have "current (get lx) \<noteq> 46 \<and> \<not> exponent_char (current (get lx)) \<and> \<not> digit (current (get lx))"
  proof (cases r)
    case Nil
    then show ?thesis using get_Nil [OF assms(1)] assms(2) by (simp add: eof_def exponent_char_def digit_def)
  next
    case (Cons c s)
    then show ?thesis
      using get_Cons [OF assms(1), of c s] assms(2,3)
      by (auto simp: stops_def exponent_char_def digit_isdigit word_uint_eq_iff)
  qed
  then show "num_action Zero (current (get lx)) = Done" and "num_action Any1 (current (get lx)) = Done" by simp_all
qed

lemma number_loop_stop:
  assumes "lx_inv lx" and "lrest lx = r" and "stops r" and "st = Zero \<or> st = Any1"
  shows "number_loop st nt lx = (nt, unget (get lx))"
  using stops_done [OF assms(1-3)] assms(4) by (auto simp: number_loop.simps [of st] Let_def number_type_def)

lemma number_loop_digits:
  assumes "lx_inv lx" and "lrest lx = ds @ r" and "list_all isdigit ds" and "stops r"
  shows "\<exists>lx'. number_loop Any1 nt lx = (nt, lx') \<and> lrest lx' = r \<and> token_buffer lx' = token_buffer lx @ ds"
  using assms
proof (induction ds arbitrary: lx)
  case Nil
  then show ?case using number_loop_stop [of lx r Any1 nt] unget_get [of lx] by simp
next
  case (Cons d ds)
  note g = get_Cons [OF Cons.prems(1), of d "ds @ r"]
  have "digit (uint d)" using Cons.prems(3) by (simp add: digit_isdigit)
  then have "number_loop Any1 nt lx = number_loop Any1 nt (add (uint d) (get lx))"
    using g(1) Cons.prems(2) by (simp add: number_loop.simps [of Any1 nt lx] Let_def number_type_def)
  with Cons.IH [of "add (uint d) (get lx)"] g(2) Cons.prems show ?case by simp
qed

lemma dec_u_zero: "dec_u 0 = [48]"
  by (simp add: dec_u_small)

lemma dec_u_head:
  assumes "0 < n"
  obtains c ds where "dec_u n = c # ds" and "isdigit c" and "c \<noteq> 48" and "list_all isdigit ds"
proof -
  obtain c ds where cd: "dec_u n = c # ds" using dec_u_nonempty [of n] by (cases "dec_u n") auto
  have "hd (dec_u n) \<noteq> 48" using assms
  proof (induction n rule: dec_u.induct)
    case (1 n)
    show ?case
    proof (cases "n < 10")
      case True
      then have "unat (48 + of_nat n :: u8) \<noteq> 48" using 1 by (simp add: unat_digit)
      then show ?thesis using True by (auto simp: dec_u_small)
    next
      case False
      then show ?thesis using 1(1) by (simp add: dec_u_step hd_append)
    qed
  qed
  with cd dec_u_isdigit [of n] show thesis by (intro that [of c ds]) simp_all
qed

text \<open>The digits of a natural number, behind the characters \<open>p\<close> that are already in the buffer.\<close>

lemma number_digits:
  assumes "lx_inv lx" and "dec_u n = c # ds" and "lrest lx = ds @ r" and "stops r" and "st = (if c = 48 then Zero else Any1)"
  shows "\<exists>lx'. number_loop st nt lx = (nt, lx') \<and> lrest lx' = r \<and> token_buffer lx' = token_buffer lx @ ds"
proof (cases "n = 0")
  case True
  with assms have "ds = []" "st = Zero" by (simp_all add: dec_u_zero)
  with assms number_loop_stop [of lx r Zero nt] unget_get [of lx] show ?thesis by simp
next
  case False
  then obtain c' ds' where "dec_u n = c' # ds'" "c' \<noteq> 48" "list_all isdigit ds'" by (auto elim: dec_u_head)
  with assms show ?thesis using number_loop_digits [OF assms(1,3) _ assms(4)] by simp
qed

lemma strtoull10_dec_u: "n < 2 ^ 64 \<Longrightarrow> strtoull10 (dec_u n) 0 = (of_nat n, 0)"
proof -
  assume n: "n < 2 ^ 64"
  obtain c ds where cd: "dec_u n = c # ds" using dec_u_nonempty [of n] by (cases "dec_u n") auto
  have "isdigit c" using dec_u_isdigit [of n] cd by simp
  then have "\<not> isspace c" "c \<noteq> chr CHR ''-''" "c \<noteq> chr CHR ''+''" by (auto simp: isdigit_def isspace_def chr_def)
  moreover have "dec_val (takeWhile isdigit (c # ds)) = n" using takeWhile_digits [of n] cd by (metis dec_val_dec_u)
  ultimately show ?thesis using n by (simp add: strtoull10_def cd Let_def)
qed

lemma scan_unsigned_reads:
  assumes "ready lx" and "lrest lx = w @ dec_u (unat v) @ r" and "ws w" and "stops r"
  obtains lx' where "scan strtod lx = (Value_Unsigned, lx')" and "lrest lx' = r" and "value_unsigned lx' = v" and "ready lx'"
proof -
  obtain c ds where cd: "dec_u (unat v) = c # ds" using dec_u_nonempty [of "unat v"] by (cases "dec_u (unat v)") auto
  have c: "isdigit c" using dec_u_isdigit [of "unat v"] cd by simp
  then have "\<not> ws [c]" "c < 0x80" by (auto simp: isdigit_def word_le_nat_alt word_less_nat_alt)
  moreover have "lrest lx = w @ c # ds @ r" using assms(2) cd by simp
  ultimately obtain lx1 where l: "scan strtod lx = scan_token strtod lx1" "current lx1 = uint c" "lrest lx1 = ds @ r" "ready lx1"
    using scan_start [OF assms(1) _ assms(3)] by metis
  have "48 \<le> uint c" "uint c \<le> 57" using c by (simp_all add: digit_isdigit [symmetric] digit_def)
  then have tok: "scan_token strtod lx1 = scan_number strtod lx1" by (simp add: scan_token_def Let_def digit_def l(2))
  let ?lx = "add (uint c) (reset lx1)"
  have "lx_inv ?lx" "lrest ?lx = ds @ r" using l(3,4) by (simp_all add: ready_def)
  from number_digits [OF this(1) cd this(2) assms(4) refl, of Value_Unsigned] obtain lx2 where
    n: "number_loop (if c = 48 then Zero else Any1) Value_Unsigned ?lx = (Value_Unsigned, lx2)" "lrest lx2 = r"
    "token_buffer lx2 = dec_u (unat v)" by (auto simp: cd)
  have "strtoull10 (token_buffer lx2) 0 = (v, 0)"
    using strtoull10_dec_u [of "unat v"] unsigned_less [of v] n(3) by simp
  moreover have "uint c = 48 \<longleftrightarrow> c = 48" by (auto simp: word_uint_eq_iff)
  ultimately have "scan_number strtod lx1 = (Value_Unsigned, lx2\<lparr>value_unsigned := v\<rparr>)"
    using n(1) l(2) \<open>48 \<le> uint c\<close> by (simp add: scan_number_def number_done_def Let_def)
  then have s: "scan strtod lx = (Value_Unsigned, lx2\<lparr>value_unsigned := v\<rparr>)" using l(1) tok by simp
  show thesis by (rule that [OF s]) (use n(2) ready_scan [OF assms(1) s] in simp_all)
qed

lemma scan_integer_reads:
  assumes "ready lx" and "lrest lx = w @ dec_s (sint v) @ r" and "ws w" and "stops r" and "sint v < 0"
  obtains lx' where "scan strtod lx = (Value_Integer, lx')" and "lrest lx' = r" and "value_integer lx' = v" and "ready lx'"
proof -
  let ?n = "nat (- sint v)"
  have d: "dec_s (sint v) = 45 # dec_u ?n" using assms(5) by (simp add: dec_s_def chr_def)
  have "0 < ?n" using assms(5) by simp
  then obtain c ds where cd: "dec_u ?n = c # ds" "isdigit c" "c \<noteq> 48" by (rule dec_u_head) blast
  have "\<not> ws [45]" "(45 :: u8) < 0x80" by simp_all
  moreover have "lrest lx = w @ 45 # c # ds @ r" using assms(2) d cd by simp
  ultimately obtain lx1 where l: "scan strtod lx = scan_token strtod lx1" "current lx1 = uint (45 :: u8)"
    "lrest lx1 = c # ds @ r" "ready lx1" using scan_start [OF assms(1) _ assms(3)] by metis
  have tok: "scan_token strtod lx1 = scan_number strtod lx1" using l(2) by (simp add: scan_token_def Let_def)
  let ?lx = "add 45 (reset lx1)"
  have i: "lx_inv ?lx" "lrest ?lx = c # ds @ r" using l(3,4) by (simp_all add: ready_def)
  note g = get_Cons [OF i]
  let ?lx' = "add (uint c) (get ?lx)"
  have "digit (uint c)" "uint c \<noteq> 48" using cd(2,3) by (auto simp: digit_isdigit word_uint_eq_iff)
  then have m: "number_loop Minus Value_Unsigned ?lx = number_loop Any1 Value_Integer ?lx'"
    using g(1) by (simp add: number_loop.simps [of Minus] Let_def number_type_def)
  have "lx_inv ?lx'" "lrest ?lx' = ds @ r" using g(2) by simp_all
  from number_digits [OF this(1) cd(1) this(2) assms(4), of Any1 Value_Integer] cd(3) obtain lx2 where
    n: "number_loop Any1 Value_Integer ?lx' = (Value_Integer, lx2)" "lrest lx2 = r" "token_buffer lx2 = dec_s (sint v)"
    by (auto simp: d cd(1))
  have "strtol10 (token_buffer lx2) 0 = (sint v, 0)"
    using sint_ge [of v] sint_lt [of v] unfolding n(3) by (intro strtol10_dec_s) simp_all
  then have "scan_number strtod lx1 = (Value_Integer, lx2\<lparr>value_integer := v\<rparr>)"
    using m n(1) l(2) by (simp add: scan_number_def number_done_def Let_def)
  then have s: "scan strtod lx = (Value_Integer, lx2\<lparr>value_integer := v\<rparr>)" using l(1) tok by simp
  show thesis by (rule that [OF s]) (use n(2) ready_scan [OF assms(1) s] in simp_all)
qed

end
