(* ===== verification/Json_Parse.thy ===== *)
theory Json_Parse
  imports Json_Scan
begin

text \<open>
  The classes \<open>parser\<close> and \<open>json_sax_dom_parser\<close> of \<^verbatim>\<open>nlohmann::json\<close>: the loop with its stack of open
  arrays and objects, and the construction of the value through pointers into it. A pointer is a path from the root.
  A thrown exception is a value of \<open>parse_exception\<close>, which holds what its text is made of; a failing assertion is
  \<open>Assertion\<close>.
\<close>

section \<open>Pointers into a value\<close>

datatype path_step = Idx nat | Key cstr

type_synonym path = "path_step list"

fun get_at :: "path \<Rightarrow> json \<Rightarrow> json option" where
  "get_at [] j = Some j"
| "get_at (Idx i # p) (JArray xs) = (if i < length xs then get_at p (xs ! i) else None)"
| "get_at (Key k # p) (JObject m) = (case map_of m k of None \<Rightarrow> None | Some v \<Rightarrow> get_at p v)"
| "get_at (_ # _) _ = None"

fun upd_at :: "path \<Rightarrow> (json \<Rightarrow> json) \<Rightarrow> json \<Rightarrow> json" where
  "upd_at [] g j = g j"
| "upd_at (Idx i # p) g (JArray xs) = (if i < length xs then JArray (xs[i := upd_at p g (xs ! i)]) else JArray xs)"
| "upd_at (Key k # p) g (JObject m) =
     (case map_of m k of None \<Rightarrow> JObject m | Some v \<Rightarrow> JObject (obj_put k (upd_at p g v) m))"
| "upd_at (_ # _) g j = j"

section \<open>Building the value\<close>

text \<open>The back of the vector \<open>ref_stack\<close> is the head of the list.\<close>

record sax =
  root :: json
  ref_stack :: "path list"
  object_element :: "path option"

definition handle_value :: "json \<Rightarrow> sax \<Rightarrow> (path \<times> sax) option" where
  "handle_value v s =
     (case ref_stack s of
        [] \<Rightarrow> Some ([], s\<lparr>root := v\<rparr>)
      | p # _ \<Rightarrow>
          (case get_at p (root s) of
             Some (JArray xs) \<Rightarrow> Some (p @ [Idx (length xs)], s\<lparr>root := upd_at p (\<lambda>_. JArray (xs @ [v])) (root s)\<rparr>)
           | Some (JObject m) \<Rightarrow>
               (case object_element s of
                  Some q \<Rightarrow> Some (q, s\<lparr>root := upd_at q (\<lambda>_. v) (root s)\<rparr>)
                | None \<Rightarrow> None)
           | _ \<Rightarrow> None))"

definition start_container :: "json \<Rightarrow> sax \<Rightarrow> sax option" where
  "start_container v s =
     (case handle_value v s of None \<Rightarrow> None | Some (p, s) \<Rightarrow> Some (s\<lparr>ref_stack := p # ref_stack s\<rparr>))"

definition start_object :: "sax \<Rightarrow> sax option" where "start_object = start_container (JObject [])"
definition start_array :: "sax \<Rightarrow> sax option" where "start_array = start_container (JArray [])"

text \<open>\<^verbatim>\<open>operator[]\<close> of the map adds null for a new key.\<close>

definition sax_key :: "cstr \<Rightarrow> sax \<Rightarrow> sax option" where
  "sax_key k s =
     (case ref_stack s of
        [] \<Rightarrow> None
      | p # _ \<Rightarrow>
          (case get_at p (root s) of
             Some (JObject m) \<Rightarrow>
               Some (s\<lparr>root := (if map_of m k = None then upd_at p (\<lambda>_. JObject (obj_put k JNull m)) (root s) else root s),
                      object_element := Some (p @ [Key k])\<rparr>)
           | _ \<Rightarrow> None))"

definition end_object :: "sax \<Rightarrow> sax option" where
  "end_object s =
     (case ref_stack s of
        [] \<Rightarrow> None
      | p # ps \<Rightarrow> (case get_at p (root s) of Some (JObject m) \<Rightarrow> Some (s\<lparr>ref_stack := ps\<rparr>) | _ \<Rightarrow> None))"

definition end_array :: "sax \<Rightarrow> sax option" where
  "end_array s =
     (case ref_stack s of
        [] \<Rightarrow> None
      | p # ps \<Rightarrow> (case get_at p (root s) of Some (JArray xs) \<Rightarrow> Some (s\<lparr>ref_stack := ps\<rparr>) | _ \<Rightarrow> None))"

section \<open>The parser\<close>

record parser =
  m_lexer :: lexer
  last_token :: token_type
  p_sax :: sax

text \<open>
  \<open>Syntax_Error\<close> has the last token, the expected one, what was being parsed, the lexer's message, the text of the
  token and the number of characters read.
\<close>

datatype parse_exception =
    Syntax_Error token_type token_type string lex_message bytes nat
  | Number_Overflow bytes
  | Assertion

definition get_token :: "(bytes \<Rightarrow> u64) \<Rightarrow> parser \<Rightarrow> parser" where
  "get_token strtod p = (case scan strtod (m_lexer p) of (t, lx) \<Rightarrow> p\<lparr>m_lexer := lx, last_token := t\<rparr>)"

definition syntax_error :: "token_type \<Rightarrow> string \<Rightarrow> parser \<Rightarrow> parse_exception" where
  "syntax_error expected context p =
     Syntax_Error (last_token p) expected context
       (if last_token p = Parse_Error then error_message (m_lexer p) else No_Message)
       (get_token_string (m_lexer p)) (chars_read_total (m_lexer p))"

text \<open>An event of the value builder; all of them return true.\<close>

definition event :: "sax option \<Rightarrow> parser \<Rightarrow> parse_exception + parser" where
  "event s p = (case s of None \<Rightarrow> Inl Assertion | Some s \<Rightarrow> Inr (p\<lparr>p_sax := s\<rparr>))"

definition bind_parse :: "parse_exception + 'a \<Rightarrow> ('a \<Rightarrow> parse_exception + 'b) \<Rightarrow> parse_exception + 'b" where
  "bind_parse r f = (case r of Inl e \<Rightarrow> Inl e | Inr x \<Rightarrow> f x)"

lemma bind_parse_simps [simp]: "bind_parse (Inl e) f = Inl e" "bind_parse (Inr x) f = f x"
  by (simp_all add: bind_parse_def)

text \<open>A key, the colon behind it, and the token after that.\<close>

definition parse_key :: "(bytes \<Rightarrow> u64) \<Rightarrow> parser \<Rightarrow> parse_exception + parser" where
  "parse_key strtod p =
     (if last_token p \<noteq> Value_String then Inl (syntax_error Value_String ''object key'' p)
      else bind_parse (event (sax_key (token_buffer (m_lexer p)) (p_sax p)) p)
             (\<lambda>p. let p = get_token strtod p
                  in if last_token p \<noteq> Name_Separator then Inl (syntax_error Name_Separator ''object separator'' p)
                     else Inr (get_token strtod p)))"

text \<open>\<open>Go_On\<close> is \<^verbatim>\<open>continue\<close>, \<open>Value_Done\<close> is \<^verbatim>\<open>break\<close> out of the switch; both with the stack \<open>states\<close>.\<close>

datatype flow = Go_On "bool list" parser | Value_Done "bool list" parser

definition scalar_value :: "json \<Rightarrow> bool list \<Rightarrow> parser \<Rightarrow> parse_exception + flow" where
  "scalar_value v states p =
     bind_parse (event (map_option snd (handle_value v (p_sax p))) p) (\<lambda>p. Inr (Value_Done states p))"

definition parse_value :: "(bytes \<Rightarrow> u64) \<Rightarrow> bool list \<Rightarrow> parser \<Rightarrow> parse_exception + flow" where
  "parse_value strtod states p =
     (case last_token p of
        Begin_Object \<Rightarrow>
          bind_parse (event (start_object (p_sax p)) p)
            (\<lambda>p. let p = get_token strtod p
                 in if last_token p = End_Object
                    then bind_parse (event (end_object (p_sax p)) p) (\<lambda>p. Inr (Value_Done states p))
                    else bind_parse (parse_key strtod p) (\<lambda>p. Inr (Go_On (False # states) p)))
      | Begin_Array \<Rightarrow>
          bind_parse (event (start_array (p_sax p)) p)
            (\<lambda>p. let p = get_token strtod p
                 in if last_token p = End_Array
                    then bind_parse (event (end_array (p_sax p)) p) (\<lambda>p. Inr (Value_Done states p))
                    else Inr (Go_On (True # states) p))
      | Value_Float \<Rightarrow>
          if \<not> isfinite (value_float (m_lexer p)) then Inl (Number_Overflow (get_token_string (m_lexer p)))
          else scalar_value (JFloat (value_float (m_lexer p))) states p
      | Literal_False \<Rightarrow> scalar_value (JBool False) states p
      | Literal_Null \<Rightarrow> scalar_value JNull states p
      | Literal_True \<Rightarrow> scalar_value (JBool True) states p
      | Value_Integer \<Rightarrow> scalar_value (JInteger (value_integer (m_lexer p))) states p
      | Value_String \<Rightarrow> scalar_value (JString (token_buffer (m_lexer p))) states p
      | Value_Unsigned \<Rightarrow> scalar_value (JUnsigned (value_unsigned (m_lexer p))) states p
      | Parse_Error \<Rightarrow> Inl (syntax_error Uninitialized ''value'' p)
      | _ \<Rightarrow> Inl (syntax_error Literal_Or_Value ''value'' p))"

text \<open>What follows a value: \<open>None\<close> is the end, otherwise \<open>skip_to_state_evaluation\<close>, the stack and the parser.\<close>

definition eval_state :: "(bytes \<Rightarrow> u64) \<Rightarrow> bool list \<Rightarrow> parser \<Rightarrow> parse_exception + (bool \<times> bool list \<times> parser) option" where
  "eval_state strtod states p =
     (case states of
        [] \<Rightarrow> Inr None
      | True # st \<Rightarrow>
          (let p = get_token strtod p
           in if last_token p = Value_Separator then Inr (Some (False, states, get_token strtod p))
              else if last_token p = End_Array then
                bind_parse (event (end_array (p_sax p)) p) (\<lambda>p. Inr (Some (True, st, p)))
              else Inl (syntax_error End_Array ''array'' p))
      | False # st \<Rightarrow>
          (let p = get_token strtod p
           in if last_token p = Value_Separator then
                bind_parse (parse_key strtod (get_token strtod p)) (\<lambda>p. Inr (Some (False, states, p)))
              else if last_token p = End_Object then
                bind_parse (event (end_object (p_sax p)) p) (\<lambda>p. Inr (Some (True, st, p)))
              else Inl (syntax_error End_Object ''object'' p)))"

section \<open>Every round of the loop consumes input\<close>

definition psize :: "parser \<Rightarrow> nat" where
  "psize p = length (lrest (m_lexer p))"

definition at_end :: "parser \<Rightarrow> bool" where
  "at_end p \<longleftrightarrow> last_token p = Parse_Error \<or> last_token p = End_Of_Input"

lemma get_token_size:
  "psize (get_token strtod p) \<le> psize p"
  "\<not> at_end (get_token strtod p) \<Longrightarrow> psize (get_token strtod p) < psize p"
  using scan_shrinks [of strtod "m_lexer p"] scan_consumes [of strtod "m_lexer p"]
  by (auto simp: get_token_def psize_def at_end_def split: prod.splits)

lemma event_size [simp]: "event s p = Inr p' \<Longrightarrow> psize p' = psize p"
  by (auto simp: event_def psize_def split: option.splits)

lemma event_token [simp]: "event s p = Inr p' \<Longrightarrow> last_token p' = last_token p"
  by (auto simp: event_def split: option.splits)

lemma parse_key_size:
  assumes "parse_key strtod p = Inr p'"
  shows "psize p' < psize p"
proof -
  obtain p1 where e: "event (sax_key (token_buffer (m_lexer p)) (p_sax p)) p = Inr p1"
    and t: "last_token (get_token strtod p1) = Name_Separator" and p': "p' = get_token strtod (get_token strtod p1)"
    using assms by (cases "event (sax_key (token_buffer (m_lexer p)) (p_sax p)) p") (auto simp: parse_key_def Let_def split: if_splits)
  have "psize (get_token strtod p1) < psize p1" using t by (intro get_token_size(2)) (simp add: at_end_def)
  with get_token_size(1) [of strtod "get_token strtod p1"] event_size [OF e] show ?thesis by (simp add: p')
qed

definition round_size :: "bool \<Rightarrow> parser \<Rightarrow> nat" where
  "round_size skip p = 2 * psize p + (if \<not> skip \<and> at_end p then 0 else 1)"

lemma bind_parse_Inr: "bind_parse r f = Inr y \<longleftrightarrow> (\<exists>x. r = Inr x \<and> f x = Inr y)"
  by (cases r) simp_all

lemma eval_state_size:
  assumes "eval_state strtod states p = Inr (Some (skip, states', p'))"
  shows "psize p' < psize p"
proof -
  let ?p = "get_token strtod p"
  from assms have tok: "last_token ?p = Value_Separator \<or> last_token ?p = End_Array \<or> last_token ?p = End_Object"
    by (auto simp: eval_state_def Let_def split: list.splits bool.splits if_splits)
  then have less: "psize ?p < psize p" by (intro get_token_size(2)) (auto simp: at_end_def)
  have "psize p' \<le> psize ?p"
    using assms get_token_size(1) [of strtod ?p]
    by (auto simp: eval_state_def Let_def bind_parse_Inr dest!: parse_key_size split: list.splits bool.splits if_splits)
  with less show ?thesis by simp
qed

lemma parse_value_size:
  assumes "parse_value strtod states p = Inr (Go_On states' p')"
  shows "round_size False p' < round_size False p"
proof -
  have ne: "\<not> at_end p" using assms by (auto simp: parse_value_def at_end_def)
  from assms consider
      p1 where "last_token p = Begin_Object" "event (start_object (p_sax p)) p = Inr p1" "parse_key strtod (get_token strtod p1) = Inr p'"
    | p1 where "event (start_array (p_sax p)) p = Inr p1" "p' = get_token strtod p1"
    by (auto simp: parse_value_def scalar_value_def bind_parse_Inr Let_def split: token_type.splits if_splits)
  then show ?thesis
  proof cases
    case 1
    with parse_key_size [OF 1(3)] get_token_size(1) [of strtod p1] event_size [OF 1(2)] show ?thesis by (simp add: round_size_def)
  next
    case 2
    with get_token_size [of strtod p1] event_size [OF 2(1)] ne show ?thesis by (auto simp: round_size_def)
  qed
qed

lemma parse_value_done_size:
  assumes "parse_value strtod states p = Inr (Value_Done states' p')"
  shows "psize p' \<le> psize p"
  using assms
  by (auto simp: parse_value_def scalar_value_def bind_parse_Inr Let_def split: token_type.splits if_splits dest!: event_size)
     (metis get_token_size(1))+

section \<open>The loop and the entry points\<close>

function sax_parse_internal :: "(bytes \<Rightarrow> u64) \<Rightarrow> bool \<Rightarrow> bool list \<Rightarrow> parser \<Rightarrow> parse_exception + parser" where
  "sax_parse_internal strtod skip states p =
     (case (if skip then Inr (Value_Done states p) else parse_value strtod states p) of
        Inl e \<Rightarrow> Inl e
      | Inr (Go_On states' p') \<Rightarrow> sax_parse_internal strtod False states' p'
      | Inr (Value_Done states' p') \<Rightarrow>
          (case eval_state strtod states' p' of
             Inl e \<Rightarrow> Inl e
           | Inr None \<Rightarrow> Inr p'
           | Inr (Some (skip', states'', p'')) \<Rightarrow> sax_parse_internal strtod skip' states'' p''))"
  by pat_completeness auto
termination
proof (relation "measure (\<lambda>(strtod, skip, states, p). round_size skip p)", goal_cases)
  case (2 strtod skip states p fl states' p')
  then show ?case using parse_value_size [of strtod states p states' p'] by (auto split: if_splits)
next
  case (3 strtod skip states p fl states' p' opt skipst skip' rest states'' p'')
  then have "psize p'' < psize p'" using eval_state_size by blast
  moreover have "psize p' \<le> psize p" "skip \<or> \<not> at_end p"
    using 3 parse_value_done_size [of strtod states p states' p'] by (auto simp: parse_value_def at_end_def split: if_splits)
  ultimately show ?case by (auto simp: round_size_def)
qed simp

declare sax_parse_internal.simps [simp del]

definition parser0 :: "(bytes \<Rightarrow> u64) \<Rightarrow> bytes \<Rightarrow> bool \<Rightarrow> parser" where
  "parser0 strtod s ic =
     get_token strtod
       \<lparr>m_lexer = lexer0 s ic, last_token = Uninitialized,
        p_sax = \<lparr>root = JNull, ref_stack = [], object_element = None\<rparr>\<rparr>"

definition parser_parse :: "(bytes \<Rightarrow> u64) \<Rightarrow> bool \<Rightarrow> parser \<Rightarrow> parse_exception + json" where
  "parser_parse strtod strict p =
     bind_parse (sax_parse_internal strtod False [] p)
       (\<lambda>p. let p' = (if strict then get_token strtod p else p)
            in if strict \<and> last_token p' \<noteq> End_Of_Input then Inl (syntax_error End_Of_Input ''value'' p')
               else Inr (root (p_sax p')))"

definition basic_json_parse :: "(bytes \<Rightarrow> u64) \<Rightarrow> bytes \<Rightarrow> parse_exception + json" where
  "basic_json_parse strtod s = parser_parse strtod True (parser0 strtod s False)"

section \<open>Pointers\<close>

lemma get_at_append: "get_at (p @ q) j = (case get_at p j of None \<Rightarrow> None | Some v \<Rightarrow> get_at q v)"
  by (induction p j rule: get_at.induct) (auto split: option.splits)

lemma upd_at_append: "upd_at (p @ q) g j = upd_at p (upd_at q g) j"
  by (induction p "upd_at q g" j rule: upd_at.induct) (auto split: option.splits)

text \<open>\<open>lens q f\<close>: the pointer \<open>q\<close> points to the value that \<open>f\<close> embeds.\<close>

definition lens :: "path \<Rightarrow> (json \<Rightarrow> json) \<Rightarrow> bool" where
  "lens q f \<longleftrightarrow> (\<forall>v. get_at q (f v) = Some v \<and> (\<forall>g. upd_at q g (f v) = f (g v)))"

definition slot :: "sax \<Rightarrow> path \<Rightarrow> (json \<Rightarrow> json) \<Rightarrow> bool" where
  "slot s q f \<longleftrightarrow> (\<forall>v. handle_value v s = Some (q, s\<lparr>root := f v\<rparr>)) \<and> lens q f"

lemma slot_root: "ref_stack s = [] \<Longrightarrow> slot s [] (\<lambda>v. v)"
  by (simp add: slot_def handle_value_def lens_def)

lemma slot_element:
  assumes "lens q f" and "ref_stack s = q # rs" and "root s = f (JArray xs)"
  shows "slot s (q @ [Idx (length xs)]) (\<lambda>v. f (JArray (xs @ [v])))"
  using assms by (simp add: slot_def handle_value_def lens_def get_at_append upd_at_append)

lemma obj_put_put: "obj_put k v (obj_put k v' m) = obj_put k v m"
  by (induction k v' m rule: obj_put.induct) auto

lemma obj_put_same: "map_of m k = Some v' \<Longrightarrow> obj_put k v (obj_put k v' m) = obj_put k v m"
  by (rule obj_put_put)

lemma map_of_put_same [simp]: "map_of (obj_put k v m) k = Some v"
  by (simp add: map_of_obj_put)

lemma sax_key_slot:
  assumes "lens q f" and "ref_stack s = q # rs" and "root s = f (JObject m)"
  obtains s' where "sax_key k s = Some s'" and "ref_stack s' = q # rs" and "slot s' (q @ [Key k]) (\<lambda>v. f (JObject (obj_put k v m)))"
proof -
  define m' where "m' = (if map_of m k = None then obj_put k JNull m else m)"
  obtain v0 where v0: "map_of m' k = Some v0" by (cases "map_of m k") (auto simp: m'_def)
  have put: "obj_put k v m' = obj_put k v m" for v by (simp add: m'_def obj_put_put)
  have q: "get_at q (f v) = Some v" "upd_at q g (f v) = f (g v)" for v g using assms(1) by (simp_all add: lens_def)
  define s' where "s' = s\<lparr>root := f (JObject m'), object_element := Some (q @ [Key k])\<rparr>"
  have "sax_key k s = Some s'" by (simp add: sax_key_def assms(2,3) q m'_def s'_def)
  moreover have "handle_value v s' = Some (q @ [Key k], s'\<lparr>root := f (JObject (obj_put k v m))\<rparr>)" for v
    by (simp add: handle_value_def s'_def assms(2) q upd_at_append v0 put)
  moreover have "lens (q @ [Key k]) (\<lambda>v. f (JObject (obj_put k v m)))"
    by (simp add: lens_def q get_at_append upd_at_append obj_put_put)
  ultimately show thesis using assms(2) by (intro that [of s']) (simp_all add: slot_def s'_def)
qed

lemma obj_put_last: "list_all (\<lambda>(k', v'). k' < k) m \<Longrightarrow> obj_put k v m = m @ [(k, v)]"
proof (induction m)
  case (Cons kv m)
  obtain k' v' where kv: "kv = (k', v')" by (cases kv)
  have "k' < k" using Cons.prems by (simp add: kv)
  then have "k \<noteq> k'" "\<not> k < k'" using less_not_sym by blast+
  with Cons show ?case by (simp add: kv)
qed simp

end
