(* ===== verification/Json_Roundtrip.thy ===== *)
theory Json_Roundtrip
  imports Json_Parse Json_Read
begin

text \<open>
  The parser of \<^verbatim>\<open>nlohmann::json\<close> reads every text of a value as that value.
\<close>

section \<open>The texts of a value are read as that value\<close>

text \<open>\<open>parsed p r j rs\<close>: the text \<open>r\<close> is left, the value so far is \<open>j\<close> and the open containers are \<open>rs\<close>.\<close>

definition parsed :: "parser \<Rightarrow> bytes \<Rightarrow> json \<Rightarrow> path list \<Rightarrow> bool" where
  "parsed p r j rs \<longleftrightarrow> ready (m_lexer p) \<and> lrest (m_lexer p) = r \<and> root (p_sax p) = j \<and> ref_stack (p_sax p) = rs"

lemma get_token_simps [simp]: "p_sax (get_token strtod p) = p_sax p"
  by (simp add: get_token_def split: prod.split)

lemma get_token_eq: "scan strtod (m_lexer p) = (t, lx) \<Longrightarrow> get_token strtod p = p\<lparr>m_lexer := lx, last_token := t\<rparr>"
  by (simp add: get_token_def)

lemma loop_value_done:
  "parse_value strtod states p = Inr (Value_Done states' p') \<Longrightarrow>
   sax_parse_internal strtod False states p = sax_parse_internal strtod True states' p'"
  by (subst (1 2) sax_parse_internal.simps) simp

lemma loop_go_on:
  "parse_value strtod states p = Inr (Go_On states' p') \<Longrightarrow>
   sax_parse_internal strtod False states p = sax_parse_internal strtod False states' p'"
  by (subst sax_parse_internal.simps) simp

lemma loop_eval:
  "eval_state strtod states p = Inr (Some (skip, states', p')) \<Longrightarrow>
   sax_parse_internal strtod True states p = sax_parse_internal strtod skip states' p'"
  by (subst sax_parse_internal.simps) simp

lemma token_punctuation:
  assumes "ready (m_lexer p)" and "lrest (m_lexer p) = w @ c # r" and "ws w" and "punctuation c = Some tok"
  obtains lx where "get_token strtod p = p\<lparr>m_lexer := lx, last_token := tok\<rparr>" and "lrest lx = r" and "ready lx"
proof -
  obtain lx where "scan strtod (m_lexer p) = (tok, lx)" "lrest lx = r" "ready lx" by (rule scan_punctuation [OF assms])
  then show thesis using get_token_eq that by blast
qed

text \<open>The statement for values, for the elements of an array and for the members of an object.\<close>

definition value_reads :: "(bytes \<Rightarrow> u64) \<Rightarrow> json \<Rightarrow> bytes \<Rightarrow> bool" where
  "value_reads strtod j t \<longleftrightarrow>
     (\<forall>p states r w q f. json_std j \<longrightarrow> ready (m_lexer p) \<longrightarrow> lrest (m_lexer p) = w @ t @ r \<longrightarrow> ws w \<longrightarrow> stops r \<longrightarrow>
        slot (p_sax p) q f \<longrightarrow>
        last_token (get_token strtod p) \<notin> {End_Array, End_Object} \<and>
        (\<exists>p'. sax_parse_internal strtod False states (get_token strtod p) = sax_parse_internal strtod True states p' \<and>
              parsed p' r (f (json_norm j)) (ref_stack (p_sax p))))"

definition elements_read :: "(bytes \<Rightarrow> u64) \<Rightarrow> json list \<Rightarrow> bytes \<Rightarrow> bool" where
  "elements_read strtod js t \<longleftrightarrow>
     (\<forall>p states r q f rs xs. list_all json_std js \<longrightarrow> ready (m_lexer p) \<longrightarrow> lrest (m_lexer p) = t @ 93 # r \<longrightarrow>
        lens q f \<longrightarrow> ref_stack (p_sax p) = q # rs \<longrightarrow> root (p_sax p) = f (JArray xs) \<longrightarrow>
        last_token (get_token strtod p) \<noteq> End_Array \<and>
        (\<exists>p'. sax_parse_internal strtod False (True # states) (get_token strtod p) = sax_parse_internal strtod True states p' \<and>
              parsed p' r (f (JArray (xs @ map json_norm js))) rs))"

definition members_read :: "(bytes \<Rightarrow> u64) \<Rightarrow> (cstr \<times> json) list \<Rightarrow> bytes \<Rightarrow> bool" where
  "members_read strtod m t \<longleftrightarrow>
     (\<forall>p states r q f rs m0. list_all (\<lambda>(k, v). json_std v) m \<longrightarrow> sorted_wrt (<) (map fst m0 @ map fst m) \<longrightarrow>
        ready (m_lexer p) \<longrightarrow> lrest (m_lexer p) = t @ 125 # r \<longrightarrow>
        lens q f \<longrightarrow> ref_stack (p_sax p) = q # rs \<longrightarrow> root (p_sax p) = f (JObject m0) \<longrightarrow>
        last_token (get_token strtod p) \<noteq> End_Object \<and>
        (\<exists>p1 p'. parse_key strtod (get_token strtod p) = Inr p1 \<and>
              sax_parse_internal strtod False (False # states) p1 = sax_parse_internal strtod True states p' \<and>
              parsed p' r (f (JObject (m0 @ map (\<lambda>(k, v). (k, json_norm v)) m))) rs))"

lemma value_readsE:
  assumes "value_reads strtod j t" and "json_std j" and "ready (m_lexer p)" and "lrest (m_lexer p) = w @ t @ r" and "ws w"
    and "stops r" and "slot (p_sax p) q f" and "ref_stack (p_sax p) = rs"
  obtains p' where "last_token (get_token strtod p) \<notin> {End_Array, End_Object}"
    and "sax_parse_internal strtod False states (get_token strtod p) = sax_parse_internal strtod True states p'"
    and "parsed p' r (f (json_norm j)) rs"
  using assms unfolding value_reads_def by blast

lemma scalar_reads:
  assumes "scan strtod (m_lexer p) = (tok, lx)" and "lrest lx = r" and "ready lx" and "slot (p_sax p) q f"
    and "parse_value strtod states (p\<lparr>m_lexer := lx, last_token := tok\<rparr>) = scalar_value v states (p\<lparr>m_lexer := lx, last_token := tok\<rparr>)"
  shows "\<exists>p'. sax_parse_internal strtod False states (get_token strtod p) = sax_parse_internal strtod True states p' \<and>
              parsed p' r (f v) (ref_stack (p_sax p))"
proof -
  let ?p = "p\<lparr>m_lexer := lx, last_token := tok\<rparr>"
  let ?p' = "?p\<lparr>p_sax := (p_sax p)\<lparr>root := f v\<rparr>\<rparr>"
  have "handle_value v (p_sax p) = Some (q, (p_sax p)\<lparr>root := f v\<rparr>)" using assms(4) by (simp add: slot_def)
  then have "parse_value strtod states ?p = Inr (Value_Done states ?p')"
    by (simp add: assms(5) scalar_value_def event_def)
  from loop_value_done [OF this] get_token_eq [OF assms(1)] have
    "sax_parse_internal strtod False states (get_token strtod p) = sax_parse_internal strtod True states ?p'" by simp
  then show ?thesis using assms(2,3) by (intro exI [of _ ?p']) (simp add: parsed_def)
qed

lemma json_text_scalars:
  "value_reads strtod JNull (str ''null'')" "value_reads strtod (JBool True) (str ''true'')"
  "value_reads strtod (JBool False) (str ''false'')"
proof -
  have *: "value_reads strtod j cs"
    if t: "cs = str ''true'' \<and> tok = Literal_True \<or> cs = str ''false'' \<and> tok = Literal_False \<or> cs = str ''null'' \<and> tok = Literal_Null"
      and v: "\<And>states p. last_token p = tok \<Longrightarrow> parse_value strtod states p = scalar_value (json_norm j) states p" for j cs tok
    unfolding value_reads_def
  proof (intro allI impI conjI)
    fix p :: parser and states r w q f
    assume l: "ready (m_lexer p)" "lrest (m_lexer p) = w @ cs @ r" "ws w" and s: "slot (p_sax p) q f"
    obtain lx where lx: "scan strtod (m_lexer p) = (tok, lx)" "lrest lx = r" "ready lx" by (rule scan_literal_reads [OF l t])
    show "last_token (get_token strtod p) \<notin> {End_Array, End_Object}" using get_token_eq [OF lx(1)] t by auto
    show "\<exists>p'. sax_parse_internal strtod False states (get_token strtod p) = sax_parse_internal strtod True states p' \<and>
              parsed p' r (f (json_norm j)) (ref_stack (p_sax p))"
      by (rule scalar_reads [OF lx s v]) simp
  qed
  show "value_reads strtod JNull (str ''null'')" by (rule * [where tok = Literal_Null]) (simp_all add: parse_value_def)
  show "value_reads strtod (JBool True) (str ''true'')" by (rule * [where tok = Literal_True]) (simp_all add: parse_value_def)
  show "value_reads strtod (JBool False) (str ''false'')" by (rule * [where tok = Literal_False]) (simp_all add: parse_value_def)
qed

lemma json_text_unsigned: "value_reads strtod (JUnsigned v) (dec_u (unat v))"
  unfolding value_reads_def
proof (intro allI impI conjI)
  fix p :: parser and states r w q f
  assume l: "ready (m_lexer p)" "lrest (m_lexer p) = w @ dec_u (unat v) @ r" "ws w" "stops r" and s: "slot (p_sax p) q f"
  obtain lx where lx: "scan strtod (m_lexer p) = (Value_Unsigned, lx)" "lrest lx = r" "value_unsigned lx = v" "ready lx"
    by (rule scan_unsigned_reads [OF l])
  show "last_token (get_token strtod p) \<notin> {End_Array, End_Object}" using get_token_eq [OF lx(1)] by simp
  show "\<exists>p'. sax_parse_internal strtod False states (get_token strtod p) = sax_parse_internal strtod True states p' \<and>
            parsed p' r (f (json_norm (JUnsigned v))) (ref_stack (p_sax p))"
    by (rule scalar_reads [OF lx(1,2,4) s]) (simp add: parse_value_def lx(3))
qed

lemma json_text_integer: "value_reads strtod (JInteger v) (dec_s (sint v))"
proof (cases "sint v < 0")
  case False
  then have "dec_s (sint v) = dec_u (unat v)" by (simp add: dec_s_def unat_nonneg)
  then show ?thesis using json_text_unsigned [of strtod v] False unfolding value_reads_def by simp
next
  case True
  show ?thesis unfolding value_reads_def
  proof (intro allI impI conjI)
    fix p :: parser and states r w q f
    assume l: "ready (m_lexer p)" "lrest (m_lexer p) = w @ dec_s (sint v) @ r" "ws w" "stops r" and s: "slot (p_sax p) q f"
    obtain lx where lx: "scan strtod (m_lexer p) = (Value_Integer, lx)" "lrest lx = r" "value_integer lx = v" "ready lx"
      by (rule scan_integer_reads [OF l True])
    show "last_token (get_token strtod p) \<notin> {End_Array, End_Object}" using get_token_eq [OF lx(1)] by simp
    show "\<exists>p'. sax_parse_internal strtod False states (get_token strtod p) = sax_parse_internal strtod True states p' \<and>
              parsed p' r (f (json_norm (JInteger v))) (ref_stack (p_sax p))"
      using True by (intro scalar_reads [OF lx(1,2,4) s]) (simp add: parse_value_def lx(3))
  qed
qed

lemma json_text_string:
  assumes "utf8 b"
  shows "value_reads strtod (JString b) (json_quoted b)"
  unfolding value_reads_def
proof (intro allI impI conjI)
  fix p :: parser and states r w q f
  assume l: "ready (m_lexer p)" "lrest (m_lexer p) = w @ json_quoted b @ r" "ws w" and s: "slot (p_sax p) q f"
  obtain lx where lx: "scan strtod (m_lexer p) = (Value_String, lx)" "lrest lx = r" "token_buffer lx = b" "ready lx"
    by (rule scan_string_reads [OF l assms])
  show "last_token (get_token strtod p) \<notin> {End_Array, End_Object}" using get_token_eq [OF lx(1)] by simp
  show "\<exists>p'. sax_parse_internal strtod False states (get_token strtod p) = sax_parse_internal strtod True states p' \<and>
            parsed p' r (f (json_norm (JString b))) (ref_stack (p_sax p))"
    by (rule scalar_reads [OF lx(1,2,4) s]) (simp add: parse_value_def lx(3))
qed

lemma start_container_slot:
  assumes "slot s q f"
  shows "start_container v s = Some (s\<lparr>root := f v, ref_stack := q # ref_stack s\<rparr>)" and "lens q f"
  using assms by (simp_all add: slot_def start_container_def)

lemma stops_simps [simp]: "stops []" "ws [c] \<Longrightarrow> stops (c # r)" "stops (44 # r)" "stops (93 # r)" "stops (125 # r)"
  by (auto simp: stops_def isdigit_def)

lemma stops_ws: "ws w \<Longrightarrow> stops r \<Longrightarrow> stops (w @ r)"
  by (cases w) auto

lemma json_text_empty_array: "ws w' \<Longrightarrow> value_reads strtod (JArray []) (91 # w' @ [93])"
  unfolding value_reads_def
proof (intro allI impI conjI)
  fix p :: parser and states r w q f
  assume w': "ws w'" and l: "ready (m_lexer p)" "lrest (m_lexer p) = w @ (91 # w' @ [93]) @ r" "ws w" and s: "slot (p_sax p) q f"
  have l1: "lrest (m_lexer p) = w @ 91 # (w' @ 93 # r)" "punctuation 91 = Some Begin_Array" "punctuation 93 = Some End_Array"
    using l(2) by (simp_all add: punctuation_def)
  obtain lx where lx: "get_token strtod p = p\<lparr>m_lexer := lx, last_token := Begin_Array\<rparr>" "lrest lx = w' @ 93 # r" "ready lx"
    by (rule token_punctuation [OF l(1) l1(1) l(3) l1(2)])
  let ?s = "(p_sax p)\<lparr>root := f (JArray []), ref_stack := q # ref_stack (p_sax p)\<rparr>"
  let ?p = "p\<lparr>m_lexer := lx, last_token := Begin_Array, p_sax := ?s\<rparr>"
  have "ready (m_lexer ?p)" "lrest (m_lexer ?p) = w' @ 93 # r" using lx by simp_all
  then obtain lx2 where lx2: "get_token strtod ?p = ?p\<lparr>m_lexer := lx2, last_token := End_Array\<rparr>" "lrest lx2 = r" "ready lx2"
    by (rule token_punctuation [OF _ _ w' l1(3)])
  let ?p' = "?p\<lparr>m_lexer := lx2, last_token := End_Array, p_sax := ?s\<lparr>ref_stack := ref_stack (p_sax p)\<rparr>\<rparr>"
  have ga: "get_at q (f (JArray [])) = Some (JArray [])" using start_container_slot(2) [OF s] by (simp add: lens_def)
  have "parse_value strtod states (get_token strtod p) = Inr (Value_Done states ?p')"
    unfolding lx(1) using lx2(1) start_container_slot(1) [OF s] ga
    by (simp add: parse_value_def event_def start_array_def end_array_def Let_def)
  from loop_value_done [OF this] lx2 show
    "\<exists>p'. sax_parse_internal strtod False states (get_token strtod p) = sax_parse_internal strtod True states p' \<and>
          parsed p' r (f (json_norm (JArray []))) (ref_stack (p_sax p))"
    by (intro exI [of _ ?p']) (simp add: parsed_def)
  show "last_token (get_token strtod p) \<notin> {End_Array, End_Object}" using lx(1) by simp
qed

lemma json_text_empty_object: "ws w' \<Longrightarrow> value_reads strtod (JObject []) (123 # w' @ [125])"
  unfolding value_reads_def
proof (intro allI impI conjI)
  fix p :: parser and states r w q f
  assume w': "ws w'" and l: "ready (m_lexer p)" "lrest (m_lexer p) = w @ (123 # w' @ [125]) @ r" "ws w" and s: "slot (p_sax p) q f"
  have l1: "lrest (m_lexer p) = w @ 123 # (w' @ 125 # r)" "punctuation 123 = Some Begin_Object" "punctuation 125 = Some End_Object"
    using l(2) by (simp_all add: punctuation_def)
  obtain lx where lx: "get_token strtod p = p\<lparr>m_lexer := lx, last_token := Begin_Object\<rparr>" "lrest lx = w' @ 125 # r" "ready lx"
    by (rule token_punctuation [OF l(1) l1(1) l(3) l1(2)])
  let ?s = "(p_sax p)\<lparr>root := f (JObject []), ref_stack := q # ref_stack (p_sax p)\<rparr>"
  let ?p = "p\<lparr>m_lexer := lx, last_token := Begin_Object, p_sax := ?s\<rparr>"
  have "ready (m_lexer ?p)" "lrest (m_lexer ?p) = w' @ 125 # r" using lx by simp_all
  then obtain lx2 where lx2: "get_token strtod ?p = ?p\<lparr>m_lexer := lx2, last_token := End_Object\<rparr>" "lrest lx2 = r" "ready lx2"
    by (rule token_punctuation [OF _ _ w' l1(3)])
  let ?p' = "?p\<lparr>m_lexer := lx2, last_token := End_Object, p_sax := ?s\<lparr>ref_stack := ref_stack (p_sax p)\<rparr>\<rparr>"
  have ga: "get_at q (f (JObject [])) = Some (JObject [])" using start_container_slot(2) [OF s] by (simp add: lens_def)
  have "parse_value strtod states (get_token strtod p) = Inr (Value_Done states ?p')"
    unfolding lx(1) using lx2(1) start_container_slot(1) [OF s] ga
    by (simp add: parse_value_def event_def start_object_def end_object_def Let_def)
  from loop_value_done [OF this] lx2 show
    "\<exists>p'. sax_parse_internal strtod False states (get_token strtod p) = sax_parse_internal strtod True states p' \<and>
          parsed p' r (f (json_norm (JObject []))) (ref_stack (p_sax p))"
    by (intro exI [of _ ?p']) (simp add: parsed_def)
  show "last_token (get_token strtod p) \<notin> {End_Array, End_Object}" using lx(1) by simp
qed

lemma json_text_array: "elements_read strtod js t \<Longrightarrow> value_reads strtod (JArray js) (91 # t @ [93])"
  unfolding value_reads_def
proof (intro allI impI conjI)
  fix p :: parser and states r w q f
  assume el: "elements_read strtod js t" and std: "json_std (JArray js)"
    and l: "ready (m_lexer p)" "lrest (m_lexer p) = w @ (91 # t @ [93]) @ r" "ws w" and s: "slot (p_sax p) q f"
  have l1: "lrest (m_lexer p) = w @ 91 # (t @ 93 # r)" "punctuation 91 = Some Begin_Array"
    using l(2) by (simp_all add: punctuation_def)
  obtain lx where lx: "get_token strtod p = p\<lparr>m_lexer := lx, last_token := Begin_Array\<rparr>" "lrest lx = t @ 93 # r" "ready lx"
    by (rule token_punctuation [OF l(1) l1(1) l(3) l1(2)])
  define p1 where "p1 = p\<lparr>m_lexer := lx, last_token := Begin_Array,
     p_sax := (p_sax p)\<lparr>root := f (JArray []), ref_stack := q # ref_stack (p_sax p)\<rparr>\<rparr>"
  have "ready (m_lexer p1)" "lrest (m_lexer p1) = t @ 93 # r" "ref_stack (p_sax p1) = q # ref_stack (p_sax p)"
    "root (p_sax p1) = f (JArray [])" "list_all json_std js" using lx std by (simp_all add: p1_def)
  with el start_container_slot(2) [OF s] obtain p' where
    e: "last_token (get_token strtod p1) \<noteq> End_Array"
    "sax_parse_internal strtod False (True # states) (get_token strtod p1) = sax_parse_internal strtod True states p'"
    "parsed p' r (f (JArray ([] @ map json_norm js))) (ref_stack (p_sax p))"
    unfolding elements_read_def by blast
  have "parse_value strtod states (get_token strtod p) = Inr (Go_On (True # states) (get_token strtod p1))"
    unfolding lx(1) using start_container_slot(1) [OF s] e(1)
    by (simp add: parse_value_def event_def start_array_def Let_def p1_def)
  from loop_go_on [OF this] e(2,3) show
    "\<exists>p'. sax_parse_internal strtod False states (get_token strtod p) = sax_parse_internal strtod True states p' \<and>
          parsed p' r (f (json_norm (JArray js))) (ref_stack (p_sax p))" by auto
  show "last_token (get_token strtod p) \<notin> {End_Array, End_Object}" using lx(1) by simp
qed

lemma json_text_object: "members_read strtod m t \<Longrightarrow> value_reads strtod (JObject m) (123 # t @ [125])"
  unfolding value_reads_def
proof (intro allI impI conjI)
  fix p :: parser and states r w q f
  assume me: "members_read strtod m t" and std: "json_std (JObject m)"
    and l: "ready (m_lexer p)" "lrest (m_lexer p) = w @ (123 # t @ [125]) @ r" "ws w" and s: "slot (p_sax p) q f"
  have l1: "lrest (m_lexer p) = w @ 123 # (t @ 125 # r)" "punctuation 123 = Some Begin_Object"
    using l(2) by (simp_all add: punctuation_def)
  obtain lx where lx: "get_token strtod p = p\<lparr>m_lexer := lx, last_token := Begin_Object\<rparr>" "lrest lx = t @ 125 # r" "ready lx"
    by (rule token_punctuation [OF l(1) l1(1) l(3) l1(2)])
  define p1 where "p1 = p\<lparr>m_lexer := lx, last_token := Begin_Object,
     p_sax := (p_sax p)\<lparr>root := f (JObject []), ref_stack := q # ref_stack (p_sax p)\<rparr>\<rparr>"
  have "ready (m_lexer p1)" "lrest (m_lexer p1) = t @ 125 # r" "ref_stack (p_sax p1) = q # ref_stack (p_sax p)"
    "root (p_sax p1) = f (JObject [])" "list_all (\<lambda>(k, v). json_std v) m" "sorted_wrt (<) (map fst [] @ map fst m)"
    using lx std by (simp_all add: p1_def)
  with me start_container_slot(2) [OF s] obtain p2 p' where
    e: "last_token (get_token strtod p1) \<noteq> End_Object" "parse_key strtod (get_token strtod p1) = Inr p2"
    "sax_parse_internal strtod False (False # states) p2 = sax_parse_internal strtod True states p'"
    "parsed p' r (f (JObject ([] @ map (\<lambda>(k, v). (k, json_norm v)) m))) (ref_stack (p_sax p))"
    unfolding members_read_def by blast
  have "parse_value strtod states (get_token strtod p) = Inr (Go_On (False # states) p2)"
    unfolding lx(1) using start_container_slot(1) [OF s] e(1,2)
    by (simp add: parse_value_def event_def start_object_def Let_def p1_def)
  from loop_go_on [OF this] e(3,4) show
    "\<exists>p'. sax_parse_internal strtod False states (get_token strtod p) = sax_parse_internal strtod True states p' \<and>
          parsed p' r (f (json_norm (JObject m))) (ref_stack (p_sax p))" by auto
  show "last_token (get_token strtod p) \<notin> {End_Array, End_Object}" using lx(1) by simp
qed

lemma json_text_last_element:
  assumes v: "value_reads strtod j t" and w: "ws w" "ws w'"
  shows "elements_read strtod [j] (w @ t @ w')"
  unfolding elements_read_def
proof (intro allI impI)
  fix p :: parser and states r q f rs xs
  assume std: "list_all json_std [j]" and l: "ready (m_lexer p)" "lrest (m_lexer p) = (w @ t @ w') @ 93 # r"
    and s: "lens q f" "ref_stack (p_sax p) = q # rs" "root (p_sax p) = f (JArray xs)"
  have l': "lrest (m_lexer p) = w @ t @ (w' @ 93 # r)" "stops (w' @ 93 # r)" "json_std j"
    using l(2) w(2) std by (simp_all add: stops_ws)
  obtain p1 where
    e: "last_token (get_token strtod p) \<notin> {End_Array, End_Object}"
    "sax_parse_internal strtod False (True # states) (get_token strtod p) = sax_parse_internal strtod True (True # states) p1"
    "parsed p1 (w' @ 93 # r) (f (JArray (xs @ [json_norm j]))) (q # rs)"
    by (rule value_readsE [OF v l'(3) l(1) l'(1) w(1) l'(2) slot_element [OF s] s(2)])
  have p1: "ready (m_lexer p1)" "lrest (m_lexer p1) = w' @ 93 # r" "punctuation 93 = Some End_Array"
    "get_at q (root (p_sax p1)) = Some (JArray (xs @ [json_norm j]))" "ref_stack (p_sax p1) = q # rs"
    using e(3) s(1) by (simp_all add: parsed_def lens_def punctuation_def)
  obtain lx where lx: "get_token strtod p1 = p1\<lparr>m_lexer := lx, last_token := End_Array\<rparr>" "lrest lx = r" "ready lx"
    by (rule token_punctuation [OF p1(1,2) w(2) p1(3)])
  let ?p = "p1\<lparr>m_lexer := lx, last_token := End_Array, p_sax := (p_sax p1)\<lparr>ref_stack := rs\<rparr>\<rparr>"
  have "eval_state strtod (True # states) p1 = Inr (Some (True, states, ?p))"
    using p1 lx(1) by (simp add: eval_state_def Let_def event_def end_array_def)
  from loop_eval [OF this] e lx show "last_token (get_token strtod p) \<noteq> End_Array \<and>
    (\<exists>p'. sax_parse_internal strtod False (True # states) (get_token strtod p) = sax_parse_internal strtod True states p' \<and>
          parsed p' r (f (JArray (xs @ map json_norm [j]))) rs)"
    by (intro conjI exI [of _ ?p]) (auto simp: parsed_def)
qed

lemma json_text_element:
  assumes v: "value_reads strtod j t" and w: "ws w" "ws w'" and es: "elements_read strtod js ts"
  shows "elements_read strtod (j # js) (w @ t @ w' @ 44 # ts)"
  unfolding elements_read_def
proof (intro allI impI)
  fix p :: parser and states r q f rs xs
  assume std: "list_all json_std (j # js)" and l: "ready (m_lexer p)" "lrest (m_lexer p) = (w @ t @ w' @ 44 # ts) @ 93 # r"
    and s: "lens q f" "ref_stack (p_sax p) = q # rs" "root (p_sax p) = f (JArray xs)"
  have l': "lrest (m_lexer p) = w @ t @ (w' @ 44 # ts @ 93 # r)" "stops (w' @ 44 # ts @ 93 # r)" "json_std j"
    using l(2) w(2) std by (simp_all add: stops_ws)
  obtain p1 where
    e: "last_token (get_token strtod p) \<notin> {End_Array, End_Object}"
    "sax_parse_internal strtod False (True # states) (get_token strtod p) = sax_parse_internal strtod True (True # states) p1"
    "parsed p1 (w' @ 44 # ts @ 93 # r) (f (JArray (xs @ [json_norm j]))) (q # rs)"
    by (rule value_readsE [OF v l'(3) l(1) l'(1) w(1) l'(2) slot_element [OF s] s(2)])
  have p1: "ready (m_lexer p1)" "lrest (m_lexer p1) = w' @ 44 # (ts @ 93 # r)" "punctuation 44 = Some Value_Separator"
    "root (p_sax p1) = f (JArray (xs @ [json_norm j]))" "ref_stack (p_sax p1) = q # rs"
    using e(3) by (simp_all add: parsed_def punctuation_def)
  obtain lx where lx: "get_token strtod p1 = p1\<lparr>m_lexer := lx, last_token := Value_Separator\<rparr>" "lrest lx = ts @ 93 # r" "ready lx"
    by (rule token_punctuation [OF p1(1,2) w(2) p1(3)])
  let ?p = "p1\<lparr>m_lexer := lx, last_token := Value_Separator\<rparr>"
  have "eval_state strtod (True # states) p1 = Inr (Some (False, True # states, get_token strtod ?p))"
    using lx(1) by (simp add: eval_state_def Let_def)
  note ev = loop_eval [OF this]
  have "ready (m_lexer ?p)" "lrest (m_lexer ?p) = ts @ 93 # r" "ref_stack (p_sax ?p) = q # rs"
    "root (p_sax ?p) = f (JArray (xs @ [json_norm j]))" "list_all json_std js" using p1 lx std by simp_all
  with es s(1) obtain p' where
    "sax_parse_internal strtod False (True # states) (get_token strtod ?p) = sax_parse_internal strtod True states p'"
    "parsed p' r (f (JArray ((xs @ [json_norm j]) @ map json_norm js))) rs"
    unfolding elements_read_def by blast
  with e(1,2) ev show "last_token (get_token strtod p) \<noteq> End_Array \<and>
    (\<exists>p'. sax_parse_internal strtod False (True # states) (get_token strtod p) = sax_parse_internal strtod True states p' \<and>
          parsed p' r (f (JArray (xs @ map json_norm (j # js)))) rs)" by auto
qed

text \<open>A member up to the end of its value, in an object whose keys are all smaller.\<close>

lemma member_reads:
  assumes v: "value_reads strtod v t" "json_std v" and w: "ws w" "utf8 k" "ws w1" "ws w2" "stops r"
    and m0: "list_all (\<lambda>(k', v'). k' < k) m0"
    and l: "ready (m_lexer p)" "lrest (m_lexer p) = w @ json_quoted k @ w1 @ 58 # w2 @ t @ r"
    and s: "lens q f" "ref_stack (p_sax p) = q # rs" "root (p_sax p) = f (JObject m0)"
  shows "last_token (get_token strtod p) \<noteq> End_Object \<and>
    (\<exists>p1 p'. parse_key strtod (get_token strtod p) = Inr p1 \<and>
       sax_parse_internal strtod False states p1 = sax_parse_internal strtod True states p' \<and>
       parsed p' r (f (JObject (m0 @ [(k, json_norm v)]))) (q # rs))"
proof -
  obtain lx where lx: "scan strtod (m_lexer p) = (Value_String, lx)" "lrest lx = w1 @ 58 # w2 @ t @ r" "token_buffer lx = k" "ready lx"
    by (rule scan_string_reads [OF l w(1,2)])
  note g = get_token_eq [OF lx(1)]
  obtain s' where s': "sax_key k (p_sax p) = Some s'" "ref_stack s' = q # rs"
    "slot s' (q @ [Key k]) (\<lambda>v. f (JObject (obj_put k v m0)))" by (rule sax_key_slot [OF s])
  let ?p = "p\<lparr>m_lexer := lx, last_token := Value_String, p_sax := s'\<rparr>"
  have l1: "ready (m_lexer ?p)" "lrest (m_lexer ?p) = w1 @ 58 # w2 @ t @ r" "punctuation 58 = Some Name_Separator"
    using lx by (simp_all add: punctuation_def)
  obtain lx2 where lx2: "get_token strtod ?p = ?p\<lparr>m_lexer := lx2, last_token := Name_Separator\<rparr>" "lrest lx2 = w2 @ t @ r" "ready lx2"
    by (rule token_punctuation [OF l1(1,2) w(3) l1(3)])
  let ?p2 = "?p\<lparr>m_lexer := lx2, last_token := Name_Separator\<rparr>"
  have key: "parse_key strtod (get_token strtod p) = Inr (get_token strtod ?p2)"
    using lx2(1) by (simp add: g parse_key_def event_def lx(3) s'(1) Let_def)
  have l2: "ready (m_lexer ?p2)" "lrest (m_lexer ?p2) = w2 @ t @ r" "slot (p_sax ?p2) (q @ [Key k]) (\<lambda>v. f (JObject (obj_put k v m0)))"
    using lx2 s'(3) by simp_all
  with v w(4,5) obtain p' where
    "sax_parse_internal strtod False states (get_token strtod ?p2) = sax_parse_internal strtod True states p'"
    "parsed p' r (f (JObject (obj_put k (json_norm v) m0))) (ref_stack (p_sax ?p2))" unfolding value_reads_def by blast
  then show ?thesis using key g s'(2) by (auto simp: obj_put_last [OF m0])
qed

lemma json_text_last_member:
  assumes "value_reads strtod v t" and w: "ws w" "utf8 k" "ws w1" "ws w2" "ws w3"
  shows "members_read strtod [(k, v)] (w @ json_quoted k @ w1 @ 58 # w2 @ t @ w3)"
  unfolding members_read_def
proof (intro allI impI)
  fix p :: parser and states r q f rs m0
  assume std: "list_all (\<lambda>(k, v). json_std v) [(k, v)]" and so: "sorted_wrt (<) (map fst m0 @ map fst [(k, v)])"
    and l: "ready (m_lexer p)" "lrest (m_lexer p) = (w @ json_quoted k @ w1 @ 58 # w2 @ t @ w3) @ 125 # r"
    and s: "lens q f" "ref_stack (p_sax p) = q # rs" "root (p_sax p) = f (JObject m0)"
  have l': "lrest (m_lexer p) = w @ json_quoted k @ w1 @ 58 # w2 @ t @ (w3 @ 125 # r)" "stops (w3 @ 125 # r)" "json_std v"
    "list_all (\<lambda>(k', v'). k' < k) m0"
    using l(2) w(5) std so by (auto simp: stops_ws sorted_wrt_append list_all_iff)
  from member_reads [OF assms(1) l'(3) w(1-4) l'(2,4) l(1) l'(1) s, of "False # states"] obtain p1 p2 where
    e: "last_token (get_token strtod p) \<noteq> End_Object" "parse_key strtod (get_token strtod p) = Inr p1"
    "sax_parse_internal strtod False (False # states) p1 = sax_parse_internal strtod True (False # states) p2"
    "parsed p2 (w3 @ 125 # r) (f (JObject (m0 @ [(k, json_norm v)]))) (q # rs)" by blast
  have p2: "ready (m_lexer p2)" "lrest (m_lexer p2) = w3 @ 125 # r" "punctuation 125 = Some End_Object"
    "get_at q (root (p_sax p2)) = Some (JObject (m0 @ [(k, json_norm v)]))" "ref_stack (p_sax p2) = q # rs"
    using e(4) s(1) by (simp_all add: parsed_def lens_def punctuation_def)
  obtain lx where lx: "get_token strtod p2 = p2\<lparr>m_lexer := lx, last_token := End_Object\<rparr>" "lrest lx = r" "ready lx"
    by (rule token_punctuation [OF p2(1,2) w(5) p2(3)])
  let ?p = "p2\<lparr>m_lexer := lx, last_token := End_Object, p_sax := (p_sax p2)\<lparr>ref_stack := rs\<rparr>\<rparr>"
  have "eval_state strtod (False # states) p2 = Inr (Some (True, states, ?p))"
    using p2 lx(1) by (simp add: eval_state_def Let_def event_def end_object_def)
  from loop_eval [OF this] e lx show "last_token (get_token strtod p) \<noteq> End_Object \<and>
    (\<exists>p1 p'. parse_key strtod (get_token strtod p) = Inr p1 \<and>
       sax_parse_internal strtod False (False # states) p1 = sax_parse_internal strtod True states p' \<and>
       parsed p' r (f (JObject (m0 @ map (\<lambda>(k, v). (k, json_norm v)) [(k, v)]))) rs)"
    by (intro conjI exI [of _ p1] exI [of _ ?p]) (auto simp: parsed_def)
qed

lemma json_text_member:
  assumes "value_reads strtod v t" and w: "ws w" "utf8 k" "ws w1" "ws w2" "ws w3" and ms: "members_read strtod m ts"
  shows "members_read strtod ((k, v) # m) (w @ json_quoted k @ w1 @ 58 # w2 @ t @ w3 @ 44 # ts)"
  unfolding members_read_def
proof (intro allI impI)
  fix p :: parser and states r q f rs m0
  let ?m = "m0 @ [(k, json_norm v)]"
  assume std: "list_all (\<lambda>(k, v). json_std v) ((k, v) # m)" and so: "sorted_wrt (<) (map fst m0 @ map fst ((k, v) # m))"
    and l: "ready (m_lexer p)" "lrest (m_lexer p) = (w @ json_quoted k @ w1 @ 58 # w2 @ t @ w3 @ 44 # ts) @ 125 # r"
    and s: "lens q f" "ref_stack (p_sax p) = q # rs" "root (p_sax p) = f (JObject m0)"
  have l': "lrest (m_lexer p) = w @ json_quoted k @ w1 @ 58 # w2 @ t @ (w3 @ 44 # ts @ 125 # r)" "stops (w3 @ 44 # ts @ 125 # r)"
    "json_std v" "list_all (\<lambda>(k', v'). k' < k) m0"
    using l(2) w(5) std so by (auto simp: stops_ws sorted_wrt_append list_all_iff)
  from member_reads [OF assms(1) l'(3) w(1-4) l'(2,4) l(1) l'(1) s, of "False # states"] obtain p1 p2 where
    e: "last_token (get_token strtod p) \<noteq> End_Object" "parse_key strtod (get_token strtod p) = Inr p1"
    "sax_parse_internal strtod False (False # states) p1 = sax_parse_internal strtod True (False # states) p2"
    "parsed p2 (w3 @ 44 # ts @ 125 # r) (f (JObject ?m)) (q # rs)" by blast
  have p2: "ready (m_lexer p2)" "lrest (m_lexer p2) = w3 @ 44 # (ts @ 125 # r)" "punctuation 44 = Some Value_Separator"
    "root (p_sax p2) = f (JObject ?m)" "ref_stack (p_sax p2) = q # rs"
    using e(4) by (simp_all add: parsed_def punctuation_def)
  obtain lx where lx: "get_token strtod p2 = p2\<lparr>m_lexer := lx, last_token := Value_Separator\<rparr>" "lrest lx = ts @ 125 # r" "ready lx"
    by (rule token_punctuation [OF p2(1,2) w(5) p2(3)])
  let ?p = "p2\<lparr>m_lexer := lx, last_token := Value_Separator\<rparr>"
  have "ready (m_lexer ?p)" "lrest (m_lexer ?p) = ts @ 125 # r" "ref_stack (p_sax ?p) = q # rs" "root (p_sax ?p) = f (JObject ?m)"
    "list_all (\<lambda>(k, v). json_std v) m" "sorted_wrt (<) (map fst ?m @ map fst m)" using p2 lx std so by simp_all
  with ms s(1) obtain p3 p' where
    k: "parse_key strtod (get_token strtod ?p) = Inr p3"
    "sax_parse_internal strtod False (False # states) p3 = sax_parse_internal strtod True states p'"
    "parsed p' r (f (JObject (?m @ map (\<lambda>(k, v). (k, json_norm v)) m))) rs"
    unfolding members_read_def by blast
  have "eval_state strtod (False # states) p2 = Inr (Some (False, False # states, p3))"
    using lx(1) k(1) by (simp add: eval_state_def Let_def)
  from loop_eval [OF this] e k(2,3) show "last_token (get_token strtod p) \<noteq> End_Object \<and>
    (\<exists>p1 p'. parse_key strtod (get_token strtod p) = Inr p1 \<and>
       sax_parse_internal strtod False (False # states) p1 = sax_parse_internal strtod True states p' \<and>
       parsed p' r (f (JObject (m0 @ map (\<lambda>(k, v). (k, json_norm v)) ((k, v) # m)))) rs)" by auto
qed

lemma json_text_reads:
  "value_text j t \<Longrightarrow> value_reads strtod j t"
  "elements_text js t \<Longrightarrow> elements_read strtod js t"
  "members_text m t \<Longrightarrow> members_read strtod m t"
  by (induction rule: value_text_elements_text_members_text.inducts)
     (blast intro: json_text_scalars json_text_unsigned json_text_integer json_text_string json_text_empty_array json_text_array
        json_text_empty_object json_text_object json_text_last_element json_text_element json_text_last_member json_text_member)+

section \<open>The round trip\<close>

lemma skip_whitespace_end:
  assumes "lx_inv lx" and "ws (lrest lx)"
  shows "current (skip_whitespace lx) = eof"
  using assms
proof (induction "lrest lx" arbitrary: lx)
  case Nil
  with get_Nil [of lx] show ?case by (simp add: skip_whitespace.simps [of lx] Let_def eof_def)
next
  case (Cons b r)
  note g = get_Cons [OF Cons.prems(1) Cons.hyps(2) [symmetric]]
  have w: "ws (b # r)" using Cons.prems(2) Cons.hyps(2) by simp
  then have "uint b = 32 \<or> uint b = 9 \<or> uint b = 10 \<or> uint b = 13" by auto
  then have "skip_whitespace lx = skip_whitespace (get lx)" using g(1) by (simp add: skip_whitespace.simps [of lx] Let_def)
  with Cons.hyps(1) [of "get lx"] g(2) w Cons.prems(1) show ?case by simp
qed

lemma scan_end:
  assumes "ready lx" and "ws (lrest lx)"
  shows "fst (scan strtod lx) = End_Of_Input"
proof -
  define lx0 where "lx0 = (if chars_read_total lx = 0 then unget (get lx) else lx)"
  have "current (get lx) \<noteq> 0xEF"
    using assms get_Nil(1) [of lx] get_Cons(1) [of lx] by (cases "lrest lx") (auto simp: ready_def eof_def)
  then have bom: "(if chars_read_total lx = 0 then skip_bom lx else (True, lx)) = (True, lx0)"
    by (simp add: skip_bom_def lx0_def Let_def)
  have l0: "lx_inv lx0" "ws (lrest lx0)" "\<not> ignore_comments lx0"
    using assms unget_get [of lx] by (simp_all add: lx0_def ready_def)
  have r: "reads lx0 (skip_whitespace lx0)" by (intro reads_intros)
  have "skip_comments (skip_whitespace lx0) = (True, skip_whitespace lx0)"
    using l0(3) r by (simp add: skip_comments.simps [of "skip_whitespace lx0"] reads_def)
  then have "scan strtod lx = scan_token strtod (skip_whitespace lx0)" by (simp add: scan_def bom)
  then show ?thesis using skip_whitespace_end [OF l0(1,2)] by (simp add: scan_token_def Let_def eof_def digit_def)
qed

lemma basic_json_parse_text:
  assumes "value_text j t" and "json_std j" and "ws w" and "ws w'"
  shows "basic_json_parse strtod (w @ t @ w') = Inr (json_norm j)"
proof -
  let ?p = "\<lparr>m_lexer = lexer0 (w @ t @ w') False, last_token = Uninitialized,
            p_sax = \<lparr>root = JNull, ref_stack = [], object_element = None\<rparr>\<rparr>"
  have p: "ready (m_lexer ?p)" "lrest (m_lexer ?p) = w @ t @ w'" "slot (p_sax ?p) [] (\<lambda>v. v)" "ref_stack (p_sax ?p) = []"
    by (simp_all add: ready_def lx_inv_def lexer0_def lrest_def slot_root)
  have st: "stops w'" using stops_ws [OF assms(4), of "[]"] by simp
  obtain p' where p': "sax_parse_internal strtod False [] (get_token strtod ?p) = sax_parse_internal strtod True [] p'"
    "parsed p' w' (json_norm j) []"
    by (rule value_readsE [OF json_text_reads(1) [OF assms(1)] assms(2) p(1,2) assms(3) st p(3,4)])
  have "sax_parse_internal strtod True [] p' = Inr p'" by (subst sax_parse_internal.simps) (simp add: eval_state_def)
  moreover have "fst (scan strtod (m_lexer p')) = End_Of_Input" using p'(2) assms(4) by (intro scan_end) (simp_all add: parsed_def)
  then have "last_token (get_token strtod p') = End_Of_Input" by (auto simp: get_token_def split: prod.splits)
  ultimately show ?thesis
    using p' by (simp add: basic_json_parse_def parser_parse_def parser0_def Let_def parsed_def)
qed

end
