(* ===== verification/Json_Sound.thy ===== *)
theory Json_Sound
  imports Json_Parse
begin

text \<open>
  What the parser of \<^verbatim>\<open>nlohmann::json\<close> delivers for an arbitrary input: an exception, or a value whose strings and
  names are well-formed UTF-8 and whose objects are in the order of their names. The pointers of the value builder
  always point to open containers of the right kind, so that no assertion of it fails.
\<close>

section \<open>Values\<close>

text \<open>The members of every object are in the order of a \<^verbatim>\<open>std::map\<close>.\<close>

fun json_sorted :: "json \<Rightarrow> bool" where
  "json_sorted (JArray js) \<longleftrightarrow> list_all json_sorted js"
| "json_sorted (JObject m) \<longleftrightarrow> sorted_wrt (<) (map fst m) \<and> list_all (\<lambda>(k, v). json_sorted v) m"
| "json_sorted j \<longleftrightarrow> True"

definition well :: "json \<Rightarrow> bool" where
  "well j \<longleftrightarrow> json_utf8 utf8 j \<and> json_sorted j"

lemma well_scalars [simp]:
  "well JNull" "well (JBool b)" "well (JUnsigned w)" "well (JInteger w)" "well (JFloat w)" "well (JString t) \<longleftrightarrow> utf8 t"
  by (simp_all add: well_def)

lemma well_array [simp]: "well (JArray js) \<longleftrightarrow> list_all well js"
  by (auto simp: well_def list_all_iff)

lemma well_object:
  "well (JObject m) \<longleftrightarrow> sorted_wrt (<) (map fst m) \<and> list_all (\<lambda>(k, v). utf8 k \<and> well v) m"
  by (auto simp: well_def list_all_iff)

lemma well_put: "well (JObject m) \<Longrightarrow> utf8 k \<Longrightarrow> well v \<Longrightarrow> well (JObject (obj_put k v m))"
  by (simp add: well_object sorted_obj_put list_all_obj_put [of "\<lambda>k v. utf8 k \<and> well v"])

lemma well_member: "well (JObject m) \<Longrightarrow> map_of m k = Some v \<Longrightarrow> utf8 k \<and> well v"
  by (auto simp: well_object list_all_iff dest: map_of_SomeD)

lemma well_upd:
  "well j \<Longrightarrow> (\<And>v. get_at q j = Some v \<Longrightarrow> well v \<Longrightarrow> well (g v)) \<Longrightarrow> well (upd_at q g j)"
proof (induction q g j rule: upd_at.induct)
  case (2 i p g xs)
  then show ?case by (auto simp: list_all_length nth_list_update)
next
  case (3 k p g m)
  show ?case
  proof (cases "map_of m k")
    case (Some v)
    with well_member [OF "3.prems"(1) Some] "3.IH" [OF Some] "3.prems" show ?thesis by (auto intro!: well_put)
  qed (use "3.prems" in simp)
qed auto

section \<open>Pointers\<close>

lemma get_at_upd: "get_at q (upd_at q g j) = map_option g (get_at q j)"
  by (induction q g j rule: upd_at.induct) (auto split: option.splits)

lemma get_at_upd_prefix: "get_at q (upd_at (q @ s) g j) = map_option (upd_at s g) (get_at q j)"
  by (simp add: upd_at_append get_at_upd)

text \<open>\<open>is_kind b\<close>: an array for \<open>True\<close>, an object for \<open>False\<close>, as in the stack \<open>states\<close>.\<close>

definition is_kind :: "bool \<Rightarrow> json \<Rightarrow> bool" where
  "is_kind b j \<longleftrightarrow> (case j of JArray xs \<Rightarrow> b | JObject m \<Rightarrow> \<not> b | _ \<Rightarrow> False)"

lemma is_kind_simps [simp]: "is_kind b (JArray xs) \<longleftrightarrow> b" "is_kind b (JObject m) \<longleftrightarrow> \<not> b"
  by (simp_all add: is_kind_def)

lemma is_kindE: "is_kind b c \<Longrightarrow> (\<And>xs. b \<Longrightarrow> c = JArray xs \<Longrightarrow> P) \<Longrightarrow> (\<And>m. \<not> b \<Longrightarrow> c = JObject m \<Longrightarrow> P) \<Longrightarrow> P"
  by (cases c) (simp_all add: is_kind_def)

lemma is_kind_upd: "is_kind b j \<Longrightarrow> s \<noteq> [] \<Longrightarrow> is_kind b (upd_at s g j)"
  by (cases "(s, g, j)" rule: upd_at.cases) (auto simp: is_kind_def split: option.splits)

definition inside :: "path \<Rightarrow> path list \<Rightarrow> bool" where
  "inside q rs \<longleftrightarrow> list_all (\<lambda>q'. \<exists>s. s \<noteq> [] \<and> q = q' @ s) rs"

fun open_ok :: "bool list \<Rightarrow> path list \<Rightarrow> json \<Rightarrow> bool" where
  "open_ok [] [] j \<longleftrightarrow> True"
| "open_ok (b # st) (q # rs) j \<longleftrightarrow> (\<exists>c. get_at q j = Some c \<and> is_kind b c) \<and> inside q rs \<and> open_ok st rs j"
| "open_ok _ _ j \<longleftrightarrow> False"

lemma open_ok_upd: "open_ok st rs j \<Longrightarrow> inside q rs \<Longrightarrow> open_ok st rs (upd_at q g j)"
  by (induction st rs j rule: open_ok.induct) (auto simp: inside_def get_at_upd_prefix is_kind_upd)

lemma inside_append: "inside q rs \<Longrightarrow> s \<noteq> [] \<Longrightarrow> inside (q @ s) (q # rs)"
  by (auto simp: inside_def list_all_iff)

lemma open_ok_top: "open_ok st (q # rs) j \<Longrightarrow> s \<noteq> [] \<Longrightarrow> inside (q @ s) (q # rs)"
  by (cases st) (simp_all add: inside_append)

section \<open>The value builder\<close>

text \<open>Before a value inside an object, \<open>object_element\<close> points to a member of it.\<close>

definition sax_ok :: "bool list \<Rightarrow> sax \<Rightarrow> bool" where
  "sax_ok states s \<longleftrightarrow> well (root s) \<and> open_ok states (ref_stack s) (root s)"

definition member_ok :: "bool list \<Rightarrow> sax \<Rightarrow> bool" where
  "member_ok states s \<longleftrightarrow>
     (\<forall>st. states = False # st \<longrightarrow>
        (\<exists>k. object_element s = Some (hd (ref_stack s) @ [Key k]) \<and> get_at (hd (ref_stack s) @ [Key k]) (root s) \<noteq> None))"

lemma handle_value_ok:
  assumes "sax_ok states s" and "member_ok states s" and "well v"
  obtains q s' where "handle_value v s = Some (q, s')" and "sax_ok states s'" and "get_at q (root s') = Some v"
    and "inside q (ref_stack s')" and "ref_stack s' = ref_stack s"
proof (cases "ref_stack s")
  case Nil
  then have "states = []" using assms(1) by (cases states) (simp_all add: sax_ok_def)
  with Nil assms show thesis by (intro that [of "[]" "s\<lparr>root := v\<rparr>"]) (simp_all add: handle_value_def sax_ok_def inside_def)
next
  case (Cons q rs)
  with assms(1) obtain b st c where b: "states = b # st" "get_at q (root s) = Some c" "is_kind b c" "inside q rs" "open_ok st rs (root s)"
    by (cases states) (auto simp: sax_ok_def)
  show thesis
  proof (cases b)
    case True
    with b(3) obtain xs where c: "c = JArray xs" by (auto elim: is_kindE)
    let ?s = "s\<lparr>root := upd_at q (\<lambda>_. JArray (xs @ [v])) (root s)\<rparr>"
    have "well (upd_at q (\<lambda>_. JArray (xs @ [v])) (root s))"
      using assms(1,3) b(2) by (intro well_upd) (auto simp: sax_ok_def c)
    moreover have "get_at (q @ [Idx (length xs)]) (root ?s) = Some v" by (simp add: get_at_append get_at_upd b(2))
    moreover have "open_ok states (ref_stack s) (root ?s)"
      using b(4) open_ok_upd [OF b(5,4)] True by (simp add: Cons b(1,2) get_at_upd)
    ultimately show thesis using inside_append [OF b(4)] b(2) c
      by (intro that [of "q @ [Idx (length xs)]" ?s]) (simp_all add: handle_value_def Cons sax_ok_def)
  next
    case False
    with b(3) obtain m where c: "c = JObject m" by (auto elim: is_kindE)
    from assms(2) False Cons b(1) obtain k v0 where
      k: "object_element s = Some (q @ [Key k])" "get_at (q @ [Key k]) (root s) = Some v0" by (auto simp: member_ok_def)
    let ?s = "s\<lparr>root := upd_at (q @ [Key k]) (\<lambda>_. v) (root s)\<rparr>"
    have i: "inside (q @ [Key k]) (q # rs)" using inside_append [OF b(4)] by simp
    have "well (root ?s)" using assms(1,3) by (simp add: well_upd sax_ok_def)
    moreover have "open_ok states (ref_stack s) (root ?s)" using assms(1) open_ok_upd [OF _ i] by (simp add: sax_ok_def Cons)
    ultimately show thesis using i k b(2) c
      by (intro that [of "q @ [Key k]" ?s]) (simp_all add: handle_value_def Cons sax_ok_def get_at_upd)
  qed
qed

lemma start_container_ok:
  assumes "sax_ok states s" and "member_ok states s" and "well v" and "is_kind b v"
  obtains s' where "start_container v s = Some s'" and "sax_ok (b # states) s'"
proof -
  obtain q s1 where "handle_value v s = Some (q, s1)" "sax_ok states s1" "get_at q (root s1) = Some v" "inside q (ref_stack s1)"
    by (rule handle_value_ok [OF assms(1-3)])
  with assms(4) show thesis by (intro that [of "s1\<lparr>ref_stack := q # ref_stack s1\<rparr>"]) (simp_all add: start_container_def sax_ok_def)
qed

lemma sax_ok_topE:
  assumes "sax_ok (b # st) s"
  obtains q rs c where "ref_stack s = q # rs" and "get_at q (root s) = Some c" and "is_kind b c" and "inside q rs"
    and "open_ok st rs (root s)" and "well (root s)"
  using assms by (cases "ref_stack s") (auto simp: sax_ok_def)

lemma sax_key_ok:
  assumes "sax_ok (False # st) s" and "utf8 k"
  obtains s' where "sax_key k s = Some s'" and "sax_ok (False # st) s'" and "member_ok (False # st) s'"
proof -
  from assms(1) obtain q rs c where q: "ref_stack s = q # rs" "get_at q (root s) = Some c" "is_kind False c" "inside q rs"
    "open_ok st rs (root s)" by (rule sax_ok_topE)
  then obtain m where c: "c = JObject m" by (auto elim: is_kindE)
  define j where "j = (if map_of m k = None then upd_at q (\<lambda>_. JObject (obj_put k JNull m)) (root s) else root s)"
  let ?s = "s\<lparr>root := j, object_element := Some (q @ [Key k])\<rparr>"
  have "well j" using assms q(2) unfolding j_def by (auto intro!: well_upd well_put simp: sax_ok_def c)
  moreover have "open_ok (False # st) (q # rs) j"
    using q(2-5) open_ok_upd [OF q(5,4)] by (simp add: j_def get_at_upd)
  moreover have "get_at (q @ [Key k]) j \<noteq> None"
    by (cases "map_of m k") (simp_all add: j_def get_at_append get_at_upd q(2) c)
  moreover have "sax_key k s = Some ?s" using q(1,2) c by (simp add: sax_key_def j_def)
  moreover have "sax_ok (False # st) ?s" "member_ok (False # st) ?s" using calculation q(1) by (simp_all add: sax_ok_def member_ok_def)
  ultimately show thesis using that by blast
qed

lemma end_array_ok: "sax_ok (True # st) s \<Longrightarrow> \<exists>s'. end_array s = Some s' \<and> sax_ok st s'"
  by (erule sax_ok_topE, erule is_kindE) (auto simp: end_array_def sax_ok_def)

lemma end_object_ok: "sax_ok (False # st) s \<Longrightarrow> \<exists>s'. end_object s = Some s' \<and> sax_ok st s'"
  by (erule sax_ok_topE, erule is_kindE) (auto simp: end_object_def sax_ok_def)

section \<open>The parser\<close>

definition token_ok :: "parser \<Rightarrow> bool" where
  "token_ok p \<longleftrightarrow> (last_token p = Value_String \<longrightarrow> utf8 (token_buffer (m_lexer p)))"

lemma get_token_ok [simp]: "token_ok (get_token strtod p)" "p_sax (get_token strtod p) = p_sax p"
  using scan_string_utf8 [of strtod "m_lexer p"] by (auto simp: token_ok_def get_token_def split: prod.splits)

text \<open>\<open>no_assert Q r\<close>: \<open>r\<close> is an exception other than an assertion, or satisfies \<open>Q\<close>.\<close>

definition no_assert :: "('a \<Rightarrow> bool) \<Rightarrow> parse_exception + 'a \<Rightarrow> bool" where
  "no_assert Q r \<longleftrightarrow> (case r of Inl e \<Rightarrow> e \<noteq> Assertion | Inr x \<Rightarrow> Q x)"

lemma no_assert_simps [simp]: "no_assert Q (Inl e) \<longleftrightarrow> e \<noteq> Assertion" "no_assert Q (Inr x) \<longleftrightarrow> Q x" "syntax_error t c p \<noteq> Assertion"
  by (simp_all add: no_assert_def syntax_error_def)

lemma no_assert_bind: "no_assert P r \<Longrightarrow> (\<And>x. P x \<Longrightarrow> no_assert Q (f x)) \<Longrightarrow> no_assert Q (bind_parse r f)"
  by (cases r) simp_all

lemma no_assert_bind_Inr: "no_assert P r \<Longrightarrow> (\<And>x. P x \<Longrightarrow> Q (h x)) \<Longrightarrow> no_assert Q (bind_parse r (\<lambda>x. Inr (h x)))"
  by (cases r) simp_all

definition before_value :: "bool list \<Rightarrow> parser \<Rightarrow> bool" where
  "before_value states p \<longleftrightarrow> token_ok p \<and> sax_ok states (p_sax p) \<and> member_ok states (p_sax p)"

lemma parse_key_ok:
  assumes "token_ok p" and "sax_ok (False # st) (p_sax p)"
  shows "no_assert (before_value (False # st)) (parse_key strtod p)"
proof (cases "last_token p = Value_String")
  case True
  obtain s' where "sax_key (token_buffer (m_lexer p)) (p_sax p) = Some s'" "sax_ok (False # st) s'" "member_ok (False # st) s'"
    using sax_key_ok [OF assms(2)] assms(1) True by (metis token_ok_def)
  with True show ?thesis by (simp add: parse_key_def event_def Let_def before_value_def)
qed (simp add: parse_key_def)

fun flow_ok :: "flow \<Rightarrow> bool" where
  "flow_ok (Go_On states p) \<longleftrightarrow> before_value states p"
| "flow_ok (Value_Done states p) \<longleftrightarrow> sax_ok states (p_sax p)"

lemma scalar_value_ok: "before_value states p \<Longrightarrow> well v \<Longrightarrow> no_assert flow_ok (scalar_value v states p)"
  by (rule handle_value_ok [of states "p_sax p" v]) (auto simp: before_value_def scalar_value_def event_def)

lemma open_value_ok:
  assumes "before_value states p"
  shows "no_assert (\<lambda>p'. sax_ok (True # states) (p_sax p')) (event (start_array (p_sax p)) p)"
    and "no_assert (\<lambda>p'. sax_ok (False # states) (p_sax p')) (event (start_object (p_sax p)) p)"
proof -
  have s: "sax_ok states (p_sax p)" "member_ok states (p_sax p)" using assms by (simp_all add: before_value_def)
  obtain a where "start_container (JArray []) (p_sax p) = Some a" "sax_ok (True # states) a"
    by (rule start_container_ok [OF s, of "JArray []" True]) simp_all
  then show "no_assert (\<lambda>p'. sax_ok (True # states) (p_sax p')) (event (start_array (p_sax p)) p)"
    by (simp add: start_array_def event_def)
  obtain a where "start_container (JObject []) (p_sax p) = Some a" "sax_ok (False # states) a"
    by (rule start_container_ok [OF s, of "JObject []" False]) (simp_all add: well_object)
  then show "no_assert (\<lambda>p'. sax_ok (False # states) (p_sax p')) (event (start_object (p_sax p)) p)"
    by (simp add: start_object_def event_def)
qed

lemma close_value_ok:
  "sax_ok (True # states) s \<Longrightarrow> no_assert (\<lambda>p'. sax_ok states (p_sax p')) (event (end_array s) p)"
  "sax_ok (False # states) s \<Longrightarrow> no_assert (\<lambda>p'. sax_ok states (p_sax p')) (event (end_object s) p)"
  using end_array_ok [of states s] end_object_ok [of states s] by (auto simp: event_def)

lemma next_key_ok: "sax_ok (False # states) (p_sax p) \<Longrightarrow> no_assert (before_value (False # states)) (parse_key strtod (get_token strtod p))"
  by (rule parse_key_ok) simp_all

lemma next_element_ok: "sax_ok (True # states) (p_sax p) \<Longrightarrow> before_value (True # states) (get_token strtod p)"
  by (simp add: before_value_def member_ok_def)

lemma parse_value_ok:
  assumes "before_value states p"
  shows "no_assert flow_ok (parse_value strtod states p)"
proof -
  consider "last_token p = Begin_Object" | "last_token p = Begin_Array" | "last_token p \<noteq> Begin_Object" "last_token p \<noteq> Begin_Array"
    by blast
  then show ?thesis
  proof cases
    case 1
    have "no_assert flow_ok (let p = get_token strtod p
        in if last_token p = End_Object then bind_parse (event (end_object (p_sax p)) p) (\<lambda>p. Inr (Value_Done states p))
           else bind_parse (parse_key strtod p) (\<lambda>p. Inr (Go_On (False # states) p)))"
      if "sax_ok (False # states) (p_sax p)" for p
      unfolding Let_def get_token_ok(2)
      by (auto intro: no_assert_bind_Inr [OF close_value_ok(2) [OF that]] no_assert_bind_Inr [OF next_key_ok [OF that]])
    with 1 show ?thesis by (simp add: parse_value_def no_assert_bind [OF open_value_ok(2) [OF assms]])
  next
    case 2
    have "no_assert flow_ok (let p = get_token strtod p
        in if last_token p = End_Array then bind_parse (event (end_array (p_sax p)) p) (\<lambda>p. Inr (Value_Done states p))
           else Inr (Go_On (True # states) p))"
      if "sax_ok (True # states) (p_sax p)" for p
      unfolding Let_def get_token_ok(2)
      by (auto intro: no_assert_bind_Inr [OF close_value_ok(1) [OF that]] next_element_ok [OF that])
    with 2 show ?thesis by (simp add: parse_value_def no_assert_bind [OF open_value_ok(1) [OF assms]])
  next
    case 3
    with assms scalar_value_ok [OF assms] show ?thesis
      by (auto simp: parse_value_def token_ok_def before_value_def split: token_type.split)
  qed
qed

definition eval_ok :: "bool list \<Rightarrow> parser \<Rightarrow> (bool \<times> bool list \<times> parser) option \<Rightarrow> bool" where
  "eval_ok states p r \<longleftrightarrow>
     (case r of
        None \<Rightarrow> states = []
      | Some (skip, states', p') \<Rightarrow> if skip then sax_ok states' (p_sax p') else before_value states' p')"

lemma eval_state_ok:
  assumes "sax_ok states (p_sax p)"
  shows "no_assert (eval_ok states p) (eval_state strtod states p)"
proof -
  consider "states = []" | st where "states = True # st" | st where "states = False # st" by (cases states) auto
  then show ?thesis
  proof cases
    case (2 st)
    with assms show ?thesis
      by (auto simp: eval_state_def Let_def eval_ok_def next_element_ok intro!: no_assert_bind_Inr [OF close_value_ok(1) [of st]])
  next
    case (3 st)
    with assms show ?thesis
      by (auto simp: eval_state_def Let_def eval_ok_def
          intro!: no_assert_bind_Inr [OF close_value_ok(2) [of st]] no_assert_bind_Inr [OF next_key_ok [of st]])
  qed (simp add: eval_state_def eval_ok_def)
qed

lemma sax_parse_internal_ok:
  "(if skip then sax_ok states (p_sax p) else before_value states p) \<Longrightarrow>
   no_assert (\<lambda>p'. well (root (p_sax p'))) (sax_parse_internal strtod skip states p)"
proof (induction strtod skip states p rule: sax_parse_internal.induct)
  case (1 strtod skip states p)
  define r where "r = (if skip then Inr (Value_Done states p) else parse_value strtod states p)"
  have r: "no_assert flow_ok r" using "1.prems" parse_value_ok by (simp add: r_def)
  note step = sax_parse_internal.simps [of strtod skip states p, folded r_def]
  show ?case
  proof (cases r)
    case (Inr fl)
    show ?thesis
    proof (cases fl)
      case (Go_On states' p')
      with "1.IH"(1) [folded r_def, OF Inr Go_On] r Inr show ?thesis by (simp add: step)
    next
      case (Value_Done states' p')
      have "no_assert (eval_ok states' p') (eval_state strtod states' p')"
        using r Inr Value_Done by (intro eval_state_ok) simp
      with "1.IH"(2) [folded r_def, OF Inr Value_Done] r Inr Value_Done show ?thesis
        by (auto simp: step eval_ok_def sax_ok_def split: sum.splits option.splits)
    qed
  qed (use r in \<open>simp add: step\<close>)
qed

lemma basic_json_parse_ok: "no_assert well (basic_json_parse strtod s)"
proof -
  have "before_value [] (parser0 strtod s False)" by (simp add: before_value_def parser0_def sax_ok_def member_ok_def)
  then have "no_assert (\<lambda>p'. well (root (p_sax p'))) (sax_parse_internal strtod False [] (parser0 strtod s False))"
    by (intro sax_parse_internal_ok) simp
  then show ?thesis unfolding basic_json_parse_def parser_parse_def by (rule no_assert_bind) (simp add: Let_def)
qed

end
