(* ===== verification/Json_Lib.thy ===== *)
theory Json_Lib
  imports Json_Roundtrip Json_Sound
begin

text \<open>
  The library \<^verbatim>\<open>nlohmann::json\<close> as the programs use it: \<open>nlohmann\<close> is the record of its entry points, built from
  the modelled parser and serializer, and it satisfies \<open>json_laws\<close>, on which the theories of the relay and of the
  client rest. The conversions between doubles and decimal texts, and from doubles to integers, are the arguments
  collected in \<open>float_text\<close>.
\<close>

record float_text =
  ft_to_chars :: "u64 \<Rightarrow> bytes"
  ft_strtod :: "bytes \<Rightarrow> u64"
  ft_trunc :: "u64 \<Rightarrow> int"

definition nlohmann :: "float_text \<Rightarrow> json_lib" where
  "nlohmann F =
     \<lparr>js_parse = (\<lambda>s. case basic_json_parse (ft_strtod F) s of Inl e \<Rightarrow> None | Inr j \<Rightarrow> Some j),
      js_dump = (\<lambda>ind j. case basic_json_dump (ft_to_chars F) ind 32 False Strict j of Inl e \<Rightarrow> None | Inr t \<Rightarrow> Some t),
      js_trunc = ft_trunc F\<rparr>"

lemma dump_reads:
  assumes "json_utf8 utf8 j" and "json_std j" and "indent_ok ind"
  obtains t where "basic_json_dump tc ind 32 False Strict j = Inr t" and "value_text j t"
  using basic_json_dump_text [OF assms(1,2)] assms(3) by (auto simp: indent_ok_def)

lemma dump_parse:
  assumes "json_utf8 utf8 j" and "json_std j" and "indent_ok ind"
  obtains t where "basic_json_dump tc ind 32 False Strict j = Inr t" and "basic_json_parse strtod t = Inr (json_norm j)"
proof -
  obtain t where "basic_json_dump tc ind 32 False Strict j = Inr t" "value_text j t" by (rule dump_reads [OF assms])
  with basic_json_parse_text [OF this(2) assms(2), of "[]" "[]" strtod] that show thesis by simp
qed

lemma empty_input: "\<exists>e. basic_json_parse strtod [] = Inl e"
proof -
  let ?p = "parser0 strtod [] False"
  have "fst (scan strtod (lexer0 [] False)) = End_Of_Input"
    by (rule scan_end) (simp_all add: ready_def lx_inv_def lexer0_def lrest_def)
  then have "last_token ?p = End_Of_Input" by (auto simp: parser0_def get_token_def split: prod.splits)
  then have "parse_value strtod [] ?p = Inl (syntax_error Literal_Or_Value ''value'' ?p)" by (simp add: parse_value_def)
  then have "sax_parse_internal strtod False [] ?p = Inl (syntax_error Literal_Or_Value ''value'' ?p)"
    by (subst sax_parse_internal.simps) simp
  then show ?thesis by (simp add: basic_json_parse_def parser_parse_def)
qed

lemma parse_well:
  assumes "basic_json_parse strtod s = Inr j"
  shows "s \<noteq> [] \<and> json_utf8 utf8 j \<and> json_sorted j"
  using assms basic_json_parse_ok [of strtod s] empty_input [of strtod] by (auto simp: well_def)

lemma ascii_utf8: "ascii s \<Longrightarrow> utf8 s"
  by (induction s) (simp_all add: ascii_def utf8_def utf8_follow_def)

text \<open>
  C11. What is written is read back: every value without doubles whose strings are UTF-8 is written without an exception,
  and the parser reads the text, with any white space around it, as the same value, non-negative integers as unsigned
  ones.
\<close>

theorem json_roundtrip:
  assumes "json_utf8 utf8 j" and "json_std j" and "indent_ok ind"
  shows "\<exists>t. basic_json_dump tc ind 32 False Strict j = Inr t \<and>
           (\<forall>w w'. ws w \<and> ws w' \<longrightarrow> basic_json_parse strtod (w @ t @ w') = Inr (json_norm j))"
proof -
  obtain t where "basic_json_dump tc ind 32 False Strict j = Inr t" "value_text j t" by (rule dump_reads [OF assms])
  with basic_json_parse_text [OF this(2) assms(2)] show ?thesis by blast
qed

theorem json_roundtrip_witness:
  "\<exists>t. basic_json_dump (\<lambda>_. []) (Some 2) 32 False Strict
          (JObject [(str ''a'', JArray [JInteger (- 5), JInteger 7, JString [0xC3, 0xA9, 34, 10]]), (str ''b'', JObject [])]) = Inr t \<and>
       basic_json_parse (\<lambda>_. 0) (32 # t @ [10]) = Inr
          (JObject [(str ''a'', JArray [JInteger (- 5), JUnsigned 7, JString [0xC3, 0xA9, 34, 10]]), (str ''b'', JObject [])])"
proof -
  let ?j = "JObject [(str ''a'', JArray [JInteger (- 5), JInteger 7, JString [0xC3, 0xA9, 34, 10]]), (str ''b'', JObject [])]"
  have "json_utf8 utf8 ?j" "json_std ?j" "indent_ok (Some 2)" by code_simp+
  from json_roundtrip [OF this, of "\<lambda>_. []" "\<lambda>_. 0"] obtain t where
    t: "basic_json_dump (\<lambda>_. []) (Some 2) 32 False Strict ?j = Inr t"
    "\<And>w w'. ws w \<Longrightarrow> ws w' \<Longrightarrow> basic_json_parse (\<lambda>_. 0) (w @ t @ w') = Inr (json_norm ?j)" by blast
  from t(1) t(2) [of "[32]" "[10]"] show ?thesis by simp
qed

text \<open>
  C12. The parser ends on every input, with an exception or with a value. A value is only delivered for an input that is
  not empty, all its strings and names are well-formed UTF-8, and the members of its objects are in order with no
  name twice. No assertion of the value builder fails: its pointers always point to open arrays and objects
  of the expected kind.
\<close>

theorem json_parse_safe:
  "case basic_json_parse strtod s of
     Inl e \<Rightarrow> e \<noteq> Assertion
   | Inr j \<Rightarrow> s \<noteq> [] \<and> json_utf8 utf8 j \<and> json_sorted j"
  using basic_json_parse_ok [of strtod s] parse_well [of strtod s] by (cases "basic_json_parse strtod s") simp_all

text \<open>The laws the programs rely on.\<close>

interpretation nl: json_library "nlohmann F" utf8 for F
proof
  fix ind j
  assume "indent_ok ind" "json_utf8 utf8 j" "json_std j"
  then obtain t where "basic_json_dump (ft_to_chars F) ind 32 False Strict j = Inr t" "basic_json_parse (ft_strtod F) t = Inr (json_norm j)"
    using dump_parse by blast
  then show "\<exists>s. js_dump (nlohmann F) ind j = Some s \<and> js_parse (nlohmann F) s = Some (json_norm j)" by (simp add: nlohmann_def)
next
  fix s j
  assume "js_parse (nlohmann F) s = Some j"
  then have "basic_json_parse (ft_strtod F) s = Inr j" by (simp add: nlohmann_def split: sum.splits)
  from parse_well [OF this] show "s \<noteq> [] \<and> json_utf8 utf8 j" by simp
qed (rule ascii_utf8)

lemmas nlohmann_json_laws = nl.laws

end
