(* ===== verification/Json_Relay.thy ===== *)
theory Json_Relay
  imports Json_Lib Http_Relay Client
begin

text \<open>
  The relays and the clients with the modelled JSON library: what the theories \<open>Relay\<close>, \<open>Http_Relay\<close> and \<open>Client\<close>
  show from \<open>json_laws\<close> holds for the programs as they are built, with the parser and the serializer of
  \<^verbatim>\<open>nlohmann::json\<close>. Only the conversion of doubles is left as an argument.
\<close>

section \<open>Concrete arguments\<close>

definition demo_float :: float_text where
  "demo_float = \<lparr>ft_to_chars = \<lambda>_. str ''0.0'', ft_strtod = \<lambda>_. 0, ft_trunc = \<lambda>_. 0\<rparr>"

abbreviation demo_json :: json_lib where
  "demo_json \<equiv> nlohmann demo_float"

lemma empty_database [simp]: "database_read lib (\<lambda>_. None) = []"
  by (simp add: database_read_def)

lemma empty_run: "relay_run lib (\<lambda>_. None) [] ([], \<lambda>_. None)"
  using relay_run.start [of lib "\<lambda>_. None"] by (simp add: relay_t_def)

lemma utf8_list: "list_all ascii xs \<Longrightarrow> list_all utf8 xs"
  by (auto simp: list_all_iff ascii_utf8)

lemma event_ascii: "event_utf8 ascii ev \<Longrightarrow> event_utf8 utf8 ev"
  by (auto simp: event_utf8_def ascii_utf8 list_all_iff)

lemma filter_ascii: "filter_utf8 ascii f \<Longrightarrow> filter_utf8 utf8 f"
  by (simp add: filter_utf8_def utf8_list)

section \<open>The web socket relay\<close>

text \<open>
  C6. The relay never fails and refines its specification: in every state that it reaches from its
  start, whatever the message is, it answers with the JSON text of the specified answer, and its
  list in memory and the list in its file change as specified. In particular it stores what is
  published, answers a request with the first stored event of one of the authors, and reports
  everything else as an error.
\<close>

theorem relay_refines_spec:
  assumes "relay_run (nlohmann F) fs0 tr (db, fs)"
  shows "\<exists>a out db' fs'. make_response (nlohmann F) now msg (db, fs) = Ret (out, db', fs') \<and>
           relay_spec (relay_query (nlohmann F) now msg) (db, database_read (nlohmann F) fs) = (a, db', database_read (nlohmann F) fs') \<and>
           js_parse (nlohmann F) out = Some (json_norm (answer_json a))"
  by (rule relay_refines [OF nlohmann_json_laws assms])

theorem relay_refines_spec_witness:
  "\<exists>a out db' fs'. make_response demo_json 7 (str ''junk'') ([], \<lambda>_. None) = Ret (out, db', fs') \<and>
     relay_spec (relay_query demo_json 7 (str ''junk'')) ([], database_read demo_json (\<lambda>_. None)) = (a, db', database_read demo_json fs') \<and>
     js_parse demo_json out = Some (json_norm (answer_json a))"
  by (rule relay_refines_spec [OF empty_run])

text \<open>
  C17. The file is not the list of published events: every event makes \<open>append\<close> write the whole
  list in memory behind what the file already holds. A relay that starts with \<open>m\<close> events and accepts
  \<open>n\<close> more leaves \<open>m * (n + 1) + n * (n + 1) / 2\<close> of them in its file.
\<close>

theorem database_grows:
  assumes "relay_run (nlohmann F) fs0 tr (db, fs)"
    and "m = length (database_read (nlohmann F) fs0)" and "n = length (published (nlohmann F) tr)"
  shows "2 * length (database_read (nlohmann F) fs) = 2 * m * (n + 1) + n * (n + 1)"
  by (rule database_length [OF nlohmann_json_laws assms])

text \<open>An event, and a run in which it is published.\<close>

definition toy_event :: event_t where
  "toy_event = (event_t0 3)\<lparr>e_id := str ''01'', e_pubkey := str ''ab'', e_content := str ''hi''\<rparr>"

lemma toy_publish_run:
  "\<exists>msg out db fs. relay_run demo_json (\<lambda>_. None) [(1, msg, out)] (db, fs) \<and> relay_query demo_json 1 msg = Publish toy_event \<and>
     (\<forall>ev0. parse_client_event demo_json msg ev0 = (True, toy_event))"
proof -
  have u: "event_utf8 utf8 toy_event"
    by (rule event_ascii) (simp add: event_utf8_def toy_event_def event_t0_def ascii_def bytes_simps)
  obtain msg where msg: "js_dump demo_json None (event_message toy_event) = Some msg" "\<And>ev0. parse_client_event demo_json msg ev0 = (True, toy_event)"
    using event_message_dump [OF nlohmann_json_laws u indent_ok_simps(1)] by blast
  have q: "relay_query demo_json 1 msg = Publish toy_event"
    by (rule event_query [OF nlohmann_json_laws u indent_ok_simps(1) msg(1)])
  obtain a db1 disk1 where "relay_spec (relay_query demo_json 1 msg) ([], database_read demo_json (\<lambda>_. None)) = (a, db1, disk1)"
    using prod_cases3 by blast
  moreover have "list_all (event_utf8 utf8) []" by simp
  ultimately obtain out fs' where "make_response demo_json 1 msg ([], \<lambda>_. None) = Ret (out, db1, fs')"
    using make_response_refines [OF nlohmann_json_laws] by blast
  from relay_run.message [OF empty_run this] q msg(2) show ?thesis by auto
qed

theorem database_grows_witness:
  "\<exists>msg out db fs. relay_run demo_json (\<lambda>_. None) [(1, msg, out)] (db, fs) \<and> length (database_read demo_json fs) = 1"
proof -
  obtain msg out db fs where r: "relay_run demo_json (\<lambda>_. None) [(1, msg, out)] (db, fs)" "relay_query demo_json 1 msg = Publish toy_event"
    using toy_publish_run by blast
  have "published demo_json [(1, msg, out)] = [toy_event]" by (simp add: published_def r(2))
  with database_grows [OF r(1), of 0 1] have "length (database_read demo_json fs) = 1" by simp
  with r show ?thesis by blast
qed

section \<open>The client\<close>


text \<open>The witness library for signatures signs everything that fits.\<close>

lemma toy_can_sign:
  assumes "length (commitment_text (client_nev ev \<lparr>k_pair = replicate 32 1, k_secret = replicate 32 1, k_pubkey = replicate 32 1\<rparr>)) < 102400"
    and "getrandom os = getrandom toy_sys"
  shows "can_sign toy_secp os n ev None"
proof -
  have "init_secp_context toy_secp os n = (True, n + 1)"
    "client_key toy_secp os (n + 1) None =
       (Some \<lparr>k_pair = replicate 32 1, k_secret = replicate 32 1, k_pubkey = replicate 32 1\<rparr>, n + 2)"
    by (simp_all add: init_secp_context_def client_key_def generate_key_def create_key_def fill_random_def toy_secp_def
        assms(2) toy_sys_def stack_key_def)
  with assms show ?thesis
    by (simp add: can_sign_def make_sig_def fill_random_def) (simp add: toy_secp_def toy_sys_def)
qed

definition toy_note :: event_t where
  "toy_note = (event_t0 5)\<lparr>e_content := str ''hi''\<rparr>"

lemma toy_note_ok:
  "event_utf8 utf8 toy_note" "getrandom os = getrandom toy_sys \<Longrightarrow> can_sign toy_secp os 0 toy_note None"
proof -
  show "event_utf8 utf8 toy_note"
    by (rule event_ascii) (simp add: toy_note_def event_utf8_def event_t0_def ascii_def bytes_simps)
  have "length (commitment_text (client_nev toy_note
      \<lparr>k_pair = replicate 32 1, k_secret = replicate 32 1, k_pubkey = replicate 32 1\<rparr>)) \<le> 200" by code_simp
  then show "getrandom os = getrandom toy_sys \<Longrightarrow> can_sign toy_secp os 0 toy_note None" by (intro toy_can_sign) simp_all
qed




text \<open>
  C18. \<open>get_follows\<close> on a relay returns the keys in the \<^verbatim>\<open>p\<close> tags of the first event of the author that the
  relay has stored, of whatever kind it is, and no key when there is none; the relay's events do not change.
\<close>

theorem follows_from_relay:
  assumes "uuid_gen_ok g" and "utf8 pubkey" and "relay_run (nlohmann F) fs0 tr (db, fs)"
  shows "\<exists>cfs' fs'. get_follows (nlohmann F) g n now (wss_relay_to (nlohmann F) t) uri pubkey (pubkeys, cfs) (db, fs) =
           ((pubkeys @ (case filter (\<lambda>ev. e_pubkey ev = pubkey) (database_read (nlohmann F) fs) of [] \<Rightarrow> [] | ev # _ \<Rightarrow> followed ev), cfs'),
            n + 31, db, fs') \<and> database_read (nlohmann F) fs' = database_read (nlohmann F) fs"
  by (rule relay_follows [OF nlohmann_json_laws assms])

theorem follows_from_relay_witness:
  "\<exists>cfs' fs'. get_follows demo_json toy_gen 0 1 (wss_relay_to demo_json 2) (str ''r'') (str ''ab'') ([], \<lambda>_. None) ([], \<lambda>_. None) =
     (([], cfs'), 31, [], fs') \<and> database_read demo_json fs' = []"
proof -
  have "utf8 (str ''ab'')" by (rule ascii_utf8) (simp add: ascii_def bytes_simps)
  from follows_from_relay [OF toy_gen_ok this empty_run [of demo_json], of 0 1 2] show ?thesis by simp
qed

section \<open>The HTTP relay and its client\<close>

text \<open>
  C9. The HTTP client and the HTTP relay work together: whatever the relay has stored before and
  however the network cuts the messages, the client's event is acknowledged with an empty response, and
  its request is answered with a list of events that contains the event it has just sent.
\<close>

theorem http_client_gets_event:
  assumes "list_all (event_utf8 utf8) db" and "host_ok ip"
    and "\<And>bs. delivers (split1 bs) bs" and "\<And>bs. delivers (split2 bs) bs"
    and "http_make_event (nlohmann F) rnd 0 t1 cfs = Ret (json1, ev, n1, cfs1)" and "length json1 < 2 ^ 31"
    and "http_make_request (nlohmann F) rnd n1 t2 cfs1 = Ret (json2, n2, cfs2)" and "length json2 < 2 ^ 31"
    and "evs = filter (\<lambda>ev. e_pubkey ev = demo_pubkey) (database_read (nlohmann F) fs @ db @ [ev])"
    and "js_dump (nlohmann F) (Some 2) (JArray (map event_to_json evs)) = Some out" and "length out < 2 ^ 31"
  shows "\<exists>fs'. http_client_main (nlohmann F) rnd t1 t2 (via_relay (nlohmann F) now ip split1 split2) cfs (db, fs) =
           Ret (HEmpty, HEvents evs, cfs2, db @ [ev], fs') \<and> ev \<in> set evs"
  by (rule http_client_answered [OF nlohmann_json_laws assms])

text \<open>The messages of the client when \<^verbatim>\<open>rand()\<close> always returns 0, and a bound of their lengths by evaluation.\<close>

definition demo_event :: event_t where
  "demo_event = \<lparr>e_id = replicate 32 48, e_pubkey = demo_pubkey, e_created_at = 1, e_kind = 1,
     e_tags = [[str ''e'', replicate 32 48], [str ''p'', demo_pubkey]], e_content = str ''some great content'',
     e_sig = replicate 64 48\<rparr>"

definition demo_filter :: filter_t where
  "demo_filter = \<lparr>f_ids = [replicate 32 48], f_authors = [demo_pubkey], f_kinds = [1], f_e = [replicate 32 48],
     f_p = [demo_pubkey], f_since = 1643873040, f_until = 2, f_limit = 100\<rparr>"

lemma demo_hex: "hex_string (\<lambda>_. 0) n 32 True = (replicate 32 48, n + 32)" "hex_string (\<lambda>_. 0) n 64 False = (replicate 64 48, n + 64)"
proof -
  have "hex_string_loop (\<lambda>_. 0) k (hex, n) = (hex @ replicate k 48, n + k)" for k hex n
    by (induction k arbitrary: hex n) (simp_all add: hex_characters_def bytes_simps replicate_append_same)
  then show "hex_string (\<lambda>_. 0) n 32 True = (replicate 32 48, n + 32)" "hex_string (\<lambda>_. 0) n 64 False = (replicate 64 48, n + 64)"
    by (simp_all add: hex_string_def tolower_def)
qed

definition short_dump :: "json \<Rightarrow> bool" where
  "short_dump j \<longleftrightarrow> (case js_dump demo_json (Some 2) j of None \<Rightarrow> False | Some t \<Rightarrow> length t \<le> 2000)"

lemma short_dumpE: "short_dump j \<Longrightarrow> (\<And>t. js_dump demo_json (Some 2) j = Some t \<Longrightarrow> length t < 2 ^ 31 \<Longrightarrow> P) \<Longrightarrow> P"
  by (auto simp: short_dump_def split: option.splits)

lemma demo_event_short: "short_dump (event_message demo_event)"
  by code_simp

lemma demo_request_short:
  "short_dump (JArray [JString (str ''REQ''), JString (str ''subscription_1''), filter_to_json demo_filter False])"
  by code_simp

lemma demo_answer_short: "short_dump (JArray (map event_to_json [demo_event]))"
  by code_simp

lemma demo_event_utf8: "event_utf8 utf8 demo_event"
proof (rule event_ascii)
  have "ascii (replicate n 48)" for n by (simp add: ascii_def list_all_iff)
  with demo_ascii show "event_utf8 ascii demo_event" by (simp add: event_utf8_def demo_event_def)
qed

lemma demo_event_made:
  assumes "js_dump lib (Some 2) (event_message demo_event) = Some json"
  shows "\<exists>fs'. http_make_event lib (\<lambda>_. 0) 0 1 fs = Ret (json, demo_event, 96, fs')"
proof -
  have e: "(event_t0 1)\<lparr>e_id := replicate 32 48, e_pubkey := demo_pubkey, e_created_at := 1, e_kind := 1,
       e_tags := [[str ''e'', replicate 32 48], [str ''p'', demo_pubkey]], e_content := str ''some great content'',
       e_sig := replicate 64 48\<rparr> = demo_event"
    by (simp add: demo_event_def event_t0_def)
  show ?thesis using assms by (simp add: http_make_event_def Let_def demo_hex e event_message_def)
qed

lemma demo_request_made:
  assumes "js_dump lib (Some 2) (JArray [JString (str ''REQ''), JString (str ''subscription_1''), filter_to_json demo_filter False]) = Some json"
  shows "\<exists>fs'. http_make_request lib (\<lambda>_. 0) 96 2 fs = Ret (json, 128, fs')"
proof -
  have f: "(filter_t0 2)\<lparr>f_ids := [replicate 32 48], f_authors := [demo_pubkey], f_kinds := [1], f_e := [replicate 32 48],
       f_p := [demo_pubkey], f_since := 1643873040, f_until := 2, f_limit := 100\<rparr> = demo_filter"
    by (simp add: demo_filter_def filter_t0_def)
  show ?thesis using assms by (simp add: http_make_request_def Let_def demo_hex f)
qed

theorem http_client_gets_event_witness:
  "\<exists>cfs fs'. http_client_main demo_json (\<lambda>_. 0) 1 2 (via_relay demo_json 3 (str ''h'') (\<lambda>bs. [bs]) (map (\<lambda>c. [c])))
       (\<lambda>_. None) ([], \<lambda>_. None) = Ret (HEmpty, HEvents [demo_event], cfs, [demo_event], fs') \<and>
     demo_event \<in> set [demo_event]"
proof -
  obtain json1 where j1: "js_dump demo_json (Some 2) (event_message demo_event) = Some json1" "length json1 < 2 ^ 31"
    by (rule short_dumpE [OF demo_event_short])
  obtain json2 where j2: "js_dump demo_json (Some 2)
      (JArray [JString (str ''REQ''), JString (str ''subscription_1''), filter_to_json demo_filter False]) = Some json2" "length json2 < 2 ^ 31"
    by (rule short_dumpE [OF demo_request_short])
  obtain out where out: "js_dump demo_json (Some 2) (JArray (map event_to_json [demo_event])) = Some out" "length out < 2 ^ 31"
    by (rule short_dumpE [OF demo_answer_short])
  obtain cfs1 where e: "http_make_event demo_json (\<lambda>_. 0) 0 1 (\<lambda>_. None) = Ret (json1, demo_event, 96, cfs1)"
    using demo_event_made [OF j1(1)] by blast
  obtain cfs2 where r: "http_make_request demo_json (\<lambda>_. 0) 96 2 cfs1 = Ret (json2, 128, cfs2)"
    using demo_request_made [OF j2(1)] by blast
  have evs: "[demo_event] = filter (\<lambda>ev. e_pubkey ev = demo_pubkey) (database_read demo_json (\<lambda>_. None) @ [] @ [demo_event])"
    by (simp add: demo_event_def)
  have "host_ok (str ''h'')" "list_all (event_utf8 utf8) []" by (simp_all add: host_ok_def bytes_simps)
  from http_client_gets_event [OF this(2,1) _ _ e j1(2) r j2(2) evs out, of "\<lambda>bs. [bs]" "map (\<lambda>c. [c])" 3]
  show ?thesis by (auto simp: delivers_def)
qed

end
