(* ===== verification/Json_Gnostr.thy ===== *)
theory Json_Gnostr
  imports Json Json_Lib
begin

text \<open>
  The JSON writer of \<^verbatim>\<open>gnostr.c\<close> against the JSON parser of the relays: which of the strings that
  \<open>cursor_push_jsonstr\<close> writes the parser of \<^verbatim>\<open>nlohmann/json.hpp\<close> reads back. The writer escapes seven
  characters and writes every other control character as it is (the \<^verbatim>\<open>TODO\<close> in its source), and the
  parser refuses those.
\<close>

section \<open>The characters written as they are\<close>

definition raw_control :: "u8 \<Rightarrow> bool" where
  "raw_control b \<longleftrightarrow> b \<le> 0x1F \<and> b \<notin> {8, 9, 10, 12, 13}"

lemma escape_esc_byte: "\<not> raw_control b \<Longrightarrow> escape b = esc_byte b"
  by (auto simp: raw_control_def escape_def escape_piece_def esc_byte_def bytes_simps)

lemma escape_raw: "raw_control b \<Longrightarrow> escape b = [b]"
  by (auto simp: raw_control_def escape_def escape_piece_def word_le_nat_alt word_unat_eq_iff)

lemma escape_escaped: "\<forall>b \<in> set x. \<not> raw_control b \<Longrightarrow> concat (map escape x) = escaped x"
  by (induction x) (simp_all add: escape_esc_byte)

lemma json_text_quoted: "\<forall>b \<in> set x. \<not> raw_control b \<Longrightarrow> json_text x = json_quoted x"
  by (simp add: json_text_def json_quoted_def escape_escaped)

section \<open>What the parser does with a string\<close>

lemma utf8_from_before_ascii:
  assumes "utf8_from rs (p @ b # q)" and "b < 0x80" and "\<forall>(lo, hi) \<in> set rs. 0x80 \<le> lo"
  shows "utf8_from rs p"
  using assms
proof (induction rs p rule: utf8_from.induct)
  case (1 rs)
  then show ?case by (cases rs) (auto dest: order_trans [of 0x80])
next
  case (2 c s)
  have "\<forall>(lo, hi) \<in> set rs. 0x80 \<le> lo" if "utf8_follow c = Some rs" for rs
    using that by (auto simp: utf8_follow_def split: if_splits)
  with 2 show ?case by (auto split: option.splits)
qed auto

lemma utf8_before_ascii: "utf8 (p @ b # q) \<Longrightarrow> b < 0x80 \<Longrightarrow> utf8 p"
  unfolding utf8_def by (rule utf8_from_before_ascii) simp_all

lemma raw_control_ascii: "raw_control b \<Longrightarrow> b < 0x80"
  by (auto simp: raw_control_def word_le_nat_alt word_less_nat_alt)

lemma split_at_raw:
  assumes "\<exists>b \<in> set x. raw_control b"
  obtains p b q where "x = p @ b # q" and "raw_control b" and "\<forall>c \<in> set p. \<not> raw_control c"
  using assms split_list_first_prop [of x raw_control] by blast

lemma scan_string_refuses:
  assumes "ready lx" and "lrest lx = json_text x" and "utf8 x" and "\<exists>b \<in> set x. raw_control b"
  shows "fst (scan strtod lx) = Parse_Error"
proof -
  obtain p b q where x: "x = p @ b # q" and b: "raw_control b" and p: "\<forall>c \<in> set p. \<not> raw_control c"
    by (rule split_at_raw [OF assms(4)])
  let ?r = "concat (map escape q) @ [34]"
  have l: "lrest lx = [] @ 34 # escaped p @ b # ?r"
    using assms(2) by (simp add: x json_text_def escape_escaped [OF p] escape_raw [OF b])
  obtain lx1 where l1: "scan strtod lx = scan_token strtod lx1" "current lx1 = uint (34 :: u8)"
    "lrest lx1 = escaped p @ b # ?r" "ready lx1"
    by (rule scan_start [OF assms(1) l]) (auto simp: ws_def)
  have "lx_inv (reset lx1)" "lrest (reset lx1) = escaped p @ b # ?r" using l1(3,4) by (simp_all add: ready_def)
  from string_loop_prefix [OF this utf8_before_ascii [OF assms(3) [unfolded x] raw_control_ascii [OF b]]]
  obtain lx2 where l2: "scan_string_loop (reset lx1) = scan_string_loop lx2" "lx_inv lx2" "lrest lx2 = b # ?r" by blast
  have "0 \<le> uint b" "uint b \<le> 0x1F" using b by (simp_all add: raw_control_def word_le_def)
  then have "fst (scan_string_loop lx2) = Parse_Error"
    using get_Cons(1) [OF l2(2,3)] by (simp add: scan_string_loop.simps [of lx2] Let_def eof_def fail_def)
  then show ?thesis using l1(1,2) l2(1) by (simp add: scan_token_def Let_def scan_string_def)
qed

lemma parse_refuses:
  assumes "fst (scan strtod (lexer0 s False)) = Parse_Error"
  shows "\<exists>e. basic_json_parse strtod s = Inl e"
proof -
  let ?p = "parser0 strtod s False"
  have "last_token ?p = Parse_Error" using assms by (auto simp: parser0_def get_token_def split: prod.splits)
  then have "parse_value strtod [] ?p = Inl (syntax_error Uninitialized ''value'' ?p)" by (simp add: parse_value_def)
  then have "sax_parse_internal strtod False [] ?p = Inl (syntax_error Uninitialized ''value'' ?p)"
    by (subst sax_parse_internal.simps) simp
  then show ?thesis by (simp add: basic_json_parse_def parser_parse_def)
qed

section \<open>Properties\<close>

text \<open>
  C26. A JSON string on a cursor: with room for the text and a byte to spare, \<open>cursor_push_jsonstr\<close>
  appends a text to the data. For a UTF-8 string the parser of the relays reads this text as exactly that
  string when the string has no control characters but the five with a short escape (backspace, tab, line
  feed, form feed, carriage return); with any other control character, which the code writes without an
  escape, the text is no JSON and the parser refuses it.
\<close>

theorem jsonstr_parsed:
  assumes "cursor_inv s" and "length (json_text x) < cursor_room s" and "utf8 x"
  shows "\<exists>s' t. cursor_push_jsonstr x s = (True, s') \<and> cursor_inv s' \<and> cursor_frame s s' \<and>
           cursor_data s' = cursor_data s @ t \<and>
           (if \<exists>b \<in> set x. b \<le> 0x1F \<and> b \<notin> {8, 9, 10, 12, 13} then \<exists>e. basic_json_parse strtod t = Inl e
            else basic_json_parse strtod t = Inr (JString x))"
proof -
  have refused: "\<exists>e. basic_json_parse strtod (json_text x) = Inl e" if "\<exists>b \<in> set x. raw_control b"
    using that assms(3)
    by (intro parse_refuses scan_string_refuses)
       (simp_all add: ready_def lx_inv_def lexer0_def lrest_def)
  have accepted: "basic_json_parse strtod (json_text x) = Inr (JString x)" if "\<not> (\<exists>b \<in> set x. raw_control b)"
  proof -
    have "json_text x = json_quoted x" using that by (intro json_text_quoted) blast
    with basic_json_parse_text [OF value_text_elements_text_members_text.string [OF assms(3)], of "[]" "[]" strtod] assms(3)
    show ?thesis by (simp add: ws_def)
  qed
  obtain s' where "cursor_push_jsonstr x s = (True, s')" "cursor_inv s'" "cursor_frame s s'"
    "cursor_data s' = cursor_data s @ json_text x"
    using jsonstr_pushed [OF assms(1,2)] by blast
  with refused accepted show ?thesis unfolding raw_control_def by (intro exI [of _ s'] exI [of _ "json_text x"]) auto
qed

theorem jsonstr_parsed_witness:
  "(\<exists>s' t. cursor_push_jsonstr [34, 10, 0xC3, 0xA9] (make_cursor 0 16, (\<lambda>_. 0)) = (True, s') \<and>
      cursor_data s' = t \<and> basic_json_parse (\<lambda>_. 0) t = Inr (JString [34, 10, 0xC3, 0xA9])) \<and>
   (\<exists>s' t e. cursor_push_jsonstr [65, 1] (make_cursor 0 16, (\<lambda>_. 0)) = (True, s') \<and>
      cursor_data s' = t \<and> basic_json_parse (\<lambda>_. 0) t = Inl e)"
proof -
  let ?s = "(make_cursor 0 16, (\<lambda>_. 0)) :: cst"
  have inv: "cursor_inv ?s" by (rule make_cursor_inv) simp_all
  have room: "length (json_text [34, 10, 0xC3, 0xA9]) < cursor_room ?s" "length (json_text [65, 1]) < cursor_room ?s"
    by (simp_all add: json_text_def escape_def escape_piece_def)
  have u: "utf8 [34, 10, 0xC3, 0xA9]" "utf8 [65, 1]" by (simp_all add: utf8_def utf8_follow_def)
  show ?thesis
    using jsonstr_parsed [OF inv room(1) u(1), of "\<lambda>_. 0"] jsonstr_parsed [OF inv room(2) u(2), of "\<lambda>_. 0"] by auto
qed

end
