(* ===== verification/Spec2Isabelle.thy ===== *)
theory Spec2Isabelle
  imports Cursor Hex Endian Sha256 Base64 Aes Proof_Work Json Event Keys Dm Args To_Base Gnostr
    Jsmin_Main Config_Main Variants Nostri Json_Value Nostr_Msg Relay Uuid Http Http_Relay Client
    Utf8 Json_Dump Json_Escape Json_Text Json_Lex Json_Scan Json_Read Json_Parse Json_Roundtrip Json_Sound Json_Lib Json_Relay Json_Gnostr
begin

text \<open>
  A verification library for \<^verbatim>\<open>gnostr\<close>, a command line tool that builds, mines, signs and
  prints nostr events, for the library and program \<^verbatim>\<open>nostril\<close> beside it, for the relays and clients in
  \<^verbatim>\<open>src\<close> that store and exchange such events, and for two of its build tools, the configurator and the
  JavaScript minifier. Paths below are relative to the repository.

  \<^bold>\<open>The program and its parts.\<close> \<^verbatim>\<open>main\<close> of \<^verbatim>\<open>gnostr.c\<close> parses the command line into a
  \<^verbatim>\<open>struct args\<close> and a \<^verbatim>\<open>struct nostr_event\<close>, obtains a key (decoded, generated or mined), may
  replace the content by an encrypted direct message, computes the id (mining a nonce when a
  difficulty is asked for), signs it and prints the event. It rests on the header libraries
  \<^verbatim>\<open>cursor.h\<close> (bounded writing into memory), \<^verbatim>\<open>hex.h\<close>, \<^verbatim>\<open>endian.h\<close>, \<^verbatim>\<open>proof.h\<close>,
  \<^verbatim>\<open>random.h\<close>, and on \<^verbatim>\<open>sha256.c\<close>, \<^verbatim>\<open>base64.c\<close> and \<^verbatim>\<open>aes.c\<close>. The relays keep a list of events in
  memory and another in the file \<^verbatim>\<open>database.json\<close>; one of them answers messages on a web socket
  (\<^verbatim>\<open>src/wss_relay.cc\<close>), the other one answers HTTP posts (\<^verbatim>\<open>src/http/http_relay.cc\<close>). The clients make
  and sign events with the library, send them, and query a relay.

  \<^bold>\<open>Theories.\<close>
  \<^item> \<^verbatim>\<open>Prelude\<close>: types of the model (\<open>u8\<close>, \<open>u32\<close>, \<open>u64\<close>, \<open>bytes\<close>, \<open>cstr\<close>, \<open>memory\<close>), the result type
    \<open>outcome\<close> (\<open>Abort\<close> is a failed assertion or a write past the end of an array), decimal printing,
    \<^verbatim>\<open>snprintf\<close>, and the shared lemmas.
  \<^item> \<^verbatim>\<open>Cursor\<close> (\<^verbatim>\<open>include/cursor.h\<close>): the record \<open>cursor\<close> and every operation on it over a byte
    memory. No sequence of operations with lengths in their range leaves the region (\<open>cursor_ops_confined\<close>),
    and operations with other arguments do. The locale \<open>byte_sink\<close> is the interface the writers above it use; \<open>cursor_sink\<close> is its interpretation on the cursor.
  \<^item> \<^verbatim>\<open>Hex\<close>, \<^verbatim>\<open>Endian\<close>, \<^verbatim>\<open>Base64\<close> (\<^verbatim>\<open>include/hex.h\<close>, \<^verbatim>\<open>include/endian.h\<close>,
    \<^verbatim>\<open>base64.c\<close>, \<^verbatim>\<open>include/base64.h\<close>): round trips, exact error conditions and byte layout.
  \<^item> \<^verbatim>\<open>Sha256\<close> (\<^verbatim>\<open>sha256.c\<close>): the unrolled rounds equal the compression function of FIPS 180-4,
    the buffered updates refine the hash of the whole message.
  \<^item> \<^verbatim>\<open>Aes\<close> (\<^verbatim>\<open>aes.c\<close>, \<^verbatim>\<open>include/aes.h\<close>): key expansion, cipher, CBC and CTR for
    AES-256; the tables against FIPS 197, invertibility of the cipher and of the modes.
  \<^item> \<^verbatim>\<open>Proof_Work\<close> (\<^verbatim>\<open>include/proof.h\<close>): leading zero bits as a bound on the hash as a number.
  \<^item> \<^verbatim>\<open>Json\<close>, \<^verbatim>\<open>Event\<close> (\<^verbatim>\<open>gnostr.c\<close>): the JSON writer, tags, the commitment, the id, mining
    and printing; what the commitment determines, when mining returns and what it returns.
  \<^item> \<^verbatim>\<open>Keys\<close>, \<^verbatim>\<open>Dm\<close> (\<^verbatim>\<open>gnostr.c\<close>, \<^verbatim>\<open>include/random.h\<close>): keys and signatures, direct
    messages, that they can be read, and exactly when their buffer is overrun.
  \<^item> \<^verbatim>\<open>Args\<close>, \<^verbatim>\<open>To_Base\<close>, \<^verbatim>\<open>Gnostr\<close> (\<^verbatim>\<open>gnostr.c\<close>, \<^verbatim>\<open>include/struct_args.h\<close>,
    \<^verbatim>\<open>include/openssl_hash.h\<close>): the command line, a printing helper, and \<^verbatim>\<open>main\<close> as the
    composition of its stages \<open>main_key\<close>, \<open>main_dm\<close>, \<open>main_id\<close>, \<open>main_publish\<close>. The theorems of \<^verbatim>\<open>Gnostr\<close>
    are the end-to-end ones: what is printed is a valid event that matches the options
    (\<open>event_requested\<close>, with \<open>--dm\<close> an encryption for the recipient), a note is published under stated
    conditions, and the complete list of what can crash the program.
  \<^item> \<^verbatim>\<open>Variants\<close> (\<^verbatim>\<open>devtools/gnostr-git.c\<close>, \<^verbatim>\<open>devtools/.gnostr-relay.c\<close>,
    \<^verbatim>\<open>sources/gnostr-xor.c\<close>): the programs with the same core and other options; the locale
    \<open>early_stop\<close> carries over what is known of \<open>gnostr\<close>.
  \<^item> \<^verbatim>\<open>Nostri\<close> (\<^verbatim>\<open>src/nostril/nostri.c\<close>, \<^verbatim>\<open>src/nostril/nostril.c\<close>): what the library does
    differently, and that it otherwise computes what \<open>gnostr\<close> computes; the program writes its event twice.
  \<^item> \<^verbatim>\<open>Json_Value\<close>, \<^verbatim>\<open>Nostr_Msg\<close> (\<^verbatim>\<open>ext/json-3.11.2\<close>, \<^verbatim>\<open>src/nostr.hh\<close>, \<^verbatim>\<open>src/nostr.cc\<close>): JSON values with the
    access and the conversions that are used, events and filters, and the messages; a message that is
    printed is parsed back. What a JSON library promises is \<open>json_laws\<close>, as an interface the locale \<open>json_library\<close>.
  \<^item> \<^verbatim>\<open>Utf8\<close>, \<^verbatim>\<open>Json_Dump\<close>, \<^verbatim>\<open>Json_Escape\<close>, \<^verbatim>\<open>Json_Text\<close> (class \<^verbatim>\<open>serializer\<close> of \<^verbatim>\<open>ext/json-3.11.2\<close>): the table-driven UTF-8
    decoder against the table of well-formed sequences, the writer of strings with its buffer and its three error
    modes, the writer of integers, and \<open>dump\<close>; what is written is a text of the value in the grammar \<open>value_text\<close>.
  \<^item> \<^verbatim>\<open>Json_Lex\<close>, \<^verbatim>\<open>Json_Scan\<close>, \<^verbatim>\<open>Json_Read\<close> (class \<^verbatim>\<open>lexer\<close>): the scanner with its push-back, its number automaton and its
    error messages; every token consumes input, strings are UTF-8, and what is written is read back token by token.
  \<^item> \<^verbatim>\<open>Json_Parse\<close>, \<^verbatim>\<open>Json_Roundtrip\<close>, \<^verbatim>\<open>Json_Sound\<close>, \<^verbatim>\<open>Json_Lib\<close> (classes \<^verbatim>\<open>parser\<close> and \<^verbatim>\<open>json_sax_dom_parser\<close>): the parser
    loop, total by a measure on the input left, with pointers into the growing value as paths. Every text of a value is
    read as that value, and an arbitrary input gives an exception or a well-formed value, never a failed assertion.
    \<open>nlohmann\<close> is the library as the programs call it, and the interpretation of \<open>json_library\<close>.
  \<^item> \<^verbatim>\<open>Relay\<close> (\<^verbatim>\<open>src/log.cc\<close>, \<^verbatim>\<open>src/database.cc\<close>, \<^verbatim>\<open>src/relay.cc\<close>, \<^verbatim>\<open>src/wss_relay.cc\<close>): files, the database and the
    answers of the relay. \<open>relay_spec\<close> is the abstract relay on two lists of events, \<open>relay_run\<close> the reachable
    states; the relay refines the specification on every message, and what its file holds is counted.
  \<^item> \<^verbatim>\<open>Uuid\<close> (\<^verbatim>\<open>src/uuid.cc\<close>): identifiers of subscriptions and their format.
  \<^item> \<^verbatim>\<open>Http\<close>, \<^verbatim>\<open>Http_Relay\<close> (\<^verbatim>\<open>src/http\<close> and two receive loops of \<^verbatim>\<open>ext/asio-1.18.1\<close>): a stream that arrives in
    segments, posts and their parser, the relay and the client that exchange them; every theorem holds
    for every segmentation.
  \<^item> \<^verbatim>\<open>Client\<close> (\<^verbatim>\<open>src/nostr.cc\<close>, \<^verbatim>\<open>src/wss_client.cc\<close>): making and signing an event, the queries for follows, feed
    and metadata, and the client program; its composition with the relay.
  \<^item> \<^verbatim>\<open>Json_Relay\<close>: the theorems on the relays and the clients with the modelled JSON library in place.
  \<^item> \<^verbatim>\<open>Json_Gnostr\<close>: which strings written by \<open>cursor_push_jsonstr\<close> of \<^verbatim>\<open>gnostr.c\<close> the JSON parser reads back, and
    that it refuses the others (those with control characters that the writer does not escape).
  \<^item> \<^verbatim>\<open>Config\<close>, \<^verbatim>\<open>Config_Main\<close> (\<^verbatim>\<open>configurator.c\<close>): feature tests with dependencies and
    overrides, the descriptions read from the input, and the header that is written.
  \<^item> \<^verbatim>\<open>Jsmin\<close>, \<^verbatim>\<open>Jsmin_Main\<close> (\<^verbatim>\<open>template/gnostr-jsmin.c\<close>): the minifier as total functions
    on its look-ahead, its last characters, the input left and the output.

  \<^bold>\<open>Interfaces.\<close> Besides \<open>byte_sink\<close>: \<open>text_codec\<close> (a text that is decoded to what it encodes), interpreted
  on hexadecimal and base64; \<open>incremental_hash\<close> on the SHA-256 context; \<open>block_cipher\<close> (from which CBC
  inherits its round trip) on AES; \<open>prefix_code\<close> (texts that can be told apart when concatenated) on
  JSON strings and lists, from which the injectivity of the commitment follows; \<open>json_library\<close> on \<open>nlohmann\<close>; \<open>event_store\<close> (a relay
  that stores what it accepts) on the web socket relay and on the HTTP relay, from which they agree.

  \<^bold>\<open>Parameters.\<close> The library \<^verbatim>\<open>secp256k1\<close> is a record of functions; what is used of it is
  \<open>secp_laws\<close>: keys and signatures have their documented lengths and a signature made with a key pair
  verifies under its public key; for direct messages, \<open>dm_setup\<close> names the shared secret that its
  Diffie-Hellman function returns, which the recipient is taken to know.
  \<open>sys\<close> holds the random source, the time, \<^verbatim>\<open>execvp\<close> and the initial \<^verbatim>\<open>errno\<close>; \<open>cenv\<close> the
  compiler, the test programs and the files of the configurator. The
  theories of the relays take a JSON library with \<open>json_laws\<close>: valid UTF-8 is printed to a text that is
  parsed back to the same value, with non-negative integers as unsigned ones, and what is parsed is
  valid UTF-8. These laws are proved for the modelled library; only the conversions between doubles and
  texts, collected in \<open>float_text\<close>, are left open. \<open>uuid_gen\<close> and \<open>rnd\<close> are random generators, and connections are functions from what is
  sent to what is received. Each hypothesis has a concrete instance (\<open>toy_secp\<close>, \<open>toy_sys\<close>, \<open>demo_float\<close>,
  \<open>toy_gen\<close>) in the witnesses.

  \<^bold>\<open>Loops and bounds.\<close> The two mining loops may run for ever and are \<open>partial_function (option)\<close>: \<open>None\<close>
  is a run that does not return, and \<open>mine_event_returns\<close> says exactly when it returns.
  \<open>run_test\<close> of the configurator has a recursion depth: \<open>run_test_terminates\<close> shows that a depth above
  the rank of a test is enough, and depth two for the built-in table. All other loops are total
  functions. Machine integers are words. Where arithmetic on lengths can leave its type, the model
  follows it: the sums of pointers and the products of \<^verbatim>\<open>int\<close>s in the cursor wrap, a cursor operation with
  arguments outside its bounds leaves the region (\<open>cursor_pull_negative\<close>, \<open>cursor_malloc_wraps\<close>,
  \<open>cursor_dropn_wraps\<close>), and a direct message whose sizes are no \<^verbatim>\<open>int\<close>s is undefined behaviour
  (\<open>dm_overruns_encbuf\<close>). A \<^verbatim>\<open>strlen\<close> handed on as an \<^verbatim>\<open>int\<close> (\<open>cursor_push_str\<close>) is the natural number: the
  strings are literals, numbers and single arguments of the command line, which the system limits to
  131072 bytes.

  \<^bold>\<open>Not modelled.\<close> Text on the standard error, but for the event that \<^verbatim>\<open>nostril\<close> writes there; the release of memory and files (but for one \<^verbatim>\<open>free\<close> in
  the configurator that is wrong); the big-endian branches and the OpenSSL variant of SHA-256, which
  are not compiled. The copies of the libraries under \<^verbatim>\<open>src/nostril\<close> are the files of the root with
  portability changes. Two functions that nothing calls, \<^verbatim>\<open>hash_xor\<close> of \<^verbatim>\<open>sources/gnostr-xor.c\<close> and
  \<^verbatim>\<open>xor_hash\<close> of \<^verbatim>\<open>include/xor_hash.h\<close>, run shell commands and are left out. The logs of the C++ programs,
  their graphical interfaces, the web socket library, the scripts, the embedded JavaScript and the other
  vendored libraries under \<^verbatim>\<open>ext\<close> are outside the scope; of the JSON library, the digits of doubles, binary values, user
  callbacks, the binary formats, pointers and patches, which the programs do not use. The web socket server runs its handlers one at a
  time, and writing to a file or a socket succeeds.
\<close>

section \<open>The two relays\<close>

text \<open>
  C10. The relay behind the web socket and the HTTP relay on the same events. When events with UTF-8
  fields, whose messages are below 2 GB, are published to either of them as printed messages, one after
  the other, all are accepted, however the network cuts the HTTP messages; and from any files at the
  start the first relay has stored, in memory or in its file, exactly these events and those its
  \<^verbatim>\<open>database.json\<close> held, and the second exactly these events, since it empties the file when it starts.
  So they hold the same set of events when there is no such file, and otherwise differ at most in its
  events. Other messages are not part of this property.
\<close>

theorem relays_agree:
  assumes "\<And>bs. delivers (split1 bs) bs" and "list_all (http_accepts (nlohmann F) utf8) evs"
  shows "\<exists>st1 st2. wss_store.publish_all (nlohmann F) now evs (relay_t (nlohmann F) fs, fs) = Some st1 \<and>
           http_store.publish_all (nlohmann F) now ip split1 evs (http_relay_start (nlohmann F) fs) = Some st2 \<and>
           relay_stored (nlohmann F) st1 = set evs \<union> set (database_read (nlohmann F) fs) \<and>
           relay_stored (nlohmann F) st2 = set evs \<and>
           (fs (str ''database.json'') = None \<longrightarrow> relay_stored (nlohmann F) st1 = relay_stored (nlohmann F) st2)"
proof -
  let ?lib = "nlohmann F"
  have "relay_inv ?lib utf8 (relay_t ?lib fs, fs)"
    "relay_stored ?lib (relay_t ?lib fs, fs) = set (database_read ?lib fs)"
    using nlohmann_json_laws [of F] database_read_utf8 [OF nlohmann_json_laws [of F], of fs]
    by (simp_all add: relay_inv_def relay_stored_def relay_t_def)
  moreover have "list_all (event_utf8 utf8) evs" using assms(2) by (auto simp: list_all_iff http_accepts_def)
  ultimately obtain st1 where
    "wss_store.publish_all ?lib now evs (relay_t ?lib fs, fs) = Some st1"
    "relay_stored ?lib st1 = set evs \<union> set (database_read ?lib fs)"
    using wss_store.publish_all_ok [of ?lib utf8 _ evs now] by fastforce
  moreover from http_relay_start_ok [OF nlohmann_json_laws [of F] assms(1), of fs] obtain st2 where
    "http_store.publish_all ?lib now ip split1 evs (http_relay_start ?lib fs) = Some st2" "relay_stored ?lib st2 = set evs"
    using http_store.publish_all_ok [of ?lib utf8 split1 _ evs now ip] assms(2) by fastforce
  ultimately show ?thesis by (auto simp: database_read_def)
qed

theorem relays_agree_witness:
  "\<exists>st1 st2. wss_store.publish_all demo_json 1 [demo_event] (relay_t demo_json (\<lambda>_. None), \<lambda>_. None) = Some st1 \<and>
     http_store.publish_all demo_json 1 (str ''h'') (map (\<lambda>c. [c])) [demo_event] (http_relay_start demo_json (\<lambda>_. None)) = Some st2 \<and>
     relay_stored demo_json st1 = {demo_event} \<and> relay_stored demo_json st2 = {demo_event}"
proof -
  obtain msg where "js_dump demo_json (Some 2) (event_message demo_event) = Some msg" "length msg < 2 ^ 31"
    by (rule short_dumpE [OF demo_event_short])
  then have "list_all (http_accepts demo_json utf8) [demo_event]" using demo_event_utf8 by (simp add: http_accepts_def)
  moreover have "delivers (map (\<lambda>c. [c]) bs) bs" for bs by (simp add: delivers_def)
  ultimately show ?thesis
    using relays_agree [of "map (\<lambda>c. [c])" demo_float "[demo_event]" 1 "\<lambda>_. None" "str ''h''"]
    by (fastforce simp: database_read_def simp del: wss_store.publish_all.simps http_store.publish_all.simps)
qed

end
